(* ===== verification/Prelude.thy ===== *)
theory Prelude
  imports Complex_Main "HOL-Library.Word" "HOL-Library.Multiset"
begin

text \<open>
  What the component theories share: the names of the machine types, the collections of
  rewrite rules, and the two loop shapes of the Go code that several components use (the
  backwards scan that stops at a limit, and the binary search of package sort), each with
  the lemma that gives its closed form.

  \<^item> \<open>u8\<close>, \<open>u32\<close>, \<open>u64\<close>: Go's unsigned integers, with their wrap-around.
  \<^item> \<open>f64\<close>, \<open>f32\<close>: Go's floating point numbers, as exact reals (no rounding, no NaN).
  \<^item> \<open>instant\<close>: a \<open>time.Time\<close>, as the nanoseconds since the zero time of package time
    (January 1 of year 1, UTC), so that \<open>IsZero\<close> is equality with 0.
  \<^item> a Go string is its list of bytes, a HOL \<open>string\<close>.
\<close>

unbundle bit_operations_syntax

type_synonym u8 = "8 word"
type_synonym u32 = "32 word"
type_synonym u64 = "64 word"
type_synonym f64 = real
type_synonym f32 = real
type_synonym instant = int
type_synonym duration = int

named_theorems tenant_scope \<open>what an operation returns belongs to the tenant it was asked for\<close>
named_theorems preserves \<open>an operation keeps the invariant of its component\<close>

subsection \<open>Time\<close>

text \<open>\<open>time.Time.Sub\<close> saturates at the bounds of the 64-bit \<open>Duration\<close>.\<close>

definition time_sub :: "instant \<Rightarrow> instant \<Rightarrow> duration" where
  "time_sub t u = max (- (2 ^ 63)) (min (2 ^ 63 - 1) (t - u))"

definition seconds :: "duration \<Rightarrow> f64" where
  "seconds d = of_int d / 1000000000"

lemma time_sub_self [simp]: "time_sub t t = 0"
  by (simp add: time_sub_def)

lemma time_sub_nonneg: "u \<le> t \<Longrightarrow> 0 \<le> time_sub t u"
  by (simp add: time_sub_def)

lemma time_sub_le: "u \<le> t \<Longrightarrow> time_sub t u \<le> t - u"
  by (auto simp: time_sub_def)

lemma seconds_0 [simp]: "seconds 0 = 0"
  by (simp add: seconds_def)

lemma seconds_mono: "d \<le> e \<Longrightarrow> seconds d \<le> seconds e"
  by (simp add: seconds_def divide_right_mono)

lemma seconds_nonneg: "0 \<le> d \<Longrightarrow> 0 \<le> seconds d"
  by (simp add: seconds_def)

lemma seconds_add: "seconds (d + e) = seconds d + seconds e"
  by (simp add: seconds_def add_divide_distrib)

subsection \<open>Slices\<close>

lemma slice_append:
  assumes "a \<le> b" "b \<le> length s"
  shows "drop a (take b s) @ drop b s = drop a s"
proof -
  have "drop a s = drop a (take b s @ drop b s)" by simp
  also have "\<dots> = drop a (take b s) @ drop b s"
    using assms by (subst drop_append) simp
  finally show ?thesis ..
qed

lemma find_Some_mem: "find P xs = Some x \<Longrightarrow> x \<in> set xs \<and> P x"
  by (auto simp: find_Some_iff)

subsection \<open>The backwards scan with a limit\<close>

text \<open>
  \<^verbatim>\<open>for i := len(xs) - 1; i >= 0 && len(out) < n; i-- { if p(xs[i]) { out = append(out, xs[i]) } }\<close>
  Here \<open>i\<close> is one more than the loop variable.
\<close>

fun scan_back :: "('a \<Rightarrow> bool) \<Rightarrow> 'a list \<Rightarrow> nat \<Rightarrow> nat \<Rightarrow> 'a list \<Rightarrow> 'a list" where
  "scan_back p xs n 0 out = out"
| "scan_back p xs n (Suc i) out =
     (if length out < n
      then scan_back p xs n i (if p (xs ! i) then out @ [xs ! i] else out)
      else out)"

lemma scan_back_acc:
  "i \<le> length xs \<Longrightarrow> length out \<le> n \<Longrightarrow>
   scan_back p xs n i out = take n (out @ filter p (rev (take i xs)))"
proof (induction p xs n i out rule: scan_back.induct)
  case (2 p xs n i out)
  show ?case
  proof (cases "length out < n")
    case True
    have "rev (take (Suc i) xs) = xs ! i # rev (take i xs)"
      using 2(2) by (simp add: take_Suc_conv_app_nth)
    with True 2 show ?thesis by (simp add: take_Cons')
  next
    case False
    with 2(3) show ?thesis by simp
  qed
qed simp

lemma scan_back_spec:
  "scan_back p xs n (length xs) [] = take n (filter p (rev xs))"
  by (simp add: scan_back_acc)

subsection \<open>The binary search of package sort\<close>

text \<open>
  \<^verbatim>\<open>sort.Search(n, f)\<close>: the loop keeps \<open>i \<le> j\<close>, with \<open>f\<close> false below \<open>i\<close> and true from \<open>j\<close>.
\<close>

function bsearch :: "(nat \<Rightarrow> bool) \<Rightarrow> nat \<Rightarrow> nat \<Rightarrow> nat" where
  "bsearch f i j =
     (if i < j
      then (let h = (i + j) div 2 in if \<not> f h then bsearch f (h + 1) j else bsearch f i h)
      else i)"
  by pat_completeness auto
termination
  by (relation "measure (\<lambda>(f, i, j). j - i)") auto

declare bsearch.simps [simp del]

definition sort_Search :: "nat \<Rightarrow> (nat \<Rightarrow> bool) \<Rightarrow> nat" where
  "sort_Search n f = bsearch f 0 n"

lemma bsearch_spec:
  assumes "i \<le> j" and mono: "\<And>a b. a \<le> b \<Longrightarrow> b < n \<Longrightarrow> f a \<Longrightarrow> f b" and "j \<le> n"
    and "\<And>k. k < i \<Longrightarrow> \<not> f k" and "\<And>k. j \<le> k \<Longrightarrow> k < n \<Longrightarrow> f k"
  shows "bsearch f i j \<le> j \<and> (\<forall>k<n. f k \<longleftrightarrow> bsearch f i j \<le> k)"
  using assms
proof (induction f i j rule: bsearch.induct)
  case (1 f i j)
  define h where "h = (i + j) div 2"
  show ?case
  proof (cases "i < j")
    case False
    with 1(3) have "i = j" by simp
    have "bsearch f i j = i" using False by (subst bsearch.simps) simp
    with 1(6,7) \<open>i = j\<close> show ?thesis by (metis le_refl not_le)
  next
    case True
    then have h: "i \<le> h" "h < j" by (auto simp: h_def)
    show ?thesis
    proof (cases "f h")
      case fh: True
      have "bsearch f i h \<le> h \<and> (\<forall>k<n. f k \<longleftrightarrow> bsearch f i h \<le> k)"
      proof (rule 1(2) [OF True h_def])
        fix k assume "h \<le> k" "k < n"
        then show "f k" using fh 1(4) [of h k] by blast
      qed (use fh h 1(4-6) in auto)
      moreover have "bsearch f i j = bsearch f i h"
        using True fh by (subst bsearch.simps) (simp add: h_def [symmetric])
      ultimately show ?thesis using h by simp
    next
      case fh: False
      have "bsearch f (h + 1) j \<le> j \<and> (\<forall>k<n. f k \<longleftrightarrow> bsearch f (h + 1) j \<le> k)"
      proof (rule 1(1) [OF True h_def])
        fix k assume "k < h + 1"
        then show "\<not> f k" using fh h 1(4) [of k h] 1(5) by fastforce
      qed (use fh h 1(4,5,7) in auto)
      moreover have "bsearch f i j = bsearch f (h + 1) j"
        using True fh by (subst bsearch.simps) (simp add: h_def [symmetric])
      ultimately show ?thesis by simp
    qed
  qed
qed

lemma sort_Search_spec:
  assumes "\<And>a b. a \<le> b \<Longrightarrow> b < n \<Longrightarrow> f a \<Longrightarrow> f b"
  shows "sort_Search n f \<le> n" and "k < n \<Longrightarrow> f k \<longleftrightarrow> sort_Search n f \<le> k"
  using bsearch_spec [of 0 n n f] assms by (auto simp: sort_Search_def)

end
