(* ===== verification/GoStrings.thy ===== *)
theory GoStrings
  imports Prelude
begin

text \<open>
  The parts of Go's standard library on strings that the program uses: UTF-8 decoding and
  encoding of package utf8, \<open>HasPrefix\<close>, \<open>Contains\<close>, \<open>ReplaceAll\<close>, \<open>FieldsFunc\<close>,
  \<open>ToLower\<close> and \<open>TrimSpace\<close> of package strings, decimal numbers of package strconv and the
  hexadecimal text of package encoding/hex. A string is its bytes; ranging over a string
  yields runes, here naturals, and an invalid byte is the rune U+FFFD of width 1.

  The Unicode tables of package unicode, for runes from 128 on, are the parameter
  \<open>unicode_tables\<close>; for ASCII the classification is written out.
\<close>

subsection \<open>UTF-8\<close>

abbreviation byte :: "char \<Rightarrow> nat" where "byte c \<equiv> of_char c"

abbreviation NUL :: char where "NUL \<equiv> CHR 0x00"

abbreviation chr :: "nat \<Rightarrow> char" where "chr n \<equiv> char_of n"

lemma byte_less_256: "byte c < 256"
proof -
  have "byte c = byte (chr (byte c))" by simp
  then have "byte c = byte c mod 256" by (simp only: of_char_of)
  then show ?thesis by (metis mod_less_divisor zero_less_numeral)
qed

definition rune_error :: nat where "rune_error = 65533"

definition in_range :: "nat \<Rightarrow> nat \<Rightarrow> char \<Rightarrow> bool" where
  "in_range lo hi c \<longleftrightarrow> lo \<le> byte c \<and> byte c \<le> hi"

text \<open>\<open>utf8.DecodeRune\<close>: the rune and its width; the bounds of the second byte exclude the
  overlong forms, the surrogates and the values above U+10FFFF.\<close>

fun decode_rune :: "string \<Rightarrow> nat \<times> nat" where
  "decode_rune [] = (rune_error, 0)"
| "decode_rune (a # s) =
     (let x = byte a in
      if x < 128 then (x, 1)
      else if 194 \<le> x \<and> x \<le> 223 then
        (case s of b # _ \<Rightarrow>
           if in_range 128 191 b then ((x - 192) * 64 + (byte b - 128), 2) else (rune_error, 1)
         | _ \<Rightarrow> (rune_error, 1))
      else if 224 \<le> x \<and> x \<le> 239 then
        (case s of b # c # _ \<Rightarrow>
           if in_range (if x = 224 then 160 else 128) (if x = 237 then 159 else 191) b
              \<and> in_range 128 191 c
           then ((x - 224) * 4096 + (byte b - 128) * 64 + (byte c - 128), 3)
           else (rune_error, 1)
         | _ \<Rightarrow> (rune_error, 1))
      else if 240 \<le> x \<and> x \<le> 244 then
        (case s of b # c # d # _ \<Rightarrow>
           if in_range (if x = 240 then 144 else 128) (if x = 244 then 143 else 191) b
              \<and> in_range 128 191 c \<and> in_range 128 191 d
           then ((x - 240) * 262144 + (byte b - 128) * 4096 + (byte c - 128) * 64 + (byte d - 128), 4)
           else (rune_error, 1)
         | _ \<Rightarrow> (rune_error, 1))
      else (rune_error, 1))"

text \<open>\<open>utf8.AppendRune\<close>: surrogates and values out of range are written as U+FFFD.\<close>

definition encode_rune :: "nat \<Rightarrow> string" where
  "encode_rune r =
     (if r < 128 then [chr r]
      else if r < 2048 then [chr (192 + r div 64), chr (128 + r mod 64)]
      else if (55296 \<le> r \<and> r \<le> 57343) \<or> 1114111 < r then [chr 239, chr 191, chr 189]
      else if r < 65536 then
        [chr (224 + r div 4096), chr (128 + r div 64 mod 64), chr (128 + r mod 64)]
      else [chr (240 + r div 262144), chr (128 + r div 4096 mod 64),
            chr (128 + r div 64 mod 64), chr (128 + r mod 64)])"

lemma decode_rune_width: "s \<noteq> [] \<Longrightarrow> 1 \<le> snd (decode_rune s) \<and> snd (decode_rune s) \<le> length s"
  by (cases s) (auto simp: Let_def split: list.split)

text \<open>\<open>for _, r := range s\<close>: the runes of a string, each with the bytes it was read from.\<close>

function runes :: "string \<Rightarrow> (nat \<times> string) list" where
  "runes s =
     (if s = [] then []
      else (let (r, w) = decode_rune s in (r, take w s) # runes (drop w s)))"
  by pat_completeness auto
termination
proof (relation "measure length")
  fix s :: string and x r w assume "s \<noteq> []" "x = decode_rune s" "(r, w) = x"
  then have "1 \<le> w" "w \<le> length s" using decode_rune_width [of s] by (metis snd_conv)+
  then show "(drop w s, s) \<in> measure length" by simp
qed simp

declare runes.simps [simp del]

lemma runes_Nil [simp]: "runes [] = []"
  by (simp add: runes.simps)

lemma runes_concat: "concat (map snd (runes s)) = s"
proof (induction s rule: runes.induct)
  case (1 s)
  show ?case
  proof (cases "s = []")
    case False
    obtain r w where "decode_rune s = (r, w)" by fastforce
    then show ?thesis using "1.IH" [OF False] False
      by (subst runes.simps) simp
  qed simp
qed

lemma runes_ascii:
  assumes "\<forall>c \<in> set s. byte c < 128"
  shows "runes s = map (\<lambda>c. (byte c, [c])) s"
  using assms
proof (induction s)
  case (Cons c s)
  then show ?case by (subst runes.simps) (simp add: Let_def)
qed simp

subsection \<open>Package strings\<close>

definition has_prefix :: "string \<Rightarrow> string \<Rightarrow> bool" where
  "has_prefix s p \<longleftrightarrow> take (length p) s = p"

lemma has_prefix_iff: "has_prefix s p \<longleftrightarrow> (\<exists>t. s = p @ t)"
  by (metis append_eq_conv_conj append_take_drop_id has_prefix_def)

lemma has_prefix_append [simp]: "has_prefix (p @ s) p"
  by (auto simp: has_prefix_iff)

fun contains :: "string \<Rightarrow> string \<Rightarrow> bool" where
  "contains [] sub = (sub = [])"
| "contains (c # s) sub = (has_prefix (c # s) sub \<or> contains s sub)"

lemma contains_iff: "contains s sub \<longleftrightarrow> (\<exists>a b. s = a @ sub @ b)"
proof (induction s)
  case (Cons c s)
  have "(\<exists>a b. c # s = a @ sub @ b) \<longleftrightarrow>
        (\<exists>b. c # s = sub @ b) \<or> (\<exists>a b. s = a @ sub @ b)"
    by (metis append_Cons append_Nil list.exhaust list.inject)
  with Cons show ?case by (simp add: has_prefix_iff)
qed simp

lemma contains_trans: "contains s t \<Longrightarrow> contains t u \<Longrightarrow> contains s u"
  unfolding contains_iff by (metis append.assoc)

text \<open>
  \<open>strings.ReplaceAll\<close> with a non-empty \<open>old\<close>: the leftmost non-overlapping occurrences.
  The code never calls it with an empty \<open>old\<close>, where Go would insert \<open>new\<close> around every
  rune; the model leaves the string alone there.
\<close>

function replace_all :: "string \<Rightarrow> string \<Rightarrow> string \<Rightarrow> string" where
  "replace_all s old new =
     (if s = [] \<or> old = [] then s
      else if has_prefix s old then new @ replace_all (drop (length old) s) old new
      else hd s # replace_all (tl s) old new)"
  by pat_completeness auto
termination
  by (relation "measure (\<lambda>(s, old, new). length s)") auto

declare replace_all.simps [simp del]

text \<open>\<open>strings.FieldsFunc\<close>: the maximal runs of runes that are not separators.\<close>

fun fields_acc :: "(nat \<Rightarrow> bool) \<Rightarrow> (nat \<times> string) list \<Rightarrow> string \<Rightarrow> string list" where
  "fields_acc sep [] cur = (if cur = [] then [] else [cur])"
| "fields_acc sep ((r, bs) # rs) cur =
     (if sep r then (if cur = [] then [] else [cur]) @ fields_acc sep rs []
      else fields_acc sep rs (cur @ bs))"

definition fields_func :: "(nat \<Rightarrow> bool) \<Rightarrow> string \<Rightarrow> string list" where
  "fields_func sep s = fields_acc sep (runes s) []"

lemma fields_acc_contains:
  "f \<in> set (fields_acc sep rs cur) \<Longrightarrow> f \<noteq> [] \<and> contains (cur @ concat (map snd rs)) f"
proof (induction sep rs cur rule: fields_acc.induct)
  case (1 sep cur)
  have "contains cur cur" unfolding contains_iff by (metis append_Nil append_Nil2)
  with 1 show ?case by (auto split: if_splits)
next
  case (2 sep r bs rs cur)
  have tail: "contains (cur @ bs @ t) f" if "contains t f" for t
    using that unfolding contains_iff by (metis append.assoc)
  have here: "contains (cur @ t) cur" for t
    unfolding contains_iff by (metis append_Nil)
  from 2 tail here show ?case
    by (auto split: if_splits)
qed

lemma fields_func_contains: "f \<in> set (fields_func sep s) \<Longrightarrow> f \<noteq> [] \<and> contains s f"
  unfolding fields_func_def using fields_acc_contains [of f sep "runes s" "[]"]
  by (simp add: runes_concat)

subsection \<open>Case and white space\<close>

record unicode_tables =
  uni_lower :: "nat \<Rightarrow> nat"
  uni_letter :: "nat \<Rightarrow> bool"
  uni_digit :: "nat \<Rightarrow> bool"

text \<open>Tables that know no letters and digits beyond ASCII, for the concrete examples.\<close>

definition ascii_tables :: unicode_tables where
  "ascii_tables = \<lparr>uni_lower = \<lambda>r. r, uni_letter = \<lambda>r. False, uni_digit = \<lambda>r. False\<rparr>"

definition rune_lower :: "unicode_tables \<Rightarrow> nat \<Rightarrow> nat" where
  "rune_lower u r = (if r < 128 then (if 65 \<le> r \<and> r \<le> 90 then r + 32 else r) else uni_lower u r)"

definition rune_is_letter :: "unicode_tables \<Rightarrow> nat \<Rightarrow> bool" where
  "rune_is_letter u r =
     (if r < 128 then (65 \<le> r \<and> r \<le> 90) \<or> (97 \<le> r \<and> r \<le> 122) else uni_letter u r)"

definition rune_is_digit :: "unicode_tables \<Rightarrow> nat \<Rightarrow> bool" where
  "rune_is_digit u r = (if r < 128 then 48 \<le> r \<and> r \<le> 57 else uni_digit u r)"

text \<open>\<open>strings.ToLower\<close>: rune by rune; an invalid byte comes out as the bytes of U+FFFD.\<close>

definition to_lower :: "unicode_tables \<Rightarrow> string \<Rightarrow> string" where
  "to_lower u s = concat (map (\<lambda>(r, _). encode_rune (rune_lower u r)) (runes s))"

text \<open>\<open>unicode.IsSpace\<close> holds of 25 runes; these are their encodings.\<close>

definition space_encodings :: "string list" where
  "space_encodings = map encode_rune
     ([9, 10, 11, 12, 13, 32, 133, 160, 5760] @ [8192..<8203] @ [8232, 8233, 8239, 8287, 12288])"

text \<open>
  \<open>strings.TrimSpace\<close>. Dropping a leading rune is dropping its encoding from the front; at
  the end Go reads the last rune backwards from its first byte, so there too a space is
  found exactly when its encoding is a suffix.
\<close>

function trim_left :: "string \<Rightarrow> string" where
  "trim_left s =
     (case find (has_prefix s) space_encodings of
        None \<Rightarrow> s
      | Some e \<Rightarrow> if e = [] then s else trim_left (drop (length e) s))"
  by pat_completeness auto
termination
proof (relation "measure length")
  fix s e assume "find (has_prefix s) space_encodings = Some e" "e \<noteq> []"
  then have "has_prefix s e" "e \<noteq> []" by (auto simp: find_Some_iff)
  then show "(drop (length e) s, s) \<in> measure length"
    by (auto simp: has_prefix_iff)
qed auto

function trim_right :: "string \<Rightarrow> string" where
  "trim_right s =
     (case find (\<lambda>e. has_prefix (rev s) (rev e)) space_encodings of
        None \<Rightarrow> s
      | Some e \<Rightarrow> if e = [] then s else trim_right (take (length s - length e) s))"
  by pat_completeness auto
termination
proof (relation "measure length")
  fix s e assume "find (\<lambda>e. has_prefix (rev s) (rev e)) space_encodings = Some e" "e \<noteq> []"
  then have "has_prefix (rev s) (rev e)" "e \<noteq> []" by (auto simp: find_Some_iff)
  then have "length e \<le> length s" "0 < length e"
    by (auto simp: has_prefix_iff dest!: arg_cong [where f = length])
  then have "length s - length e < length s" by linarith
  then show "(take (length s - length e) s, s) \<in> measure length" by simp
qed auto

declare trim_left.simps [simp del] trim_right.simps [simp del]

definition trim_space :: "string \<Rightarrow> string" where
  "trim_space s = trim_right (trim_left s)"

text \<open>The encodings as bytes; a string that begins and ends with other ASCII bytes is not trimmed.\<close>

lemma space_encodings_eval:
  "space_encodings = map (map chr)
     [[9], [10], [11], [12], [13], [32], [194, 133], [194, 160], [225, 154, 128],
      [226, 128, 128], [226, 128, 129], [226, 128, 130], [226, 128, 131], [226, 128, 132],
      [226, 128, 133], [226, 128, 134], [226, 128, 135], [226, 128, 136], [226, 128, 137],
      [226, 128, 138], [226, 128, 168], [226, 128, 169], [226, 128, 175], [226, 129, 159],
      [227, 128, 128]]"
  by (simp add: space_encodings_def upt_rec encode_rune_def)

lemma trim_space_inner:
  assumes "in_range 33 127 (hd s)" "in_range 33 127 (last s)" "s \<noteq> []"
  shows "trim_space s = s"
proof -
  have e: "list_all (\<lambda>e. e \<noteq> [] \<and> \<not> in_range 33 127 (hd e) \<and> \<not> in_range 33 127 (last e)) space_encodings"
    by (simp add: space_encodings_eval in_range_def)
  have "\<not> has_prefix s e" if "e \<in> set space_encodings" for e
    using e that assms by (cases e) (auto simp: list_all_iff has_prefix_iff)
  then have "find (has_prefix s) space_encodings = None" by (simp add: find_None_iff)
  then have "trim_left s = s" by (subst trim_left.simps) simp
  moreover
  have "\<not> has_prefix (rev s) (rev e)" if "e \<in> set space_encodings" for e
  proof
    assume "has_prefix (rev s) (rev e)"
    then obtain t where "rev s = rev e @ t" by (auto simp: has_prefix_iff)
    then have "s = rev t @ e" by (metis rev_append rev_rev_ident)
    moreover have "e \<noteq> []" "\<not> in_range 33 127 (last e)" using e that by (auto simp: list_all_iff)
    ultimately show False using assms(2) by simp
  qed
  then have "find (\<lambda>e. has_prefix (rev s) (rev e)) space_encodings = None" by (simp add: find_None_iff)
  then have "trim_right s = s" by (subst trim_right.simps) simp
  ultimately show ?thesis by (simp add: trim_space_def)
qed

subsection \<open>Package strconv: decimal numbers\<close>

definition digit_char :: "nat \<Rightarrow> char" where
  "digit_char d = chr (48 + d)"

definition is_digit :: "char \<Rightarrow> bool" where
  "is_digit c \<longleftrightarrow> in_range 48 57 c"

fun format_uint :: "nat \<Rightarrow> string" where
  "format_uint n = (if n < 10 then [digit_char n]
                    else format_uint (n div 10) @ [digit_char (n mod 10)])"

declare format_uint.simps [simp del]

definition format_int :: "int \<Rightarrow> string" where
  "format_int n = (if n < 0 then ''-'' @ format_uint (nat (- n)) else format_uint (nat n))"

fun digits_value :: "nat \<Rightarrow> string \<Rightarrow> nat option" where
  "digits_value n [] = Some n"
| "digits_value n (c # s) =
     (if is_digit c then digits_value (10 * n + (byte c - 48)) s else None)"

text \<open>\<open>strconv.ParseUint(s, 10, 64)\<close>: empty, non-digit and out of range are errors.\<close>

definition parse_uint64 :: "string \<Rightarrow> u64 option" where
  "parse_uint64 s =
     (if s = [] then None
      else case digits_value 0 s of
             None \<Rightarrow> None
           | Some n \<Rightarrow> if n < 2 ^ 64 then Some (of_nat n) else None)"

lemma digit_char_digit [simp]: "d < 10 \<Longrightarrow> is_digit (digit_char d)"
  by (simp add: is_digit_def in_range_def digit_char_def)

lemma byte_digit_char [simp]: "d < 10 \<Longrightarrow> byte (digit_char d) = 48 + d"
  by (simp add: digit_char_def)

lemma digits_value_append:
  "digits_value n (s @ t) = (case digits_value n s of None \<Rightarrow> None | Some m \<Rightarrow> digits_value m t)"
  by (induction n s rule: digits_value.induct) auto

lemma digits_value_format: "digits_value 0 (format_uint n) = Some n"
proof (induction n rule: format_uint.induct)
  case (1 n)
  show ?case
  proof (cases "n < 10")
    case True
    then show ?thesis by (subst format_uint.simps) simp
  next
    case False
    then show ?thesis using 1 by (subst format_uint.simps) (simp add: digits_value_append)
  qed
qed

lemma format_uint_nonempty: "format_uint n \<noteq> []"
  by (subst format_uint.simps) simp

lemma parse_format_uint: "parse_uint64 (format_uint (unat n)) = Some n"
  using unsigned_less [of n]
  by (simp add: parse_uint64_def digits_value_format format_uint_nonempty)

text \<open>\<open>strconv.Atoi\<close> on a 64-bit machine: an optional sign, then digits, within the range of \<open>int\<close>.\<close>

definition Atoi_digits :: "string \<Rightarrow> nat option" where
  "Atoi_digits s = (if s = [] then None else digits_value 0 s)"

fun split_sign :: "string \<Rightarrow> bool \<times> string" where
  "split_sign [] = (False, [])"
| "split_sign (c # s) =
     (if c = CHR ''-'' then (True, s) else if c = CHR ''+'' then (False, s) else (False, c # s))"

definition Atoi :: "string \<Rightarrow> int option" where
  "Atoi s =
     (case split_sign s of (neg, ds) \<Rightarrow>
        (case Atoi_digits ds of
           None \<Rightarrow> None
         | Some n \<Rightarrow>
             if neg then (if n \<le> 2 ^ 63 then Some (- int n) else None)
             else (if n < 2 ^ 63 then Some (int n) else None)))"

lemma format_uint_inj: "format_uint m = format_uint n \<longleftrightarrow> m = n"
  by (metis digits_value_format option.inject)

lemma format_uint_digits: "c \<in> set (format_uint n) \<Longrightarrow> is_digit c"
proof (induction n rule: format_uint.induct)
  case (1 n)
  then show ?case
    by (cases "n < 10") (auto simp: format_uint.simps [of n])
qed

lemma not_is_digit [simp]: "\<not> is_digit (CHR ''-'')" "\<not> is_digit (CHR ''+'')" "\<not> is_digit (CHR ''.'')"
  by (simp_all add: is_digit_def in_range_def)

lemma split_sign_digits: "s = [] \<or> is_digit (hd s) \<Longrightarrow> split_sign s = (False, s)"
  by (cases s) auto

lemma split_sign_format [simp]: "split_sign (format_uint n @ s) = (False, format_uint n @ s)"
proof (rule split_sign_digits)
  have "hd (format_uint n @ s) \<in> set (format_uint n)" using format_uint_nonempty [of n] by simp
  then show "format_uint n @ s = [] \<or> is_digit (hd (format_uint n @ s))"
    using format_uint_digits by blast
qed

lemma Atoi_format_int:
  assumes "- (2 ^ 63) \<le> n" "n < 2 ^ 63"
  shows "Atoi (format_int n) = Some n"
  using assms split_sign_format [of _ "[]"]
  by (auto simp: Atoi_def format_int_def Atoi_digits_def digits_value_format format_uint_nonempty)

subsection \<open>Package encoding/hex\<close>

definition hex_digit :: "nat \<Rightarrow> char" where
  "hex_digit d = chr (if d < 10 then 48 + d else 87 + d)"

definition hex_encode :: "u8 list \<Rightarrow> string" where
  "hex_encode bs = concat (map (\<lambda>b. [hex_digit (unat b div 16), hex_digit (unat b mod 16)]) bs)"

lemma hex_digit_inj: "d < 16 \<Longrightarrow> e < 16 \<Longrightarrow> hex_digit d = hex_digit e \<Longrightarrow> d = e"
  by (auto simp: hex_digit_def split: if_splits dest!: arg_cong [where f = "of_char :: _ \<Rightarrow> nat"])

lemma hex_encode_inj: "hex_encode a = hex_encode b \<Longrightarrow> a = b"
proof (induction a arbitrary: b)
  case Nil
  then show ?case by (cases b) (auto simp: hex_encode_def)
next
  case (Cons x a)
  then obtain y c where b: "b = y # c" by (cases b) (auto simp: hex_encode_def)
  have lt: "unat x < 256" "unat y < 256"
    using unsigned_less [of x] unsigned_less [of y] by simp_all
  from Cons.prems b have "hex_encode a = hex_encode c"
    and "hex_digit (unat x div 16) = hex_digit (unat y div 16)"
    and "hex_digit (unat x mod 16) = hex_digit (unat y mod 16)"
    by (auto simp: hex_encode_def)
  with lt Cons.IH have "a = c" "unat x div 16 = unat y div 16" "unat x mod 16 = unat y mod 16"
    by (auto intro!: hex_digit_inj)
  then show ?case using b by (metis div_mult_mod_eq word_unat_eq_iff)
qed

end
