(* ===== verification/LogModel.thy ===== *)
theory LogModel
  imports Sha256
begin

text \<open>
  Package \<open>internal/model\<close>: the log entry that travels through the pipeline, its validation,
  the stored entry with the ID the store gave it, the content hash the embedding worker
  deduplicates on and the reference a citation carries. The errors of the program are one
  datatype; a Go \<open>nil\<close> error is \<open>None\<close>.
\<close>

datatype err =
    ErrMissingField string
  | ErrFull
  | ErrForbidden
  | ErrOther string

fun err_text :: "err \<Rightarrow> string" where
  "err_text (ErrMissingField f) = ''missing required field: '' @ f"
| "err_text ErrFull = ''ingest buffer full: shedding load''"
| "err_text ErrForbidden = ''forbidden: role lacks capability''"
| "err_text (ErrOther m) = m"

text \<open>The values of \<open>map[string]any\<close> that decoding JSON produces.\<close>

datatype attr =
    AStr string
  | ANum f64
  | ABool bool
  | ANull
  | AArr "attr list"
  | AObj "(string \<times> attr) list"

text \<open>\<open>Attrs\<close> is a Go map, here its key-value pairs in the order an iteration meets them.\<close>

record log_entry =
  TenantID :: string
  Timestamp :: instant
  Service :: string
  Level :: string
  TraceID :: string
  Message :: string
  Attrs :: "(string \<times> attr) list"
  Redacted :: bool

text \<open>The struct \<open>StoredEntry\<close> embeds a \<open>LogEntry\<close>.\<close>

record stored_entry =
  ID :: u64
  LogEntry :: log_entry

definition zero_entry :: log_entry where
  "zero_entry = \<lparr>TenantID = [], Timestamp = 0, Service = [], Level = [], TraceID = [],
                 Message = [], Attrs = [], Redacted = False\<rparr>"

definition Validate :: "log_entry \<Rightarrow> err option" where
  "Validate e =
     (if Service e = [] then Some (ErrMissingField ''service'')
      else if Message e = [] then Some (ErrMissingField ''message'')
      else None)"

lemma Validate_None: "Validate e = None \<longleftrightarrow> Service e \<noteq> [] \<and> Message e \<noteq> []"
  by (simp add: Validate_def)

subsection \<open>Content hash and reference\<close>

text \<open>The bytes \<open>ContentHash\<close> feeds to the hash, and the first eight bytes of the sum in hex.\<close>

definition content_bytes :: "log_entry \<Rightarrow> string" where
  "content_bytes e = TenantID e @ [NUL] @ Service e @ [NUL] @ Message e"

definition ContentHash :: "log_entry \<Rightarrow> string" where
  "ContentHash e = hex_encode (take 8 (Sum256 (content_bytes e)))"

definition Ref :: "stored_entry \<Rightarrow> string" where
  "Ref s = ''log:'' @ format_uint (unat (ID s))"

lemma Ref_inj: "Ref s = Ref t \<longleftrightarrow> ID s = ID t"
  by (auto simp: Ref_def format_uint_inj word_unat_eq_iff)

lemma separated_append_eq:
  assumes "z \<notin> set a" "z \<notin> set b"
  shows "a @ z # x = b @ z # y \<longleftrightarrow> a = b \<and> x = y"
  using assms
proof (induction a arbitrary: b)
  case Nil
  then show ?case by (cases b) auto
next
  case (Cons c a)
  then show ?case by (cases b) auto
qed

text \<open>
  The content of two entries whose tenant and service names hold no NUL byte is written to
  the hash unambiguously: the hashed bytes are equal exactly when tenant, service and message
  are, so entries with different content share a content hash only if the (truncated) SHA-256
  collides on these very bytes.
\<close>

theorem content_bytes_eq_iff:
  assumes "NUL \<notin> set (TenantID e) \<union> set (Service e) \<union> set (TenantID f) \<union> set (Service f)"
  shows "content_bytes e = content_bytes f \<longleftrightarrow>
         TenantID e = TenantID f \<and> Service e = Service f \<and> Message e = Message f"
  using assms by (auto simp: content_bytes_def separated_append_eq)

theorem content_bytes_eq_iff_witness:
  "content_bytes (zero_entry\<lparr>TenantID := ''acme'', Service := ''a'', Message := ''bm''\<rparr>)
   \<noteq> content_bytes (zero_entry\<lparr>TenantID := ''acme'', Service := ''ab'', Message := ''m''\<rparr>)"
  using content_bytes_eq_iff
    [of "zero_entry\<lparr>TenantID := ''acme'', Service := ''a'', Message := ''bm''\<rparr>"
        "zero_entry\<lparr>TenantID := ''acme'', Service := ''ab'', Message := ''m''\<rparr>"]
  by simp

text \<open>
  Without that restriction the encoding is ambiguous: moving a NUL byte between service
  and message gives a different log entry of the same tenant with the same content hash, for
  every service and message (JSON strings may hold NUL bytes), so the worker takes the second
  one for a duplicate.
\<close>

theorem ContentHash_NUL_ambiguous:
  "ContentHash (e\<lparr>Service := s @ [NUL] @ t, Message := m\<rparr>)
   = ContentHash (e\<lparr>Service := s, Message := t @ [NUL] @ m\<rparr>)"
  by (simp add: ContentHash_def content_bytes_def)

end
