(* ===== verification/Redaction.thy ===== *)
theory Redaction
  imports LogModel
begin

text \<open>
  Package \<open>internal/redaction\<close>: the pattern layer, with a backtracking matcher for the part of
  package regexp the seven patterns use, the entropy layer, the Luhn check and \<open>Redact\<close>.
\<close>

subsection \<open>Regular expressions\<close>

text \<open>
  A pattern is matched on bytes: \<open>Byte\<close> takes one byte of a class, \<open>WordB\<close> is the ASCII word
  boundary \<open>\b\<close>, \<open>Rep lo hi r\<close> the greedy repetition (no \<open>hi\<close> is unbounded). Repeated
  bodies of the seven patterns never match the empty string.
\<close>

datatype re =
    Byte "char \<Rightarrow> bool"
  | WordB
  | Eps
  | Cat re re
  | Alt re re
  | Rep nat "nat option" re

definition is_word :: "char \<Rightarrow> bool" where
  "is_word c \<longleftrightarrow> in_range 48 57 c \<or> in_range 65 90 c \<or> in_range 97 122 c \<or> byte c = 95"

definition word_at :: "string \<Rightarrow> nat \<Rightarrow> bool" where
  "word_at s i \<longleftrightarrow> i < length s \<and> is_word (s ! i)"

text \<open>
  \<open>iter_ends step lo n i\<close>: the ends of at most \<open>n\<close> and at least \<open>lo\<close> iterations, longest
  choices first. \<open>ends r s i\<close>: the ends of all matches of \<open>r\<close> that start at \<open>i\<close>, in the order a
  leftmost-first (Perl) matcher prefers them; \<open>length s - i\<close> iterations are enough for an
  unbounded repetition of a body that consumes.
\<close>

fun iter_ends :: "(nat \<Rightarrow> nat list) \<Rightarrow> nat \<Rightarrow> nat \<Rightarrow> nat \<Rightarrow> nat list" where
  "iter_ends step lo 0 i = (if lo = 0 then [i] else [])"
| "iter_ends step lo (Suc n) i =
     concat (map (iter_ends step (lo - 1) n) (step i)) @ (if lo = 0 then [i] else [])"

fun ends :: "re \<Rightarrow> string \<Rightarrow> nat \<Rightarrow> nat list" where
  "ends (Byte p) s i = (if i < length s \<and> p (s ! i) then [Suc i] else [])"
| "ends WordB s i = (if (0 < i \<and> word_at s (i - 1)) \<noteq> word_at s i then [i] else [])"
| "ends Eps s i = [i]"
| "ends (Cat a b) s i = concat (map (ends b s) (ends a s i))"
| "ends (Alt a b) s i = ends a s i @ ends b s i"
| "ends (Rep lo hi r) s i =
     iter_ends (ends r s) lo (case hi of None \<Rightarrow> length s - i | Some h \<Rightarrow> h) i"

lemma iter_ends_bounds:
  assumes step: "\<And>i j. i \<le> n \<Longrightarrow> j \<in> set (step i) \<Longrightarrow> i \<le> j \<and> j \<le> n"
  shows "i \<le> n \<Longrightarrow> j \<in> set (iter_ends step lo k i) \<Longrightarrow> i \<le> j \<and> j \<le> n"
proof (induction k arbitrary: lo i)
  case 0
  then show ?case by (simp split: if_splits)
next
  case (Suc k)
  from Suc.prems(2) consider "j = i"
    | m where "m \<in> set (step i)" "j \<in> set (iter_ends step (lo - 1) k m)"
    by (auto split: if_splits)
  then show ?case
  proof cases
    case 2
    with step [OF Suc.prems(1)] Suc.IH [of m "lo - 1"] show ?thesis by fastforce
  qed (use Suc.prems(1) in simp)
qed

lemma ends_bounds: "i \<le> length s \<Longrightarrow> j \<in> set (ends r s i) \<Longrightarrow> i \<le> j \<and> j \<le> length s"
proof (induction r arbitrary: i j)
  case (Cat a b)
  from Cat.prems(2) obtain m where "m \<in> set (ends a s i)" "j \<in> set (ends b s m)" by auto
  with Cat.IH(1) [OF Cat.prems(1)] Cat.IH(2) [of m j] show ?case by fastforce
next
  case (Rep lo hi r)
  show ?case
    by (rule iter_ends_bounds [OF Rep.IH Rep.prems(1)]) (use Rep.prems(2) in simp_all)
next
  case (Alt a b)
  from Alt.prems(2) have "j \<in> set (ends a s i) \<or> j \<in> set (ends b s i)" by simp
  with Alt.IH(1) [OF Alt.prems(1)] Alt.IH(2) [OF Alt.prems(1)] show ?case by blast
qed (simp_all split: if_splits)

text \<open>The leftmost match from position \<open>i\<close> on, with the end its preference order puts first.\<close>

function find_match :: "re \<Rightarrow> string \<Rightarrow> nat \<Rightarrow> (nat \<times> nat) option" where
  "find_match r s i =
     (if length s < i then None
      else (case ends r s i of
              j # _ \<Rightarrow> Some (i, j)
            | [] \<Rightarrow> find_match r s (Suc i)))"
  by pat_completeness auto
termination
  by (relation "measure (\<lambda>(r, s, i). Suc (length s) - i)") auto

declare find_match.simps [simp del]

lemma find_match_bounds:
  "find_match r s i = Some (a, b) \<Longrightarrow> i \<le> a \<and> a \<le> b \<and> b \<le> length s"
proof (induction r s i rule: find_match.induct)
  case (1 r s i)
  have unfold: "find_match r s i = (if length s < i then None
      else (case ends r s i of j # _ \<Rightarrow> Some (i, j) | [] \<Rightarrow> find_match r s (Suc i)))"
    by (rule find_match.simps)
  show ?case
  proof (cases "ends r s i")
    case Nil
    with 1 unfold show ?thesis by (auto split: if_splits)
  next
    case (Cons j js)
    then have "j \<in> set (ends r s i)" by simp
    with 1(2) unfold Cons ends_bounds [of i s j r] show ?thesis by (auto split: if_splits)
  qed
qed

text \<open>
  \<open>ReplaceAllStringFunc\<close> for a pattern that matches no empty string: \<open>repl\<close> is the closure,
  with the counter it captures as argument and result.
\<close>

function replace_from ::
  "re \<Rightarrow> (string \<Rightarrow> nat \<Rightarrow> string \<times> nat) \<Rightarrow> string \<Rightarrow> nat \<Rightarrow> nat \<Rightarrow> string \<times> nat" where
  "replace_from r repl s pos n =
     (case find_match r s pos of
        None \<Rightarrow> (drop pos s, n)
      | Some (a, b) \<Rightarrow>
          if a = b then (drop pos s, n)
          else (let (x, n1) = repl (drop a (take b s)) n;
                    (rest, n2) = replace_from r repl s b n1
                in (drop pos (take a s) @ x @ rest, n2)))"
  by pat_completeness auto
termination
  by (relation "measure (\<lambda>(r, repl, s, pos, n). length s - pos)")
    (auto dest: find_match_bounds)

declare replace_from.simps [simp del]

definition ReplaceAllStringFunc ::
  "re \<Rightarrow> (string \<Rightarrow> nat \<Rightarrow> string \<times> nat) \<Rightarrow> string \<Rightarrow> nat \<Rightarrow> string \<times> nat" where
  "ReplaceAllStringFunc r repl s n = replace_from r repl s 0 n"

subsection \<open>The seven patterns\<close>

definition one_of :: "string \<Rightarrow> char \<Rightarrow> bool" where
  "one_of cs c \<longleftrightarrow> c \<in> set cs"

definition is_lower :: "char \<Rightarrow> bool" where "is_lower c \<longleftrightarrow> in_range 97 122 c"

definition is_upper :: "char \<Rightarrow> bool" where "is_upper c \<longleftrightarrow> in_range 65 90 c"

definition is_alnum :: "char \<Rightarrow> bool" where
  "is_alnum c \<longleftrightarrow> is_lower c \<or> is_upper c \<or> is_digit c"

definition is_space :: "char \<Rightarrow> bool" where
  "is_space c \<longleftrightarrow> byte c \<in> {9, 10, 12, 13, 32}"

definition cats :: "re list \<Rightarrow> re" where
  "cats rs = foldr Cat rs Eps"

definition lit :: "string \<Rightarrow> re" where
  "lit cs = cats (map (\<lambda>c. Byte ((=) c)) cs)"

text \<open>
  Under \<open>(?i)\<close> the letters \<open>s\<close> and \<open>k\<close> also match the runes U+017F and U+212A, whose
  encodings are C5 BF and E2 84 AA.
\<close>

definition long_s :: re where "long_s = lit [chr 197, chr 191]"

definition kelvin :: re where "kelvin = lit [chr 226, chr 132, chr 170]"

definition ci_letters :: "(char \<Rightarrow> bool) \<Rightarrow> re" where
  "ci_letters p = Alt (Byte (\<lambda>c. is_lower c \<or> is_upper c \<or> p c)) (Alt long_s kelvin)"

definition ci_char :: "char \<Rightarrow> re" where
  "ci_char c =
     (let both = Byte (\<lambda>d. d = c \<or> is_lower c \<and> byte d + 32 = byte c) in
      if c = CHR ''s'' then Alt both long_s
      else if c = CHR ''k'' then Alt both kelvin
      else both)"

definition ci_lit :: "string \<Rightarrow> re" where
  "ci_lit cs = cats (map ci_char cs)"

definition opt :: "re \<Rightarrow> re" where "opt r = Rep 0 (Some 1) r"

definition star :: "re \<Rightarrow> re" where "star r = Rep 0 None r"

definition plus1 :: "re \<Rightarrow> re" where "plus1 r = Rep 1 None r"

definition email_re :: re where
  "email_re = cats
     [WordB, plus1 (ci_letters (\<lambda>c. is_digit c \<or> one_of ''._%+-'' c)), lit ''@'',
      plus1 (ci_letters (\<lambda>c. is_digit c \<or> one_of ''.-'' c)), lit ''.'',
      Rep 2 None (ci_letters (\<lambda>c. False)), WordB]"

definition aws_access_key_re :: re where
  "aws_access_key_re = cats
     [WordB, Alt (lit ''AKIA'') (Alt (lit ''ASIA'') (Alt (lit ''AGPA'') (lit ''AIDA''))),
      Rep 16 (Some 16) (Byte (\<lambda>c. is_upper c \<or> is_digit c)), WordB]"

definition jwt_re :: re where
  "jwt_re =
     (let part = plus1 (Byte (\<lambda>c. is_alnum c \<or> one_of ''_-'' c)) in
      cats [WordB, lit ''eyJ'', part, lit ''.'', part, lit ''.'', part, WordB])"

definition bearer_re :: re where
  "bearer_re = cats
     [WordB, ci_lit ''bearer'', plus1 (Byte is_space),
      Rep 12 None (ci_letters (\<lambda>c. is_digit c \<or> one_of ''._-'' c)), WordB]"

definition credit_card_re :: re where
  "credit_card_re = cats
     [WordB, Rep 13 (Some 19) (Cat (Byte is_digit) (opt (Byte (one_of '' -'')))), WordB]"

definition private_key_re :: re where
  "private_key_re = cats
     [lit ''-----BEGIN'', star (Byte (\<lambda>c. c = CHR '' '' \<or> is_upper c)), lit ''PRIVATE KEY-----'']"

definition assigned_secret_re :: re where
  "assigned_secret_re = cats
     [WordB,
      Alt (Cat (ci_lit ''pass'') (opt (ci_lit ''word'')))
        (Alt (ci_lit ''secret'')
          (Alt (ci_lit ''token'')
            (Alt (cats [ci_lit ''api'', opt (Byte (one_of ''_-'')), ci_lit ''key''])
              (ci_lit ''authorization'')))),
      WordB, star (Byte is_space), Byte (one_of '':=''), star (Byte is_space),
      plus1 (Byte (\<lambda>c. \<not> is_space c))]"

text \<open>\<open>Redactor\<close> and \<open>New\<close>.\<close>

record redactor =
  patterns :: "(string \<times> re) list"
  entropyThreshold :: f64
  minTokenLen :: nat
  allowKeys :: "string list"

definition placeholder :: string where "placeholder = ''[REDACTED]''"

definition NewRedactor :: redactor where
  "NewRedactor = \<lparr>
     patterns = [(''email'', email_re), (''aws_access_key'', aws_access_key_re),
                 (''jwt'', jwt_re), (''bearer'', bearer_re), (''credit_card'', credit_card_re),
                 (''private_key'', private_key_re), (''assigned_secret'', assigned_secret_re)],
     entropyThreshold = 7 / 2,
     minTokenLen = 20,
     allowKeys = [''trace_id'', ''span_id'', ''request_id'', ''correlation_id'', ''service'',
                  ''level'']\<rparr>"

subsection \<open>Card numbers\<close>

text \<open>The loop of \<open>luhnValid\<close>, over the digits from the last to the first.\<close>

fun luhn_loop :: "int list \<Rightarrow> bool \<Rightarrow> int \<Rightarrow> int" where
  "luhn_loop [] dbl acc = acc"
| "luhn_loop (d # ds) dbl acc =
     (let n = (if dbl then (let m = d * 2 in if m > 9 then m - 9 else m) else d)
      in luhn_loop ds (\<not> dbl) (acc + n))"

definition luhnValid :: "int list \<Rightarrow> bool" where
  "luhnValid d \<longleftrightarrow> luhn_loop (rev d) False 0 mod 10 = 0"

definition card_digits :: "string \<Rightarrow> int list" where
  "card_digits m = map (\<lambda>c. int (byte c) - 48) (filter is_digit m)"

definition looksLikeCard :: "string \<Rightarrow> bool" where
  "looksLikeCard m =
     (let digits = card_digits m in
      if length digits < 13 \<or> length digits > 19 then False else luhnValid digits)"

subsection \<open>The entropy layer\<close>

definition token_sep :: "nat \<Rightarrow> bool" where
  "token_sep r \<longleftrightarrow> r \<in> {32, 9, 61, 58, 44, 34, 39, 40, 41, 10}"

definition token_char :: "char \<Rightarrow> bool" where
  "token_char c \<longleftrightarrow> is_lower c \<or> is_upper c \<or> is_digit c \<or> one_of ''+/=-_'' c"

text \<open>The runes below 128 are single bytes and the bytes from 128 on never begin or form one of
  them, so the loop over runes and this test of bytes agree.\<close>

definition looksLikeToken :: "string \<Rightarrow> bool" where
  "looksLikeToken s \<longleftrightarrow> list_all token_char s"

definition freq :: "string \<Rightarrow> nat \<Rightarrow> nat" where
  "freq s b = length (filter (\<lambda>c. byte c = b) s)"

definition shannonEntropy :: "string \<Rightarrow> f64" where
  "shannonEntropy s =
     (if s = [] then 0
      else foldl (\<lambda>h b. if freq s b = 0 then h
                         else (let p = real (freq s b) / real (length s) in h - p * log 2 p))
             0 [0..<256])"

text \<open>The loop over the fields; \<open>count\<close> is passed in and out.\<close>

fun redact_fields ::
  "nat \<Rightarrow> f64 \<Rightarrow> string list \<Rightarrow> string \<times> nat \<Rightarrow> string \<times> nat" where
  "redact_fields minLen threshold [] (s, n) = (s, n)"
| "redact_fields minLen threshold (f # fs) (s, n) =
     (if length f < minLen then redact_fields minLen threshold fs (s, n)
      else if \<not> looksLikeToken f then redact_fields minLen threshold fs (s, n)
      else if shannonEntropy f \<ge> threshold
      then redact_fields minLen threshold fs (replace_all s f placeholder, n + 1)
      else redact_fields minLen threshold fs (s, n))"

definition redactHighEntropyTokens ::
  "string \<Rightarrow> nat \<Rightarrow> f64 \<Rightarrow> nat \<Rightarrow> string \<times> nat" where
  "redactHighEntropyTokens s minLen threshold n =
     (let fields = fields_func token_sep s in
      if fields = [] then (s, n) else redact_fields minLen threshold fields (s, n))"

subsection \<open>Redacting a string and an entry\<close>

definition pattern_repl :: "string \<Rightarrow> string \<Rightarrow> nat \<Rightarrow> string \<times> nat" where
  "pattern_repl name match n =
     (if name = ''credit_card'' \<and> \<not> looksLikeCard match then (match, n)
      else (placeholder, n + 1))"

fun apply_patterns :: "(string \<times> re) list \<Rightarrow> string \<times> nat \<Rightarrow> string \<times> nat" where
  "apply_patterns [] (s, n) = (s, n)"
| "apply_patterns ((name, r) # ps) (s, n) =
     apply_patterns ps (ReplaceAllStringFunc r (pattern_repl name) s n)"

definition redactStringWithEntropy :: "redactor \<Rightarrow> string \<Rightarrow> bool \<Rightarrow> string \<times> nat" where
  "redactStringWithEntropy r s useEntropy =
     (let (s1, n1) = apply_patterns (patterns r) (s, 0) in
      if useEntropy then redactHighEntropyTokens s1 (minTokenLen r) (entropyThreshold r) n1
      else (s1, n1))"

definition redactString :: "redactor \<Rightarrow> string \<Rightarrow> string \<times> nat" where
  "redactString r s = redactStringWithEntropy r s True"

text \<open>The loop over the attributes: only strings are redacted, and only rewritten when the
  count says that something was replaced.\<close>

fun redact_attrs ::
  "redactor \<Rightarrow> (string \<times> attr) list \<Rightarrow> (string \<times> attr) list \<times> nat" where
  "redact_attrs r [] = ([], 0)"
| "redact_attrs r ((k, v) # as) =
     (let (as', m) = redact_attrs r as in
      case v of
        AStr s \<Rightarrow>
          (let (red, cnt) = redactStringWithEntropy r s (k \<notin> set (allowKeys r)) in
           if cnt > 0 then ((k, AStr red) # as', cnt + m) else ((k, v) # as', m))
      | _ \<Rightarrow> ((k, v) # as', m))"

definition Redact :: "redactor \<Rightarrow> log_entry \<Rightarrow> log_entry \<times> nat" where
  "Redact r e =
     (let (msg, n) = redactString r (Message e);
          (as, m) = redact_attrs r (Attrs e)
      in (e\<lparr>Message := msg, Attrs := as, Redacted := True\<rparr>, n + m))"

end
