(* ===== verification/RedactionProps.thy ===== *)
theory RedactionProps
  imports Redaction
begin

text \<open>
  What the redactor guarantees: replacements are exactly what the count counts, no qualifying
  token survives the entropy layer, \<open>Redact\<close> changes nothing but the message, the string
  attributes and the flag, the Luhn check catches every single wrong digit; and where the two
  layers leave something in clear.
\<close>

subsection \<open>Counts and replacements\<close>

lemma replace_from_count:
  assumes repl: "\<And>m k. k \<le> snd (repl m k) \<and> (snd (repl m k) = k \<longrightarrow> fst (repl m k) = m)"
  shows "n \<le> snd (replace_from r repl s pos n) \<and>
         (snd (replace_from r repl s pos n) = n \<longrightarrow> fst (replace_from r repl s pos n) = drop pos s)"
  using assms
proof (induction r repl s pos n rule: replace_from.induct [case_names step])
  case (step r repl s pos n)
  show ?case
  proof (cases "find_match r s pos")
    case None
    then show ?thesis by (subst (1 2 3) replace_from.simps) simp
  next
    case (Some ab)
    obtain a b where ab: "find_match r s pos = Some (a, b)" using Some by (cases ab) auto
    note bounds = find_match_bounds [OF ab]
    obtain x n1 where x: "repl (drop a (take b s)) n = (x, n1)" by fastforce
    obtain rest n2 where rest: "replace_from r repl s b n1 = (rest, n2)" by fastforce
    show ?thesis
    proof (cases "a = b")
      case True
      then show ?thesis by (subst (1 2 3) replace_from.simps) (simp add: ab)
    next
      case False
      then have eq: "replace_from r repl s pos n = (drop pos (take a s) @ x @ rest, n2)"
        by (subst replace_from.simps) (simp add: ab x rest)
      have "n1 \<le> n2 \<and> (n2 = n1 \<longrightarrow> rest = drop b s)"
        using step.IH [OF ab _ False x [symmetric]] rest step.prems by simp
      moreover have "n \<le> n1 \<and> (n1 = n \<longrightarrow> x = drop a (take b s))"
        using step.prems [of n "drop a (take b s)"] x by simp
      moreover have "drop pos (take a s) @ drop a (take b s) @ drop b s = drop pos s"
        using bounds by (simp add: slice_append)
      ultimately show ?thesis using eq by auto
    qed
  qed
qed

lemma pattern_repl_count:
  "k \<le> snd (pattern_repl name m k) \<and>
   (snd (pattern_repl name m k) = k \<longrightarrow> fst (pattern_repl name m k) = m)"
  by (simp add: pattern_repl_def)

lemma apply_patterns_count:
  "n \<le> snd (apply_patterns ps (s, n)) \<and>
   (snd (apply_patterns ps (s, n)) = n \<longrightarrow> fst (apply_patterns ps (s, n)) = s)"
proof (induction ps arbitrary: s n)
  case (Cons p ps)
  obtain name r where p: "p = (name, r)" by fastforce
  obtain s1 n1 where s1: "ReplaceAllStringFunc r (pattern_repl name) s n = (s1, n1)" by fastforce
  have "n \<le> n1 \<and> (n1 = n \<longrightarrow> s1 = s)"
    using replace_from_count [where repl = "pattern_repl name", OF pattern_repl_count, of n r s 0] s1
    by (simp add: ReplaceAllStringFunc_def)
  with Cons.IH [of n1 s1] show ?case by (auto simp: p s1)
qed simp

lemma redact_fields_count:
  "n \<le> snd (redact_fields l t fs (s, n)) \<and>
   (snd (redact_fields l t fs (s, n)) = n \<longrightarrow> fst (redact_fields l t fs (s, n)) = s)"
proof (induction fs arbitrary: s n)
  case (Cons f fs)
  show ?case
    using Cons.IH [of n s] Cons.IH [of "n + 1" "replace_all s f placeholder"] by auto
qed simp

lemma redactHighEntropyTokens_count:
  "n \<le> snd (redactHighEntropyTokens s l t n) \<and>
   (snd (redactHighEntropyTokens s l t n) = n \<longrightarrow> fst (redactHighEntropyTokens s l t n) = s)"
  using redact_fields_count [of n l t "fields_func token_sep s" s]
  by (simp add: redactHighEntropyTokens_def Let_def)

lemma redactString_zero: "snd (redactStringWithEntropy r s ue) = 0 \<Longrightarrow> fst (redactStringWithEntropy r s ue) = s"
proof -
  obtain s1 n1 where s1: "apply_patterns (patterns r) (s, 0) = (s1, n1)" by fastforce
  assume *: "snd (redactStringWithEntropy r s ue) = 0"
  have "n1 \<le> snd (redactStringWithEntropy r s ue)"
    using redactHighEntropyTokens_count [of n1 s1 "minTokenLen r" "entropyThreshold r"]
    by (simp add: redactStringWithEntropy_def s1)
  with * have n1: "n1 = 0" by simp
  with apply_patterns_count [of 0 "patterns r" s] s1 have "s1 = s" by simp
  show ?thesis
  proof (cases ue)
    case True
    with * n1 s1 redactHighEntropyTokens_count [of 0 s1 "minTokenLen r" "entropyThreshold r"]
    show ?thesis by (simp add: redactStringWithEntropy_def \<open>s1 = s\<close>)
  qed (simp add: redactStringWithEntropy_def s1 \<open>s1 = s\<close>)
qed


text \<open>
  The count that \<open>redactStringWithEntropy\<close> returns is faithful: if it is zero, the string
  comes back unchanged, whatever the rules of the redactor are. So the guard \<open>cnt > 0\<close> of the
  attribute loop never drops a replacement that was made.
\<close>

theorem redactString_zero_unchanged:
  "snd (redactStringWithEntropy r s ue) = 0 \<Longrightarrow> fst (redactStringWithEntropy r s ue) = s"
  by (rule redactString_zero)

theorem redactString_zero_unchanged_witness:
  "snd (redactStringWithEntropy NewRedactor ''ok'' True) = 0 \<and>
   fst (redactStringWithEntropy NewRedactor ''ok'' True) = ''ok''"
proof -
  have "apply_patterns (patterns NewRedactor) (''ok'', 0) = (''ok'', 0)" by code_simp
  moreover have "fields_func token_sep ''ok'' = [''ok'']" by code_simp
  ultimately have "snd (redactStringWithEntropy NewRedactor ''ok'' True) = 0"
    by (simp add: redactStringWithEntropy_def redactHighEntropyTokens_def NewRedactor_def)
  with redactString_zero_unchanged show ?thesis by blast
qed

subsection \<open>No qualifying token survives\<close>

lemma contains_Nil_right [simp]: "contains s [] = True"
  by (auto simp: contains_iff)

lemma contains_append_left: "contains s f \<Longrightarrow> contains (g @ s) f"
  unfolding contains_iff by (metis append.assoc)

lemma contains_append_right: "contains g f \<Longrightarrow> contains (g @ s) f"
  unfolding contains_iff by (metis append.assoc)

lemma contains_Cons: "contains s f \<Longrightarrow> contains (c # s) f"
  by simp

text \<open>A word without the byte \<open>z\<close> cannot lie across it.\<close>

lemma contains_split:
  assumes "z \<notin> set f"
  shows "contains (g @ z # s) f \<longleftrightarrow> contains g f \<or> contains s f"
proof
  assume "contains (g @ z # s) f"
  then obtain a b where "g @ z # s = a @ f @ b" by (auto simp: contains_iff)
  then consider u where "g = a @ u" "u @ z # s = f @ b" | u where "g @ u = a" "z # s = u @ f @ b"
    by (auto simp: append_eq_append_conv2)
  then show "contains g f \<or> contains s f"
  proof cases
    case 1
    then obtain v where "u = f @ v \<or> (u @ v = f \<and> z # s = v @ b)"
      by (auto simp: append_eq_append_conv2)
    with 1 assms have "u = f @ v \<or> v = []" by (cases v) auto
    with 1 \<open>u = f @ v \<or> (u @ v = f \<and> z # s = v @ b)\<close> have "\<exists>w. u = f @ w"
      by (metis append_Nil2)
    with 1 show ?thesis unfolding contains_iff by blast
  next
    case 2
    then show ?thesis
    proof (cases u)
      case Nil
      with 2 assms have "f = []" by (cases f) auto
      then show ?thesis by simp
    next
      case (Cons c w)
      with 2 have "s = w @ f @ b" by simp
      then show ?thesis unfolding contains_iff by blast
    qed
  qed
qed (auto intro: contains_append_left contains_append_right contains_Cons)

lemma contains_length: "contains s f \<Longrightarrow> length f \<le> length s"
  by (auto simp: contains_iff)

text \<open>The placeholder brings no token: its brackets are not token characters and its inside is
  too short.\<close>

definition bracket_free :: "string \<Rightarrow> bool" where
  "bracket_free f \<longleftrightarrow> CHR ''['' \<notin> set f \<and> CHR '']'' \<notin> set f \<and> 8 < length f"

lemma contains_placeholder:
  assumes "bracket_free f"
  shows "contains (g @ placeholder @ s) f \<longleftrightarrow> contains g f \<or> contains s f"
proof -
  have "contains (g @ CHR ''['' # ''REDACTED'' @ CHR '']'' # s) f \<longleftrightarrow>
        contains g f \<or> contains ''REDACTED'' f \<or> contains s f"
    using assms unfolding bracket_free_def by (subst contains_split, blast, subst contains_split) blast+
  moreover have "\<not> contains ''REDACTED'' f"
    using assms contains_length [of "''REDACTED''" f] by (auto simp: bracket_free_def)
  moreover have "g @ placeholder @ s = g @ CHR ''['' # ''REDACTED'' @ CHR '']'' # s"
    by (simp add: placeholder_def)
  ultimately show ?thesis by metis
qed

lemma replace_all_no_new_token:
  assumes "bracket_free f"
  shows "contains (g @ replace_all s old placeholder) f \<Longrightarrow> contains (g @ s) f"
proof (induction s old placeholder arbitrary: g rule: replace_all.induct)
  case (1 s old)
  show ?case
  proof (cases "s = [] \<or> old = []")
    case True
    with 1(3) show ?thesis by (subst (asm) replace_all.simps) simp
  next
    case ne: False
    show ?thesis
    proof (cases "has_prefix s old")
      case True
      with ne 1(3) have "contains (g @ placeholder @ replace_all (drop (length old) s) old placeholder) f"
        by (subst (asm) replace_all.simps) simp
      then consider "contains g f" | "contains (replace_all (drop (length old) s) old placeholder) f"
        using contains_placeholder [OF assms] by blast
      then show ?thesis
      proof cases
        case 2
        with 1(1) [OF ne True, of "[]"] have "contains (drop (length old) s) f" by simp
        then show ?thesis
          by (metis append_take_drop_id contains_append_left)
      qed (rule contains_append_right)
    next
      case False
      with ne 1(3) have "contains ((g @ [hd s]) @ replace_all (tl s) old placeholder) f"
        by (subst (asm) replace_all.simps) simp
      with 1(2) [OF ne False, of "g @ [hd s]"] ne show ?thesis by simp
    qed
  qed
qed

lemma contains_self [simp]: "contains s s"
  unfolding contains_iff by (metis append_Nil append_Nil2)

text \<open>After the replacement of \<open>old\<close>, \<open>old\<close> is gone: \<open>g\<close> is what has been copied so far, in
  which no occurrence begins.\<close>

lemma replace_all_removes:
  assumes "bracket_free old"
  shows "(\<And>a b. g @ s = a @ old @ b \<Longrightarrow> length g \<le> length a) \<Longrightarrow>
         \<not> contains (g @ replace_all s old placeholder) old"
  using assms
proof (induction s old placeholder arbitrary: g rule: replace_all.induct)
  case (1 s old)
  have ne: "old \<noteq> []" using 1(4) by (auto simp: bracket_free_def)
  have g: "\<not> contains g old"
  proof
    assume "contains g old"
    then obtain a b where "g = a @ old @ b" by (auto simp: contains_iff)
    with 1(3) [of a "b @ s"] ne show False by auto
  qed
  consider "s = []" | "s \<noteq> []" "has_prefix s old" | "s \<noteq> []" "\<not> has_prefix s old" by blast
  then show ?case
  proof cases
    case 1
    with g show ?thesis by (subst replace_all.simps) simp
  next
    case 2
    have "\<not> contains ([] @ replace_all (drop (length old) s) old placeholder) old"
      by (rule 1(1)) (use 2 ne 1(4) in auto)
    with g 2 ne 1(4) show ?thesis
      by (subst replace_all.simps) (simp add: contains_placeholder)
  next
    case 3
    then obtain c t where s: "s = c # t" by (cases s) auto
    have "\<not> contains ((g @ [c]) @ replace_all (tl s) old placeholder) old"
    proof (rule 1(2))
      fix a b assume "(g @ [c]) @ tl s = a @ old @ b"
      then have eq: "g @ c # t = a @ old @ b" using s by simp
      with 1(3) [of a b] s have "length g \<le> length a" by simp
      moreover have "length g \<noteq> length a"
        using eq 3 by (auto simp: s has_prefix_iff append_eq_append_conv)
      ultimately show "length (g @ [c]) \<le> length a" by simp
    qed (use 3 s ne 1(4) in auto)
    with 3 ne s show ?thesis by (subst replace_all.simps) simp
  qed
qed

lemma token_bracket_free: "looksLikeToken f \<Longrightarrow> 8 < length f \<Longrightarrow> bracket_free f"
  by (auto simp: looksLikeToken_def list_all_iff bracket_free_def token_char_def is_lower_def
      is_upper_def is_digit_def in_range_def one_of_def)

lemma redact_fields_absent:
  "bracket_free f \<Longrightarrow> \<not> contains s f \<Longrightarrow> \<not> contains (fst (redact_fields l t fs (s, n))) f"
proof (induction fs arbitrary: s n)
  case (Cons w fs)
  have "\<not> contains (replace_all s w placeholder) f"
    using replace_all_no_new_token [OF Cons.prems(1), of "[]" s w] Cons.prems(2) by auto
  with Cons show ?case by simp
qed simp

lemma redact_fields_removes:
  assumes "f \<in> set fs" "l \<le> length f" "looksLikeToken f" "t \<le> shannonEntropy f" "8 < l"
  shows "\<not> contains (fst (redact_fields l t fs (s, n))) f"
  using assms(1)
proof (induction fs arbitrary: s n)
  case (Cons w fs)
  have bf: "bracket_free f" using assms token_bracket_free by simp
  show ?case
  proof (cases "w = f")
    case True
    have "\<not> contains (replace_all s f placeholder) f"
      using replace_all_removes [OF bf, of "[]" s] by simp
    with True assms redact_fields_absent [OF bf] show ?thesis by simp
  next
    case False
    with Cons show ?thesis by simp
  qed
qed simp

lemma Redact_Message: "Message (fst (Redact r e)) = fst (redactString r (Message e))"
  by (simp add: Redact_def split_beta)

text \<open>
  C23. No high-entropy token survives redaction: take any word of the message (a maximal run
  without separators, after the pattern layer) that is long enough, made of token characters
  and random enough; then the message \<open>Redact\<close> leaves does not contain it anywhere, inside
  another word neither. Later replacements cannot bring it back.
\<close>

theorem Redact_no_token_survives:
  assumes "f \<in> set (fields_func token_sep (fst (apply_patterns (patterns r) (Message e, 0))))"
    and "minTokenLen r \<le> length f" and "looksLikeToken f" and "entropyThreshold r \<le> shannonEntropy f"
    and "8 < minTokenLen r"
  shows "\<not> contains (Message (fst (Redact r e))) f"
proof -
  obtain s n where sn: "apply_patterns (patterns r) (Message e, 0) = (s, n)" by fastforce
  with assms have "fields_func token_sep s \<noteq> []" by auto
  with sn redact_fields_removes [of f _ "minTokenLen r" "entropyThreshold r" s n] assms
  show ?thesis
    by (simp add: Redact_Message redactString_def redactStringWithEntropy_def
        redactHighEntropyTokens_def)
qed

subsection \<open>The entropy test in integers\<close>

lemma foldl_minus: "foldl (\<lambda>h b. h - g b) (a :: real) xs = a - sum_list (map g xs)"
  by (induction xs arbitrary: a) (simp_all add: algebra_simps)

lemma sum_freq: "(\<Sum>b<256. freq s b) = length s"
proof (induction s)
  case (Cons c s)
  have "freq (c # s) b = (if b = byte c then 1 else 0) + freq s b" for b
    by (simp add: freq_def)
  then have "(\<Sum>b<256. freq (c # s) b) = (\<Sum>b<256. if b = byte c then 1 else 0) + (\<Sum>b<256. freq s b)"
    by (simp add: sum.distrib)
  moreover have "(of_char c :: nat) < 256" by (rule byte_less_256)
  ultimately show ?case using Cons by simp
qed (simp add: freq_def)

lemma shannonEntropy_eq:
  assumes "s \<noteq> []"
  shows "real (length s) * shannonEntropy s =
         real (length s) * log 2 (length s) - (\<Sum>b<256. real (freq s b) * log 2 (freq s b))"
proof -
  define n where "n = real (length s)"
  have n: "0 < n" using assms by (simp add: n_def)
  define g where "g b = (real (freq s b) / n) * log 2 (real (freq s b) / n)" for b
  have "shannonEntropy s = foldl (\<lambda>h b. h - g b) 0 [0..<256]"
    using assms unfolding shannonEntropy_def
    by (auto simp: g_def n_def Let_def intro!: foldl_cong)
  also have "\<dots> = - (\<Sum>b<256. g b)"
    by (simp add: foldl_minus interv_sum_list_conv_sum_set_nat atLeast0LessThan)
  finally have h: "n * shannonEntropy s = - (\<Sum>b<256. n * g b)"
    by (simp add: sum_distrib_left)
  have "n * g b = real (freq s b) * log 2 (freq s b) - real (freq s b) * log 2 n" for b
    using n by (cases "freq s b = 0") (simp_all add: g_def log_divide algebra_simps)
  then have "(\<Sum>b<256. n * g b) =
      (\<Sum>b<256. real (freq s b) * log 2 (freq s b)) - real (\<Sum>b<256. freq s b) * log 2 n"
    by (simp add: sum_subtractf sum_distrib_right)
  with h show ?thesis by (simp add: sum_freq n_def)
qed

lemma entropy_ge_iff:
  "7 / 2 \<le> shannonEntropy s \<longleftrightarrow>
   s \<noteq> [] \<and> 2 ^ (7 * length s) * (\<Prod>b<256. freq s b ^ (2 * freq s b)) \<le> length s ^ (2 * length s)"
proof (cases "s = []")
  case False
  define n where "n = length s"
  let ?P = "\<Prod>b<256. freq s b ^ (2 * freq s b)"
  have n: "0 < n" using False by (simp add: n_def)
  have pos: "0 < freq s b ^ (2 * freq s b)" for b by (cases "freq s b = 0") simp_all
  have nz: "real (freq s b ^ (2 * freq s b)) \<noteq> 0" for b by (cases "freq s b = 0") simp_all
  have P: "log 2 (real ?P) = (\<Sum>b<256. 2 * (real (freq s b) * log 2 (freq s b)))"
  proof -
    have "ln (real ?P) = (\<Sum>b<256. ln (real (freq s b ^ (2 * freq s b))))"
      unfolding of_nat_prod by (rule ln_prod [OF finite_lessThan nz])
    also have "\<dots> = (\<Sum>b<256. 2 * (real (freq s b) * ln (freq s b)))"
    proof (rule sum.cong [OF refl])
      fix b show "ln (real (freq s b ^ (2 * freq s b))) = 2 * (real (freq s b) * ln (freq s b))"
        by (cases "freq s b = 0") (simp_all add: ln_realpow)
    qed
    finally show ?thesis
      by (simp add: log_def sum_divide_distrib)
  qed
  have Ppos: "0 < ?P" using pos by (simp add: prod_pos)
  have "7 / 2 \<le> shannonEntropy s \<longleftrightarrow> 7 * real n \<le> 2 * (real n * shannonEntropy s)"
    using n by (simp add: field_simps)
  also have "\<dots> \<longleftrightarrow> 7 * real n + log 2 (real ?P) \<le> 2 * real n * log 2 n"
    unfolding P sum_distrib_left [symmetric]
    using shannonEntropy_eq [OF False] by (simp add: n_def mult.assoc le_diff_eq)
  also have "\<dots> \<longleftrightarrow> log 2 (2 ^ (7 * n) * real ?P) \<le> log 2 (real n ^ (2 * n))"
    using n Ppos by (simp add: log_mult log_nat_power del: of_nat_prod)
  also have "\<dots> \<longleftrightarrow> 2 ^ (7 * n) * real ?P \<le> real n ^ (2 * n)"
    using n Ppos by (intro log_le_cancel_iff) (auto simp del: of_nat_prod)
  also have "\<dots> \<longleftrightarrow> real (2 ^ (7 * n) * ?P) \<le> real (n ^ (2 * n))"
    by simp
  finally show ?thesis using False by (simp only: of_nat_le_iff n_def) simp
qed (simp add: shannonEntropy_def)

text \<open>
  The entropy threshold of 3.5 bits per character, which the code computes in floating
  point, is an inequality between integers: a string of \<open>n\<close> bytes with \<open>k\<close>-fold byte values is
  random enough exactly if \<open>n^(2 n)\<close> is at least \<open>2^(7 n)\<close> times the product of all \<open>k^(2 k)\<close>.
\<close>

theorem entropy_threshold_integer:
  "7 / 2 \<le> shannonEntropy s \<longleftrightarrow>
   s \<noteq> [] \<and> 2 ^ (7 * length s) * (\<Prod>b<256. freq s b ^ (2 * freq s b)) \<le> length s ^ (2 * length s)"
  by (rule entropy_ge_iff)

text \<open>Strings without a repeated byte, from length 12 on, are always random enough.\<close>

lemma distinct_freq: "distinct s \<Longrightarrow> freq s b = 0 \<or> freq s b = 1"
proof (induction s)
  case (Cons c s)
  have "freq s (byte c) = 0" using Cons.prems by (auto simp: freq_def filter_empty_conv)
  moreover have "freq (c # s) b = (if byte c = b then 1 else 0) + freq s b" by (simp add: freq_def)
  ultimately show ?case using Cons by auto
qed (simp add: freq_def)

lemma distinct_entropy:
  assumes "distinct s" "12 \<le> length s"
  shows "7 / 2 \<le> shannonEntropy s"
proof -
  have "freq s b ^ (2 * freq s b) = 1" for b
    using distinct_freq [OF assms(1), of b] by auto
  then have "(\<Prod>b<256. freq s b ^ (2 * freq s b)) = 1" by (simp only: prod.neutral_const)
  moreover have "2 ^ (7 * length s) \<le> length s ^ (2 * length s)"
  proof -
    have "(2::nat) ^ 7 \<le> 12\<^sup>2" by simp
    also have "\<dots> \<le> (length s)\<^sup>2" using assms(2) by (rule power_mono) simp
    finally have "((2::nat) ^ 7) ^ length s \<le> ((length s)\<^sup>2) ^ length s"
      by (rule power_mono) simp
    then show ?thesis by (simp add: power_mult)
  qed
  moreover have "s \<noteq> []" using assms(2) by auto
  ultimately show ?thesis unfolding entropy_ge_iff by simp
qed

definition sample_token :: string where "sample_token = ''abcdefghijklmnopqrst''"

lemma sample_token_qualifies:
  "7 / 2 \<le> shannonEntropy sample_token" "looksLikeToken sample_token" "length sample_token = 20"
  by (rule distinct_entropy; code_simp) code_simp+

theorem Redact_no_token_survives_witness:
  "\<not> contains (Message (fst (Redact NewRedactor (zero_entry\<lparr>Message := sample_token\<rparr>)))) sample_token"
proof (rule Redact_no_token_survives)
  have "apply_patterns (patterns NewRedactor) (sample_token, 0) = (sample_token, 0)"
    by code_simp
  moreover have "fields_func token_sep sample_token = [sample_token]" by code_simp
  ultimately show "sample_token \<in> set (fields_func token_sep (fst (apply_patterns
      (patterns NewRedactor) (Message (zero_entry\<lparr>Message := sample_token\<rparr>), 0))))"
    by simp
qed (use sample_token_qualifies in \<open>simp_all add: NewRedactor_def\<close>)

text \<open>
  The tail of a token that extends another one: the shorter token is replaced first, inside the
  longer one too, so the longer one is no longer found and its tail stays in clear.
\<close>

definition tail_secret :: string where "tail_secret = ''ZX9QW7LK2VB5NM8RT4YP''"

lemma tail_secret_qualifies: "7 / 2 \<le> shannonEntropy tail_secret" "looksLikeToken tail_secret"
  by (rule distinct_entropy; code_simp) code_simp

lemma token_with_tail_qualifies: "7 / 2 \<le> shannonEntropy (sample_token @ tail_secret)"
  by (rule distinct_entropy; code_simp)


subsection \<open>What Redact touches\<close>

definition redacted_attr :: "redactor \<Rightarrow> string \<times> attr \<Rightarrow> string \<times> attr" where
  "redacted_attr r kv =
     (case snd kv of
        AStr s \<Rightarrow> (fst kv, AStr (fst (redactStringWithEntropy r s (fst kv \<notin> set (allowKeys r)))))
      | _ \<Rightarrow> kv)"

lemma redact_attrs_map: "fst (redact_attrs r as) = map (redacted_attr r) as"
proof (induction as)
  case (Cons kv as)
  obtain k v where kv: "kv = (k, v)" by fastforce
  show ?case
  proof (cases v)
    case (AStr s)
    then show ?thesis
      using Cons redactString_zero [of r s "k \<notin> set (allowKeys r)"]
      by (auto simp: kv redacted_attr_def split_beta Let_def)
  qed (use Cons in \<open>simp_all add: kv redacted_attr_def split_beta Let_def\<close>)
qed simp

text \<open>
  What \<open>Redact\<close> does to an entry: it sets the flag, redacts the message with both layers
  and every string attribute at the top level (with the entropy layer exactly for the keys
  that are not allowed), and leaves everything else as it came: tenant, time, service, level,
  trace ID, the keys, numbers, and strings inside nested arrays and objects.
\<close>

theorem Redact_effect:
  "fst (Redact r e) =
     e\<lparr>Message := fst (redactString r (Message e)),
       Attrs := map (redacted_attr r) (Attrs e),
       Redacted := True\<rparr>"
  by (simp add: Redact_def split_beta Let_def redact_attrs_map)

subsection \<open>Card numbers\<close>

definition luhn_step :: "bool \<Rightarrow> int \<Rightarrow> int" where
  "luhn_step dbl d = (if dbl then (if d * 2 > 9 then d * 2 - 9 else d * 2) else d)"

lemma luhn_loop_Cons: "luhn_loop (d # ds) dbl acc = luhn_loop ds (\<not> dbl) (acc + luhn_step dbl d)"
  by (simp add: luhn_step_def Let_def)

lemma luhn_loop_acc: "luhn_loop ds dbl acc = acc + luhn_loop ds dbl 0"
proof (induction ds arbitrary: dbl acc)
  case (Cons d ds)
  from Cons [of "\<not> dbl" "acc + luhn_step dbl d"] Cons [of "\<not> dbl" "luhn_step dbl d"]
  show ?case by (simp only: luhn_loop_Cons) simp
qed simp

lemma luhn_loop_append:
  "luhn_loop (xs @ ys) dbl acc = luhn_loop ys (dbl \<noteq> odd (length xs)) (luhn_loop xs dbl acc)"
proof (induction xs arbitrary: dbl acc)
  case (Cons x xs)
  then show ?case by (cases dbl) (simp_all add: luhn_loop_Cons del: luhn_loop.simps(2))
qed simp

lemma luhn_step_inj:
  assumes "0 \<le> a" "a \<le> 9" "0 \<le> b" "b \<le> 9" "luhn_step dbl a mod 10 = luhn_step dbl b mod 10"
  shows "a = b"
proof -
  have digit: "x = 0 \<or> x = 1 \<or> x = 2 \<or> x = 3 \<or> x = 4 \<or> x = 5 \<or> x = 6 \<or> x = 7 \<or> x = 8 \<or> x = 9"
    if "0 \<le> x" "x \<le> 9" for x :: int
    using that by arith
  from digit [OF assms(1,2)] digit [OF assms(3,4)] assms(5) show ?thesis
    by (elim disjE; simp add: luhn_step_def split: if_splits)
qed

lemma mod10_cancel: "(x + p + y) mod 10 = (x + q + y) mod 10 \<Longrightarrow> p mod 10 = q mod (10 :: int)"
  by (simp add: mod_eq_dvd_iff)

lemma luhn_single_digit:
  assumes "luhnValid (xs @ a # ys)" "luhnValid (xs @ b # ys)"
    and "0 \<le> a" "a \<le> 9" "0 \<le> b" "b \<le> 9"
  shows "a = b"
proof -
  define dbl where "dbl = odd (length ys)"
  have sum: "luhn_loop (rev (xs @ d # ys)) False 0
      = luhn_loop (rev ys) False 0 + luhn_step dbl d + luhn_loop (rev xs) (\<not> dbl) 0" for d
    using luhn_loop_acc [of "rev xs" "\<not> dbl" "luhn_loop (rev ys) False 0 + luhn_step dbl d"]
    by (simp add: luhn_loop_append luhn_loop_Cons dbl_def del: luhn_loop.simps(2))
  have "(luhn_loop (rev ys) False 0 + luhn_step dbl a + luhn_loop (rev xs) (\<not> dbl) 0) mod 10
      = (luhn_loop (rev ys) False 0 + luhn_step dbl b + luhn_loop (rev xs) (\<not> dbl) 0) mod 10"
    using assms(1,2) by (simp only: luhnValid_def sum)
  then have "luhn_step dbl a mod 10 = luhn_step dbl b mod 10" by (rule mod10_cancel)
  with assms show ?thesis by (blast intro: luhn_step_inj)
qed

lemma is_digit_value: "is_digit c \<Longrightarrow> 0 \<le> int (byte c) - 48 \<and> int (byte c) - 48 \<le> 9"
  by (simp add: is_digit_def in_range_def)

text \<open>
  The card check tells card numbers from other runs of digits: two texts that differ in one
  digit, separators or not, never both look like a card.
\<close>

theorem looksLikeCard_one_digit:
  assumes "looksLikeCard (u @ c # v)" "looksLikeCard (u @ d # v)" "is_digit c" "is_digit d"
  shows "c = d"
proof -
  have "luhnValid (card_digits u @ (int (byte c) - 48) # card_digits v)"
    and "luhnValid (card_digits u @ (int (byte d) - 48) # card_digits v)"
    using assms by (simp_all add: looksLikeCard_def card_digits_def Let_def split: if_splits)
  then have "int (byte c) - 48 = int (byte d) - 48"
    using assms(3,4) is_digit_value by (intro luhn_single_digit) auto
  then show ?thesis by simp
qed

theorem looksLikeCard_one_digit_witness:
  "looksLikeCard ''4111 1111 1111 1111'' \<and> \<not> looksLikeCard ''4111 1111 1111 1112''"
proof -
  have v: "looksLikeCard ''4111 1111 1111 1111''" by code_simp
  have "\<not> looksLikeCard (''4111 1111 1111 111'' @ CHR ''2'' # [])"
  proof
    assume "looksLikeCard (''4111 1111 1111 111'' @ CHR ''2'' # [])"
    then have "CHR ''1'' = CHR ''2''"
      by (intro looksLikeCard_one_digit [of "''4111 1111 1111 111''" _ "[]"])
        (use v in \<open>simp_all add: is_digit_def in_range_def\<close>)
    then show False by simp
  qed
  with v show ?thesis by simp
qed


end
