(* ===== verification/Config.thy ===== *)
theory Config
  imports GoStrings
begin

text \<open>
  Package \<open>internal/config\<close>: the configuration read from environment variables, each with a default.
  The environment is a map from names to values. \<open>time.ParseDuration\<close> is written out (its fraction
  computed exactly); \<open>strconv.ParseFloat\<close> is the argument \<open>parse_float\<close>, \<open>None\<close> for its errors.
\<close>

subsection \<open>\<open>time.ParseDuration\<close>\<close>

text \<open>The digits in front, as long as their value fits.\<close>

fun leadingInt :: "nat \<Rightarrow> string \<Rightarrow> (nat \<times> string) option" where
  "leadingInt x [] = Some (x, [])"
| "leadingInt x (c # s) =
     (if \<not> is_digit c then Some (x, c # s)
      else if x > 2 ^ 63 div 10 then None
      else (let y = x * 10 + (byte c - 48) in if y > 2 ^ 63 then None else leadingInt y s))"

text \<open>The digits behind the point: their value and its scale; digits that no longer fit are skipped.\<close>

fun leadingFraction :: "nat \<Rightarrow> nat \<Rightarrow> bool \<Rightarrow> string \<Rightarrow> nat \<times> nat \<times> string" where
  "leadingFraction x scale overflow [] = (x, scale, [])"
| "leadingFraction x scale overflow (c # s) =
     (if \<not> is_digit c then (x, scale, c # s)
      else if overflow then leadingFraction x scale True s
      else if x > (2 ^ 63 - 1) div 10 then leadingFraction x scale True s
      else (let y = x * 10 + (byte c - 48) in
            if y > 2 ^ 63 then leadingFraction x scale True s
            else leadingFraction y (scale * 10) False s))"

definition unit_of :: "string \<Rightarrow> nat option" where
  "unit_of u = map_of
     [(''ns'', 1), (''us'', 1000), ([chr 194, chr 181, CHR ''s''], 1000),
      ([chr 206, chr 188, CHR ''s''], 1000), (''ms'', 1000000), (''s'', 1000000000),
      (''m'', 60 * 1000000000), (''h'', 3600 * 1000000000)] u"

definition unit_char :: "char \<Rightarrow> bool" where
  "unit_char c \<longleftrightarrow> c \<noteq> CHR ''.'' \<and> \<not> is_digit c"

text \<open>One number with its unit: its nanoseconds and the rest of the text.\<close>

definition duration_term :: "string \<Rightarrow> (nat \<times> string) option" where
  "duration_term s =
     (if unit_char (hd s) then None
      else case leadingInt 0 s of
        None \<Rightarrow> None
      | Some (v, r) \<Rightarrow>
          (let pre = length r \<noteq> length s;
               (f, scale, r2, post) =
                 (if r \<noteq> [] \<and> hd r = CHR ''.''
                  then (case leadingFraction 0 1 False (tl r) of
                          (f, scale, r2) \<Rightarrow> (f, scale, r2, length r2 \<noteq> length (tl r)))
                  else (0, 1, r, False));
               u = takeWhile unit_char r2
           in if \<not> pre \<and> \<not> post then None
              else if u = [] then None
              else case unit_of u of
                None \<Rightarrow> None
              | Some k \<Rightarrow>
                  if v > 2 ^ 63 div k then None
                  else (let v = v * k + (if f > 0 then f * k div scale else 0)
                        in if f > 0 \<and> v > 2 ^ 63 then None else Some (v, dropWhile unit_char r2))))"

lemma leadingInt_shorter: "leadingInt x s = Some (v, r) \<Longrightarrow> length r \<le> length s"
  by (induction x s rule: leadingInt.induct) (fastforce simp: Let_def split: if_splits)+

lemma leadingFraction_shorter: "leadingFraction x sc o' s = (f, sc', r) \<Longrightarrow> length r \<le> length s"
proof (induction x sc o' s rule: leadingFraction.induct)
  case (2 x scale overflow c s)
  show ?case
  proof (cases "is_digit c")
    case True
    with 2 show ?thesis by (simp add: Let_def le_SucI split: if_splits)
  next
    case False
    with "2.prems" show ?thesis by auto
  qed
qed simp

lemma duration_term_shorter:
  assumes "duration_term s = Some (v, r)"
  shows "length r < length s"
proof -
  have drop: "length (dropWhile unit_char t) < length t" if "takeWhile unit_char t \<noteq> []" for t
    using that by (cases t) (auto simp: length_dropWhile_le le_imp_less_Suc split: if_splits)
  show ?thesis
    using assms leadingInt_shorter [of 0 s] leadingFraction_shorter [of 0 1 False]
    by (fastforce simp: duration_term_def Let_def split: if_splits option.splits prod.splits dest!: drop)
qed

function duration_loop :: "nat \<Rightarrow> string \<Rightarrow> nat option" where
  "duration_loop d s =
     (if s = [] then Some d
      else case duration_term s of
        None \<Rightarrow> None
      | Some (v, r) \<Rightarrow>
          (let d = (d + v) mod 2 ^ 64 in if d > 2 ^ 63 then None else duration_loop d r))"
  by pat_completeness auto
termination
  by (relation "measure (\<lambda>(d, s). length s)") (auto dest: duration_term_shorter)

declare duration_loop.simps [simp del]

definition ParseDuration :: "string \<Rightarrow> duration option" where
  "ParseDuration s =
     (case split_sign s of (neg, s) \<Rightarrow>
        if s = ''0'' then Some 0
        else if s = [] then None
        else case duration_loop 0 s of
          None \<Rightarrow> None
        | Some d \<Rightarrow>
            if neg then Some (- int d) else if d > 2 ^ 63 - 1 then None else Some (int d))"

subsection \<open>The configuration\<close>

record config =
  ListenAddr :: string
  BufferSize :: int
  BatchSize :: int
  BatchInterval :: duration
  RatePerTenant :: f64
  BurstPerTenant :: int
  MaxBodyBytes :: int
  ShutdownTimeout :: duration

type_synonym environment = "string \<Rightarrow> string option"

definition env :: "environment \<Rightarrow> string \<Rightarrow> string \<Rightarrow> string" where
  "env E k dflt = (case E k of Some v \<Rightarrow> v | None \<Rightarrow> dflt)"

text \<open>A value that does not parse leaves the default.\<close>

definition envInt :: "environment \<Rightarrow> string \<Rightarrow> int \<Rightarrow> int" where
  "envInt E k dflt =
     (case E k of Some v \<Rightarrow> (case Atoi v of Some n \<Rightarrow> n | None \<Rightarrow> dflt) | None \<Rightarrow> dflt)"

definition envFloat :: "(string \<Rightarrow> f64 option) \<Rightarrow> environment \<Rightarrow> string \<Rightarrow> f64 \<Rightarrow> f64" where
  "envFloat parse_float E k dflt =
     (case E k of Some v \<Rightarrow> (case parse_float v of Some x \<Rightarrow> x | None \<Rightarrow> dflt) | None \<Rightarrow> dflt)"

definition envDur :: "environment \<Rightarrow> string \<Rightarrow> duration \<Rightarrow> duration" where
  "envDur E k dflt =
     (case E k of Some v \<Rightarrow> (case ParseDuration v of Some d \<Rightarrow> d | None \<Rightarrow> dflt) | None \<Rightarrow> dflt)"

definition Load :: "(string \<Rightarrow> f64 option) \<Rightarrow> environment \<Rightarrow> config" where
  "Load parse_float E =
     \<lparr>ListenAddr = env E ''SL_LISTEN_ADDR'' '':8080'',
      BufferSize = envInt E ''SL_BUFFER_SIZE'' 10000,
      BatchSize = envInt E ''SL_BATCH_SIZE'' 500,
      BatchInterval = envDur E ''SL_BATCH_INTERVAL'' 1000000000,
      RatePerTenant = envFloat parse_float E ''SL_RATE'' 1000,
      BurstPerTenant = envInt E ''SL_BURST'' 2000,
      MaxBodyBytes = envInt E ''SL_MAX_BODY'' (2 ^ 20),
      ShutdownTimeout = envDur E ''SL_SHUTDOWN_TIMEOUT'' (15 * 1000000000)\<rparr>"

subsection \<open>Writing a configuration down and loading it\<close>

lemma digits_value_mono: "digits_value n ds = Some m \<Longrightarrow> n \<le> m"
proof (induction n ds rule: digits_value.induct)
  case (2 n c s)
  then have "10 * n + (byte c - 48) \<le> m" by (simp split: if_splits)
  then show ?case by simp
qed simp

lemma leadingInt_digits:
  "digits_value n ds = Some m \<Longrightarrow> m \<le> 2 ^ 63 \<Longrightarrow> s = [] \<or> \<not> is_digit (hd s) \<Longrightarrow>
   leadingInt n (ds @ s) = Some (m, s)"
proof (induction n ds rule: digits_value.induct)
  case (1 n)
  then show ?case by (cases s) auto
next
  case (2 n c ds)
  then have c: "is_digit c" and v: "digits_value (10 * n + (byte c - 48)) ds = Some m"
    by (simp_all split: if_splits)
  from digits_value_mono [OF v] 2(3) have le: "10 * n + (byte c - 48) \<le> 2 ^ 63" by simp
  then have "n \<le> 2 ^ 63 div 10" by simp
  with le c 2(1) [OF c v 2(3,4)] show ?case by (simp add: mult.commute [of n 10])
qed

text \<open>A duration written in nanoseconds.\<close>

definition format_ns :: "duration \<Rightarrow> string" where
  "format_ns d = format_int d @ ''ns''"

lemma duration_loop_ns:
  assumes "m \<le> 2 ^ 63"
  shows "duration_loop 0 (format_uint m @ ''ns'') = Some m"
proof -
  let ?s = "format_uint m @ ''ns''"
  have hd: "hd ?s \<in> set (format_uint m)" using format_uint_nonempty [of m] by simp
  have n: "\<not> is_digit (CHR ''n'')" "\<not> is_digit (CHR ''s'')" by (simp_all add: is_digit_def in_range_def)
  have "leadingInt 0 ?s = Some (m, ''ns'')"
    using leadingInt_digits [OF digits_value_format assms, of "''ns''"] n by simp
  moreover have "\<not> unit_char (hd ?s)" using format_uint_digits [OF hd] by (simp add: unit_char_def)
  moreover have "unit_char (CHR ''n'')" "unit_char (CHR ''s'')" using n by (simp_all add: unit_char_def)
  moreover have "length ?s \<noteq> 2" using format_uint_nonempty [of m] by simp
  ultimately have "duration_term ?s = Some (m, [])"
    using assms by (simp add: duration_term_def unit_of_def)
  then show ?thesis
    using assms by (simp add: duration_loop.simps [of 0 ?s] duration_loop.simps [of m "[]"])
qed

lemma ParseDuration_format:
  assumes "- (2 ^ 63) \<le> d" "d < 2 ^ 63"
  shows "ParseDuration (format_ns d) = Some d"
proof -
  have "format_uint m @ ''ns'' \<noteq> ''0''" for m
    using format_uint_nonempty [of m] by (cases "format_uint m") auto
  then show ?thesis
    using assms duration_loop_ns [of "nat \<bar>d\<bar>"]
    by (cases "d < 0") (auto simp: ParseDuration_def format_ns_def format_int_def)
qed

definition int64 :: "int \<Rightarrow> bool" where
  "int64 n \<longleftrightarrow> - (2 ^ 63) \<le> n \<and> n < 2 ^ 63"

definition config_ok :: "config \<Rightarrow> bool" where
  "config_ok c \<longleftrightarrow>
     list_all int64 [BufferSize c, BatchSize c, BatchInterval c, BurstPerTenant c, MaxBodyBytes c, ShutdownTimeout c]"

definition environment_of :: "(f64 \<Rightarrow> string) \<Rightarrow> config \<Rightarrow> environment" where
  "environment_of format_float c = map_of
     [(''SL_LISTEN_ADDR'', ListenAddr c), (''SL_BUFFER_SIZE'', format_int (BufferSize c)),
      (''SL_BATCH_SIZE'', format_int (BatchSize c)), (''SL_BATCH_INTERVAL'', format_ns (BatchInterval c)),
      (''SL_RATE'', format_float (RatePerTenant c)), (''SL_BURST'', format_int (BurstPerTenant c)),
      (''SL_MAX_BODY'', format_int (MaxBodyBytes c)), (''SL_SHUTDOWN_TIMEOUT'', format_ns (ShutdownTimeout c))]"

text \<open>
  C29. Every configuration can be set: the environment that writes its values down, integers in decimal
  and durations in nanoseconds, loads as that very configuration, whatever the values are
  (negative sizes and intervals included: nothing is validated).
\<close>

theorem Load_environment_of:
  assumes "config_ok c" "parse_float (format_float (RatePerTenant c)) = Some (RatePerTenant c)"
  shows "Load parse_float (environment_of format_float c) = c"
  using assms
  by (simp add: Load_def environment_of_def env_def envInt_def envFloat_def envDur_def config_ok_def int64_def
      Atoi_format_int ParseDuration_format)

definition odd_config :: config where
  "odd_config =
     \<lparr>ListenAddr = '':0'', BufferSize = -1, BatchSize = 7, BatchInterval = - 5, RatePerTenant = 2,
      BurstPerTenant = 3, MaxBodyBytes = 2 ^ 40, ShutdownTimeout = 10\<rparr>"

theorem Load_environment_of_witness:
  "Load (\<lambda>s. if s = ''2'' then Some 2 else None) (environment_of (\<lambda>_. ''2'') odd_config) = odd_config"
  by (rule Load_environment_of) (simp_all add: odd_config_def config_ok_def int64_def)

end
