(* ===== verification/Metrics.thy ===== *)
theory Metrics
  imports GoStrings "HOL-Library.AList" "HOL-Library.List_Lexorder" "HOL-Library.Char_ord"
begin

text \<open>
  Package \<open>internal/metrics\<close>: counters, gauges read at rendering time, and latency histograms. The
  maps are association lists (\<open>Render\<close> sorts their names); a gauge is a function of the state \<open>'w\<close>
  of the program it reads. The text of a floating point number (\<open>%g\<close>) is the argument \<open>fmt_g\<close>.
\<close>

record histogram =
  hg_bounds :: "f64 list"
  hg_counts :: "u64 list"
  hg_sum :: f64
  hg_total :: u64

definition newHistogram :: histogram where
  "newHistogram =
     (let bounds = [1, 5, 10, 25, 50, 100, 250, 500, 1000, 2500, 5000] in
      \<lparr>hg_bounds = bounds, hg_counts = replicate (length bounds + 1) 0, hg_sum = 0, hg_total = 0\<rparr>)"

text \<open>\<open>sort.SearchFloat64s\<close> is \<open>sort.Search\<close> for the first element not below the value.\<close>

definition SearchFloat64s :: "f64 list \<Rightarrow> f64 \<Rightarrow> nat" where
  "SearchFloat64s a x = sort_Search (length a) (\<lambda>i. a ! i \<ge> x)"

definition hist_observe :: "histogram \<Rightarrow> f64 \<Rightarrow> histogram" where
  "hist_observe h v =
     (let i = SearchFloat64s (hg_bounds h) v in
      h\<lparr>hg_sum := hg_sum h + v, hg_total := hg_total h + 1,
        hg_counts := (hg_counts h)[i := hg_counts h ! i + 1]\<rparr>)"

record 'w registry =
  rg_counters :: "(string \<times> u64) list"
  rg_gauges :: "(string \<times> ('w \<Rightarrow> f64)) list"
  rg_hist :: "(string \<times> histogram) list"

definition NewRegistry :: "'w registry" where
  "NewRegistry = \<lparr>rg_counters = [], rg_gauges = [], rg_hist = []\<rparr>"

definition counter :: "'w registry \<Rightarrow> string \<Rightarrow> u64" where
  "counter r name = (case map_of (rg_counters r) name of None \<Rightarrow> 0 | Some n \<Rightarrow> n)"

definition AddCounter :: "'w registry \<Rightarrow> string \<Rightarrow> u64 \<Rightarrow> 'w registry" where
  "AddCounter r name n = r\<lparr>rg_counters := AList.update name (counter r name + n) (rg_counters r)\<rparr>"

definition Inc :: "'w registry \<Rightarrow> string \<Rightarrow> 'w registry" where
  "Inc r name = AddCounter r name 1"

definition SetGauge :: "'w registry \<Rightarrow> string \<Rightarrow> ('w \<Rightarrow> f64) \<Rightarrow> 'w registry" where
  "SetGauge r name f = r\<lparr>rg_gauges := AList.update name f (rg_gauges r)\<rparr>"

definition hist_of :: "'w registry \<Rightarrow> string \<Rightarrow> histogram" where
  "hist_of r name = (case map_of (rg_hist r) name of None \<Rightarrow> newHistogram | Some h \<Rightarrow> h)"

definition ObserveLatency :: "'w registry \<Rightarrow> string \<Rightarrow> f64 \<Rightarrow> 'w registry" where
  "ObserveLatency r name ms = r\<lparr>rg_hist := AList.update name (hist_observe (hist_of r name) ms) (rg_hist r)\<rparr>"

subsection \<open>Rendering\<close>

abbreviation newline :: string where "newline \<equiv> [CHR 0x0A]"

definition type_line :: "string \<Rightarrow> string \<Rightarrow> string" where
  "type_line name kind = ''# TYPE '' @ name @ '' '' @ kind @ newline"

text \<open>The loop over the buckets, with the running sum.\<close>

fun bucket_lines :: "(f64 \<Rightarrow> string) \<Rightarrow> string \<Rightarrow> f64 list \<Rightarrow> u64 list \<Rightarrow> u64 \<Rightarrow> string" where
  "bucket_lines fmt_g name (b # bs) (c # cs) cum =
     name @ ''_bucket{le='' @ [CHR 0x22] @ fmt_g b @ [CHR 0x22] @ ''} '' @ format_uint (unat (cum + c)) @ newline
     @ bucket_lines fmt_g name bs cs (cum + c)"
| "bucket_lines fmt_g name [] (c # cs) cum =
     name @ ''_bucket{le='' @ [CHR 0x22] @ ''+Inf'' @ [CHR 0x22] @ ''} '' @ format_uint (unat (cum + c)) @ newline"
| "bucket_lines fmt_g name bs [] cum = []"

definition hist_render :: "(f64 \<Rightarrow> string) \<Rightarrow> string \<Rightarrow> histogram \<Rightarrow> string" where
  "hist_render fmt_g name h =
     type_line name ''histogram'' @ bucket_lines fmt_g name (hg_bounds h) (hg_counts h) 0 @
     name @ ''_sum '' @ fmt_g (hg_sum h) @ newline @
     name @ ''_count '' @ format_uint (unat (hg_total h)) @ newline"

definition Render :: "(f64 \<Rightarrow> string) \<Rightarrow> 'w \<Rightarrow> 'w registry \<Rightarrow> string" where
  "Render fmt_g w r =
     concat (map (\<lambda>n. type_line n ''counter'' @ n @ '' '' @ format_uint (unat (counter r n)) @ newline)
               (sort (map fst (rg_counters r)))) @
     concat (map (\<lambda>n. type_line n ''gauge'' @ n @ '' '' @
                      (case map_of (rg_gauges r) n of Some f \<Rightarrow> fmt_g (f w) | None \<Rightarrow> []) @ newline)
               (sort (map fst (rg_gauges r)))) @
     concat (map (\<lambda>n. hist_render fmt_g n (hist_of r n)) (sort (map fst (rg_hist r))))"

subsection \<open>Counters\<close>

lemma counter_Add: "counter (AddCounter r name n) m = counter r m + (if m = name then n else 0)"
  by (simp add: counter_def AddCounter_def update_conv')

text \<open>
  Counters count: after any sequence of additions a counter is its initial value plus the sum of
  what was added under its name (modulo 2 to the 64), and additions to other names do not touch it.
\<close>

theorem counters_add_up:
  "counter (foldl (\<lambda>r (name, n). AddCounter r name n) r adds) m
     = counter r m + sum_list (map snd (filter (\<lambda>(name, n). name = m) adds))"
  by (induction adds arbitrary: r) (auto simp: counter_Add)

subsection \<open>Histograms\<close>

definition cumulative :: "histogram \<Rightarrow> nat \<Rightarrow> u64" where
  "cumulative h i = sum_list (take (Suc i) (hg_counts h))"

definition hist_ok :: "histogram \<Rightarrow> bool" where
  "hist_ok h \<longleftrightarrow> sorted (hg_bounds h) \<and> length (hg_counts h) = Suc (length (hg_bounds h))"

lemma newHistogram_ok: "hist_ok newHistogram"
  by (simp add: hist_ok_def newHistogram_def)

lemma newHistogram_zero: "hg_total newHistogram = 0" "hg_sum newHistogram = 0"
  by (simp_all add: newHistogram_def Let_def)

lemma newHistogram_cumulative: "cumulative newHistogram i = 0"
  unfolding cumulative_def newHistogram_def Let_def by (simp only: histogram.simps take_replicate sum_list_replicate mult_zero_right)

lemma hist_observe_fields [simp]:
  "hg_bounds (hist_observe h v) = hg_bounds h" "hg_total (hist_observe h v) = hg_total h + 1"
  "hg_sum (hist_observe h v) = hg_sum h + v" "length (hg_counts (hist_observe h v)) = length (hg_counts h)"
  by (simp_all add: hist_observe_def Let_def)

lemma hist_observe_ok: "hist_ok h \<Longrightarrow> hist_ok (hist_observe h v)"
  by (simp add: hist_ok_def)

lemma SearchFloat64s_spec:
  assumes "sorted a"
  shows "SearchFloat64s a x \<le> length a" "k < length a \<Longrightarrow> x \<le> a ! k \<longleftrightarrow> SearchFloat64s a x \<le> k"
proof -
  have mono: "\<And>i j. i \<le> j \<Longrightarrow> j < length a \<Longrightarrow> a ! i \<ge> x \<Longrightarrow> a ! j \<ge> x"
    using assms by (meson order_trans sorted_nth_mono)
  show "SearchFloat64s a x \<le> length a" "k < length a \<Longrightarrow> x \<le> a ! k \<longleftrightarrow> SearchFloat64s a x \<le> k"
    unfolding SearchFloat64s_def using sort_Search_spec [of "length a" "\<lambda>i. a ! i \<ge> x"] mono by blast+
qed

lemma sum_list_bump:
  fixes cs :: "u64 list"
  assumes "i < length cs"
  shows "sum_list (take n (cs[i := cs ! i + 1])) = sum_list (take n cs) + (if i < n then 1 else 0)"
  using assms
proof (induction cs arbitrary: i n)
  case (Cons c cs)
  then show ?case by (cases i; cases n) (simp_all add: add_ac)
qed simp

lemma cumulative_observe:
  assumes "hist_ok h" "i \<le> length (hg_bounds h)"
  shows "cumulative (hist_observe h v) i =
    cumulative h i + (if i = length (hg_bounds h) \<or> v \<le> hg_bounds h ! i then 1 else 0)"
proof -
  have s: "sorted (hg_bounds h)" "length (hg_counts h) = Suc (length (hg_bounds h))"
    using assms(1) by (simp_all add: hist_ok_def)
  let ?k = "SearchFloat64s (hg_bounds h) v"
  have "?k < length (hg_counts h)" using SearchFloat64s_spec(1) [OF s(1), of v] s(2) by simp
  then have "cumulative (hist_observe h v) i = cumulative h i + (if ?k < Suc i then 1 else 0)"
    by (simp add: cumulative_def hist_observe_def Let_def sum_list_bump)
  moreover have "?k < Suc i \<longleftrightarrow> i = length (hg_bounds h) \<or> v \<le> hg_bounds h ! i"
    using SearchFloat64s_spec(2) [OF s(1), of i v] SearchFloat64s_spec(1) [OF s(1), of v] assms(2)
    by (cases "i = length (hg_bounds h)") auto
  ultimately show ?thesis by simp
qed

text \<open>
  The buckets are cumulative counts: after observing any values the count rendered for the bound
  \<open>b\<close> is the number of values at most \<open>b\<close>, the one for \<open>+Inf\<close> and the total are the number of all
  values (modulo 2 to the 64), and the sum is their sum. The binary search never leaves the table.
\<close>

theorem histogram_counts:
  assumes "h = foldl hist_observe newHistogram vs"
  shows "(\<forall>i < length (hg_bounds h).
           cumulative h i = of_nat (length (filter (\<lambda>v. v \<le> hg_bounds h ! i) vs))) \<and>
    cumulative h (length (hg_bounds h)) = of_nat (length vs) \<and> hg_total h = of_nat (length vs) \<and>
    hg_sum h = sum_list vs \<and> hg_bounds h = hg_bounds newHistogram"
proof -
  have "hist_ok g \<Longrightarrow> h' = foldl hist_observe g vs \<Longrightarrow> hg_bounds h' = hg_bounds g \<and>
      hg_total h' = hg_total g + of_nat (length vs) \<and> hg_sum h' = hg_sum g + sum_list vs \<and>
      (\<forall>i \<le> length (hg_bounds g). cumulative h' i = cumulative g i +
         of_nat (length (filter (\<lambda>v. i = length (hg_bounds g) \<or> v \<le> hg_bounds g ! i) vs)))" for g h'
  proof (induction vs arbitrary: g)
    case (Cons v vs)
    from Cons.IH [OF hist_observe_ok [OF Cons.prems(1)]] Cons.prems show ?case
      by (auto simp: cumulative_observe)
  qed simp
  from this [OF newHistogram_ok assms] show ?thesis
    by (auto simp: newHistogram_cumulative newHistogram_zero)
qed

theorem histogram_counts_witness:
  "cumulative (foldl hist_observe newHistogram [3, 7, 5000, 9000]) 1 = 1 \<and>
   hg_total (foldl hist_observe newHistogram [3, 7, 5000, 9000]) = 4"
  using histogram_counts [OF refl, of "[3, 7, 5000, 9000]"] by (simp add: newHistogram_def)

end
