(* ===== verification/Interfaces.thy ===== *)
theory Interfaces
  imports LogModel
begin

text \<open>
  The Go interfaces through which the components see each other, as locales: the operations
  are the parameters, and the laws are what the callers rely on.
  \<^item> \<open>batch_sink\<close>: \<open>writer.Store\<close>, what the batch writer flushes into; \<open>reliable_sink\<close> is one
    that reports no errors.
  \<^item> \<open>log_source\<close>: the part \<open>Since\<close> of \<open>store.LogStore\<close> that the workers poll.
  \<^item> \<open>tenant_reader\<close>: the parts \<open>Search\<close> and \<open>Get\<close> of \<open>store.LogStore\<close> that the query layer reads.
  \<^item> \<open>vector_index\<close>: \<open>vector.Store\<close>.
  Each is interpreted on the in-memory implementation in the theory of that component.
\<close>

subsection \<open>writer.Store\<close>

locale batch_sink =
  fixes sink_write :: "'s \<Rightarrow> log_entry list \<Rightarrow> 's \<times> err option"
    and persisted :: "'s \<Rightarrow> log_entry list"
    and sink_ok :: "'s \<Rightarrow> bool"
  assumes write_keeps: "sink_ok s \<Longrightarrow> sink_write s b = (s', r) \<Longrightarrow> sink_ok s'"
    and write_done: "sink_ok s \<Longrightarrow> sink_write s b = (s', None) \<Longrightarrow>
      persisted s' = persisted s @ filter Redacted b"
    and write_failed: "sink_ok s \<Longrightarrow> sink_write s b = (s', Some e) \<Longrightarrow> persisted s' = persisted s"
begin

lemma write_redacted:
  assumes "sink_ok s" "sink_write s b = (s', r)" "list_all Redacted (persisted s)"
  shows "list_all Redacted (persisted s')"
  using assms write_done write_failed by (cases r) (auto simp: list_all_iff)

end

locale reliable_sink = batch_sink sink_write persisted sink_ok
  for sink_write :: "'s \<Rightarrow> log_entry list \<Rightarrow> 's \<times> err option"
    and persisted :: "'s \<Rightarrow> log_entry list"
    and sink_ok :: "'s \<Rightarrow> bool" +
  assumes write_reliable: "sink_ok s \<Longrightarrow> snd (sink_write s b) = None"
begin

lemma write_persists:
  "sink_ok s \<Longrightarrow> persisted (fst (sink_write s b)) = persisted s @ filter Redacted b"
  using write_done [of s b "fst (sink_write s b)"] write_reliable [of s b] by (metis prod.collapse)

lemma write_fst_keeps: "sink_ok s \<Longrightarrow> sink_ok (fst (sink_write s b))"
  using write_keeps [of s b "fst (sink_write s b)"] by (metis prod.collapse)

end

subsection \<open>store.LogStore\<close>

record query =
  q_TenantID :: string
  q_Service :: string
  q_Level :: string
  q_Contains :: string
  q_Since :: instant
  q_Until :: instant
  q_Limit :: int

definition since_limit :: "int \<Rightarrow> nat" where
  "since_limit n = (if n \<le> 0 then 500 else nat n)"

lemma since_limit_pos: "0 < since_limit n"
  by (simp add: since_limit_def)

locale log_source =
  fixes since :: "'s \<Rightarrow> u64 \<Rightarrow> int \<Rightarrow> err + stored_entry list"
    and contents :: "'s \<Rightarrow> stored_entry list"
    and source_ok :: "'s \<Rightarrow> bool"
  assumes since_reads: "source_ok s \<Longrightarrow>
      since s a n = Inr (take (since_limit n) (filter (\<lambda>x. a < ID x) (contents s)))"
    and ids_ascend: "source_ok s \<Longrightarrow> sorted_wrt (\<lambda>x y. ID x < ID y) (contents s)"
    and ids_positive: "source_ok s \<Longrightarrow> x \<in> set (contents s) \<Longrightarrow> 0 < ID x"
begin

text \<open>What lies behind a checkpoint is a suffix, so a poll reads the next entries in order.\<close>

lemma behind_suffix:
  assumes "sorted_wrt (\<lambda>x y. ID x < ID y) xs"
  shows "filter (\<lambda>x. a < ID x) xs = dropWhile (\<lambda>x. \<not> a < ID x) xs"
  using assms
proof (induction xs)
  case (Cons x xs)
  then show ?case
  proof (cases "a < ID x")
    case True
    with Cons.prems have "\<forall>y \<in> set xs. a < ID y" by fastforce
    with True show ?thesis by simp
  qed simp
qed simp

lemma poll_empty_iff:
  "source_ok s \<Longrightarrow> since s a n = Inr [] \<longleftrightarrow> (\<forall>x \<in> set (contents s). ID x \<le> a)"
  using since_limit_pos [of n]
  by (auto simp: since_reads filter_empty_conv not_less)

text \<open>Advancing the checkpoint to the last entry read leaves exactly the entries not yet read.\<close>

lemma advance_checkpoint:
  assumes "source_ok s" "since s a n = Inr es" "es \<noteq> []"
  shows "filter (\<lambda>x. a < ID x) (contents s) = es @ filter (\<lambda>x. ID (last es) < ID x) (contents s)"
    and "a < ID (last es)"
    and "es = filter (\<lambda>x. a < ID x \<and> ID x \<le> ID (last es)) (contents s)"
proof -
  define behind where "behind = filter (\<lambda>x. a < ID x) (contents s)"
  define rest where "rest = drop (since_limit n) behind"
  have split: "behind = es @ rest"
    using assms(1,2) append_take_drop_id [of "since_limit n" behind]
    by (simp add: since_reads behind_def rest_def)
  have sorted: "sorted_wrt (\<lambda>x y. ID x < ID y) behind"
    unfolding behind_def using ids_ascend [OF assms(1)] by (rule sorted_wrt_filter)
  have es: "es = butlast es @ [last es]" using assms(3) by simp
  have "\<forall>x \<in> set behind. a < ID x" by (simp add: behind_def)
  with split assms(3) show last: "a < ID (last es)" by auto
  have le: "\<forall>x \<in> set es. ID x \<le> ID (last es)" and gt: "\<forall>x \<in> set rest. ID (last es) < ID x"
  proof -
    have "sorted_wrt (\<lambda>x y. ID x < ID y) (butlast es @ [last es] @ rest)"
      using sorted split es by (metis append.assoc)
    then show "\<forall>x \<in> set es. ID x \<le> ID (last es)" "\<forall>x \<in> set rest. ID (last es) < ID x"
      by (subst es, auto simp: sorted_wrt_append) 
  qed
  have "filter (\<lambda>x. ID x \<le> ID (last es)) behind = es"
    using split le gt by (auto simp: filter_empty_conv filter_id_conv)
  then show "es = filter (\<lambda>x. a < ID x \<and> ID x \<le> ID (last es)) (contents s)"
    by (simp add: behind_def conj_commute)
  have "filter (\<lambda>x. ID (last es) < ID x) behind = rest"
    using split le gt by (auto simp: filter_empty_conv filter_id_conv not_less)
  moreover have "filter (\<lambda>x. ID (last es) < ID x) behind
      = filter (\<lambda>x. ID (last es) < ID x) (contents s)"
    using last by (auto simp: behind_def intro!: filter_cong)
  ultimately show "filter (\<lambda>x. a < ID x) (contents s) = es @ filter (\<lambda>x. ID (last es) < ID x) (contents s)"
    using split by (simp add: behind_def)
qed

end

locale tenant_reader =
  fixes search :: "'s \<Rightarrow> query \<Rightarrow> err + stored_entry list"
    and get :: "'s \<Rightarrow> string \<Rightarrow> u64 \<Rightarrow> stored_entry option"
    and contents :: "'s \<Rightarrow> stored_entry list"
    and source_ok :: "'s \<Rightarrow> bool"
  assumes search_scoped: "source_ok s \<Longrightarrow> search s q = Inr xs \<Longrightarrow> x \<in> set xs \<Longrightarrow>
      x \<in> set (contents s) \<and> TenantID (LogEntry x) = q_TenantID q"
    and search_closed: "source_ok s \<Longrightarrow> q_TenantID q = [] \<Longrightarrow> search s q = Inr []"
    and get_scoped: "source_ok s \<Longrightarrow>
      get s t i = Some x \<longleftrightarrow> x \<in> set (contents s) \<and> ID x = i \<and> TenantID (LogEntry x) = t"

subsection \<open>vector.Store\<close>

record item =
  it_TenantID :: string
  it_Ref :: string
  it_SourceType :: string
  it_Vec :: "f32 list"
  it_Version :: string

record hit =
  h_Item :: item
  h_Score :: f32

text \<open>
  \<open>part v t\<close> is the partition of tenant \<open>t\<close>, in insertion order. The laws of \<open>upsert\<close> hold for
  tenant names without NUL bytes, which the index uses as the separator of its keys.
\<close>

locale vector_index =
  fixes upsert :: "'v \<Rightarrow> item \<Rightarrow> 'v"
    and vsearch :: "'v \<Rightarrow> string \<Rightarrow> f32 list \<Rightarrow> int \<Rightarrow> hit list"
    and part :: "'v \<Rightarrow> string \<Rightarrow> item list"
    and index_ok :: "'v \<Rightarrow> bool"
  assumes upsert_keeps: "index_ok v \<Longrightarrow> NUL \<notin> set (it_TenantID it) \<Longrightarrow> index_ok (upsert v it)"
    and upsert_part: "index_ok v \<Longrightarrow> NUL \<notin> set (it_TenantID it) \<Longrightarrow>
      part (upsert v it) =
        (if it_TenantID it = [] \<or> it_Ref it = [] \<or>
            it_Ref it \<in> it_Ref ` set (part v (it_TenantID it)) then part v
         else (part v)(it_TenantID it := part v (it_TenantID it) @ [it]))"
    and search_part: "part v t = part v' t \<Longrightarrow> vsearch v t q k = vsearch v' t q k"
    and search_in: "h \<in> set (vsearch v t q k) \<Longrightarrow> h_Item h \<in> set (part v t)"
    and search_closed: "vsearch v [] q k = []"
    and part_tenant: "index_ok v \<Longrightarrow> it \<in> set (part v t) \<Longrightarrow> it_TenantID it = t"
begin

lemma upserts_keep:
  "index_ok v \<Longrightarrow> list_all (\<lambda>it. NUL \<notin> set (it_TenantID it)) its \<Longrightarrow> index_ok (foldl upsert v its)"
  by (induction its arbitrary: v) (auto intro: upsert_keeps)

text \<open>Inserting items with new references appends them to their partitions.\<close>

lemma upserts_append:
  assumes "index_ok v" "list_all (\<lambda>it. NUL \<notin> set (it_TenantID it) \<and> it_TenantID it \<noteq> [] \<and> it_Ref it \<noteq> []) its"
    and "distinct (map it_Ref its)" "\<forall>it \<in> set its. \<forall>t. it_Ref it \<notin> it_Ref ` set (part v t)"
  shows "part (foldl upsert v its) t = part v t @ filter (\<lambda>it. it_TenantID it = t) its"
  using assms
proof (induction its arbitrary: v)
  case (Cons it its)
  have p: "part (upsert v it) = (part v)(it_TenantID it := part v (it_TenantID it) @ [it])"
    using Cons.prems by (simp add: upsert_part)
  have "part (foldl upsert (upsert v it) its) t = part (upsert v it) t @ filter (\<lambda>it. it_TenantID it = t) its"
  proof (rule Cons.IH)
    show "\<forall>x \<in> set its. \<forall>t. it_Ref x \<notin> it_Ref ` set (part (upsert v it) t)"
      using Cons.prems(3,4) by (auto simp: p intro: rev_image_eqI)
  qed (use Cons.prems upsert_keeps in auto)
  then show ?case by (simp add: p)
qed simp

text \<open>What other tenants insert does not change a tenant's partition.\<close>

lemma upserts_isolated:
  assumes "index_ok v" "index_ok v'" "part v t = part v' t"
    and "list_all (\<lambda>it. NUL \<notin> set (it_TenantID it)) its"
  shows "part (foldl upsert v its) t = part (foldl upsert v' (filter (\<lambda>it. it_TenantID it = t) its)) t"
  using assms
proof (induction its arbitrary: v v')
  case (Cons it its)
  then have nul: "NUL \<notin> set (it_TenantID it)" "list_all (\<lambda>it. NUL \<notin> set (it_TenantID it)) its"
    by auto
  show ?case
  proof (cases "it_TenantID it = t")
    case True
    have "part (upsert v it) t = part (upsert v' it) t"
      using Cons.prems nul(1) True by (simp add: upsert_part)
    with Cons.IH [OF upsert_keeps upsert_keeps this nul(2)] Cons.prems nul(1) True
    show ?thesis by simp
  next
    case False
    have "part (upsert v it) t = part v' t"
      using Cons.prems nul(1) False by (simp add: upsert_part)
    with Cons.IH [OF upsert_keeps _ this nul(2)] Cons.prems nul(1) False
    show ?thesis by simp
  qed
qed simp

lemma search_isolated:
  assumes "index_ok v" "list_all (\<lambda>it. NUL \<notin> set (it_TenantID it)) its"
  shows "vsearch (foldl upsert v its) t q k
       = vsearch (foldl upsert v (filter (\<lambda>it. it_TenantID it = t) its)) t q k"
  by (rule search_part, rule upserts_isolated [OF assms(1,1) refl assms(2)])

lemma search_scoped:
  "index_ok v \<Longrightarrow> h \<in> set (vsearch v t q k) \<Longrightarrow> it_TenantID (h_Item h) = t"
  by (rule part_tenant [OF _ search_in])

lemma upsert_idem:
  assumes "index_ok v" "NUL \<notin> set (it_TenantID it)"
  shows "part (upsert (upsert v it) it) = part (upsert v it)"
  using assms upsert_part [OF upsert_keeps [OF assms] assms(2)] by (auto simp: upsert_part)

end

end
