(* ===== verification/Writer.thy ===== *)
theory Writer
  imports Interfaces
begin

text \<open>
  Package \<open>internal/writer\<close>: the batch writer. \<open>Run\<close> is a select loop; its state is the batch
  and the phase (the outer loop, the inner drain loop after the context is cancelled, or
  returned), and each arm of a select is an operation on it. The store behind the writer is an
  interface in the code, so its \<open>WriteBatch\<close> is an argument here. Which arm runs is decided in
  theory \<open>Pipeline\<close>. Logging and the time limit of a flush are left out.
\<close>

datatype wphase = Running | Draining | Exited

record 's bwriter =
  w_store :: 's
  w_size :: int
  w_interval :: duration
  w_batch :: "log_entry list"
  w_phase :: wphase

text \<open>\<open>NewBatch\<close> and the entry into \<open>Run\<close>: \<open>make\<close> panics on a negative capacity and
  \<open>NewTicker\<close> on an interval that is not positive.\<close>

definition writer_start :: "'s \<Rightarrow> int \<Rightarrow> duration \<Rightarrow> 's bwriter option" where
  "writer_start s n interval =
     (if n < 0 \<or> interval \<le> 0 then None
      else Some \<lparr>w_store = s, w_size = n, w_interval = interval, w_batch = [], w_phase = Running\<rparr>)"

text \<open>\<open>flush\<close>: a failed write is logged and its entries are dropped.\<close>

definition flush ::
  "('s \<Rightarrow> log_entry list \<Rightarrow> 's \<times> err option) \<Rightarrow> 's bwriter \<Rightarrow> 's bwriter" where
  "flush wr w =
     (if w_batch w = [] then w
      else (case wr (w_store w) (w_batch w) of (s, _) \<Rightarrow> w\<lparr>w_store := s, w_batch := []\<rparr>))"

definition appendGuarded :: "log_entry list \<Rightarrow> log_entry \<Rightarrow> log_entry list" where
  "appendGuarded batch e = (if \<not> Redacted e then batch else batch @ [e])"

text \<open>The arm that received an entry, the same in both loops.\<close>

definition on_entry ::
  "('s \<Rightarrow> log_entry list \<Rightarrow> 's \<times> err option) \<Rightarrow> 's bwriter \<Rightarrow> log_entry \<Rightarrow> 's bwriter" where
  "on_entry wr w e =
     (let w' = w\<lparr>w_batch := appendGuarded (w_batch w) e\<rparr> in
      if int (length (w_batch w')) \<ge> w_size w' then flush wr w' else w')"

text \<open>The arms that return: the channel is closed, or the drain finds it empty.\<close>

definition on_finish ::
  "('s \<Rightarrow> log_entry list \<Rightarrow> 's \<times> err option) \<Rightarrow> 's bwriter \<Rightarrow> 's bwriter" where
  "on_finish wr w = (flush wr w)\<lparr>w_phase := Exited\<rparr>"

definition on_cancelled :: "'s bwriter \<Rightarrow> 's bwriter" where
  "on_cancelled w = w\<lparr>w_phase := Draining\<rparr>"

text \<open>\<open>StubStore\<close>, the store that only prints, and its \<open>firstService\<close>.\<close>

definition firstService :: "log_entry list \<Rightarrow> string" where
  "firstService b = (case b of [] \<Rightarrow> ''-'' | e # _ \<Rightarrow> Service e)"

definition stub_WriteBatch :: "unit \<Rightarrow> log_entry list \<Rightarrow> unit \<times> err option" where
  "stub_WriteBatch s batch = (s, None)"

lemma flush_fields [simp]:
  "w_batch (flush wr w) = []" "w_size (flush wr w) = w_size w" "w_phase (flush wr w) = w_phase w"
  "w_interval (flush wr w) = w_interval w"
  by (simp_all add: flush_def split: prod.split)

lemma on_entry_fields [simp]:
  "w_size (on_entry wr w e) = w_size w" "w_phase (on_entry wr w e) = w_phase w"
  "w_interval (on_entry wr w e) = w_interval w"
  by (simp_all add: on_entry_def Let_def)

lemma on_finish_fields [simp]:
  "w_batch (on_finish wr w) = []" "w_size (on_finish wr w) = w_size w"
  "w_phase (on_finish wr w) = Exited" "w_store (on_finish wr w) = w_store (flush wr w)"
  by (simp_all add: on_finish_def)

lemma on_cancelled_fields [simp]:
  "w_batch (on_cancelled w) = w_batch w" "w_size (on_cancelled w) = w_size w"
  "w_phase (on_cancelled w) = Draining" "w_store (on_cancelled w) = w_store w"
  by (simp_all add: on_cancelled_def)

text \<open>What the writer has taken: nothing unredacted, and less than a full batch.\<close>

definition writer_ok :: "'s bwriter \<Rightarrow> bool" where
  "writer_ok w \<longleftrightarrow> list_all Redacted (w_batch w) \<and>
     (1 \<le> w_size w \<longrightarrow> int (length (w_batch w)) < w_size w)"

lemma flush_ok [preserves]: "writer_ok (flush wr w)"
  by (simp add: writer_ok_def)

lemma on_entry_ok [preserves]: "writer_ok w \<Longrightarrow> writer_ok (on_entry wr w e)"
  by (auto simp: writer_ok_def on_entry_def appendGuarded_def Let_def)

lemma on_finish_ok [preserves]: "writer_ok (on_finish wr w)"
  by (simp add: writer_ok_def)

context reliable_sink
begin

text \<open>What has reached the writer and passed its guard: persisted, or waiting in the batch.\<close>

lemma flush_keeps_taken:
  assumes "sink_ok (w_store w)" "writer_ok w"
  shows "sink_ok (w_store (flush sink_write w))"
    and "persisted (w_store (flush sink_write w)) = persisted (w_store w) @ w_batch w"
proof -
  have "filter Redacted (w_batch w) = w_batch w"
    using assms(2) by (simp add: writer_ok_def filter_id_conv list_all_iff)
  with write_persists [OF assms(1), of "w_batch w"] write_fst_keeps [OF assms(1), of "w_batch w"] assms(1)
  show "sink_ok (w_store (flush sink_write w))"
    and "persisted (w_store (flush sink_write w)) = persisted (w_store w) @ w_batch w"
    by (auto simp: flush_def split: prod.split)
qed

lemma on_entry_takes:
  assumes "sink_ok (w_store w)" "writer_ok w"
  shows "sink_ok (w_store (on_entry sink_write w e))"
    and "persisted (w_store (on_entry sink_write w e)) @ w_batch (on_entry sink_write w e)
       = persisted (w_store w) @ w_batch w @ filter Redacted [e]"
proof -
  let ?w = "w\<lparr>w_batch := appendGuarded (w_batch w) e\<rparr>"
  have batch: "filter Redacted (w_batch ?w) = w_batch ?w"
    using assms(2) by (auto simp: writer_ok_def appendGuarded_def filter_id_conv list_all_iff)
  have flush: "sink_ok (w_store (flush sink_write ?w))"
    "persisted (w_store (flush sink_write ?w)) = persisted (w_store w) @ w_batch ?w"
    using write_persists [of "w_store w" "w_batch ?w"] write_fst_keeps [of "w_store w" "w_batch ?w"]
      assms(1) batch by (auto simp: flush_def split: prod.split)
  show "sink_ok (w_store (on_entry sink_write w e))"
    using flush(1) assms(1) by (simp add: on_entry_def Let_def)
  show "persisted (w_store (on_entry sink_write w e)) @ w_batch (on_entry sink_write w e)
       = persisted (w_store w) @ w_batch w @ filter Redacted [e]"
    using flush(2) by (simp add: on_entry_def Let_def) (simp add: appendGuarded_def)
qed

end

end
