(* ===== verification/Buffer.thy ===== *)
theory Buffer
  imports LogModel
begin

text \<open>
  Package \<open>internal/buffer\<close>: the bounded channel between the ingest handlers and the writer.
  The channel is its queue, its capacity and whether it is closed. A panic (a send on a closed
  channel, a second \<open>close\<close>, \<open>make\<close> with a negative size) is \<open>None\<close>. The channel is modelled as
  a buffered one: with capacity 0 Go hands an entry over only to a receiver that is already
  waiting, and the model sheds it.
\<close>

record buffer =
  ch :: "log_entry list"
  ch_cap :: nat
  ch_closed :: bool
  accepted :: u64
  shed :: u64

definition NewBuffer :: "int \<Rightarrow> buffer option" where
  "NewBuffer n =
     (if n < 0 then None
      else Some \<lparr>ch = [], ch_cap = nat n, ch_closed = False, accepted = 0, shed = 0\<rparr>)"

text \<open>\<open>Publish\<close>: the error it returns (\<open>None\<close> for nil) and the buffer after it.\<close>

definition Publish :: "buffer \<Rightarrow> log_entry \<Rightarrow> (err option \<times> buffer) option" where
  "Publish b e =
     (if ch_closed b then None
      else if length (ch b) < ch_cap b
      then Some (None, b\<lparr>ch := ch b @ [e], accepted := accepted b + 1\<rparr>)
      else Some (Some ErrFull, b\<lparr>shed := shed b + 1\<rparr>))"

text \<open>Receiving from \<open>Consume()\<close>: an entry, the closed and drained channel, or nothing ready.\<close>

datatype received = Got log_entry | Closed | NotReady

definition receive :: "buffer \<Rightarrow> received \<times> buffer" where
  "receive b =
     (case ch b of
        e # es \<Rightarrow> (Got e, b\<lparr>ch := es\<rparr>)
      | [] \<Rightarrow> (if ch_closed b then Closed else NotReady, b))"

definition CloseBuffer :: "buffer \<Rightarrow> buffer option" where
  "CloseBuffer b = (if ch_closed b then None else Some (b\<lparr>ch_closed := True\<rparr>))"

definition Depth :: "buffer \<Rightarrow> nat" where "Depth b = length (ch b)"

definition Cap :: "buffer \<Rightarrow> nat" where "Cap b = ch_cap b"

definition Accepted :: "buffer \<Rightarrow> u64" where "Accepted b = accepted b"

definition Shed :: "buffer \<Rightarrow> u64" where "Shed b = shed b"

definition buffer_ok :: "buffer \<Rightarrow> bool" where
  "buffer_ok b \<longleftrightarrow> length (ch b) \<le> ch_cap b"

lemma NewBuffer_ok [preserves]: "NewBuffer n = Some b \<Longrightarrow> buffer_ok b"
  by (auto simp: NewBuffer_def buffer_ok_def split: if_splits)

lemma Publish_ok [preserves]: "buffer_ok b \<Longrightarrow> Publish b e = Some (r, b') \<Longrightarrow> buffer_ok b'"
  by (auto simp: Publish_def buffer_ok_def split: if_splits)

lemma receive_ok [preserves]: "buffer_ok b \<Longrightarrow> receive b = (r, b') \<Longrightarrow> buffer_ok b'"
  by (auto simp: receive_def buffer_ok_def split: list.splits if_splits)

lemma Publish_cases:
  assumes "Publish b e = Some (r, b')"
  obtains "r = None" "length (ch b) < ch_cap b" "b' = b\<lparr>ch := ch b @ [e], accepted := accepted b + 1\<rparr>"
      "\<not> ch_closed b"
  | "r = Some ErrFull" "ch_cap b \<le> length (ch b)" "b' = b\<lparr>shed := shed b + 1\<rparr>" "\<not> ch_closed b"
  using assms by (auto simp: Publish_def split: if_splits)

lemma Publish_keeps_open: "Publish b x = Some (r, b') \<Longrightarrow> ch_closed b' = ch_closed b"
  by (auto elim!: Publish_cases)

lemma Publish_None_iff: "Publish b x = None \<longleftrightarrow> ch_closed b"
  by (simp add: Publish_def)

lemma receive_Got_iff:
  "receive b = (Got e, b') \<longleftrightarrow> (\<exists>es. ch b = e # es \<and> b' = b\<lparr>ch := es\<rparr>)"
  by (auto simp: receive_def split: list.split)

lemma receive_Closed_iff: "receive b = (Closed, b') \<longleftrightarrow> ch b = [] \<and> ch_closed b \<and> b' = b"
  by (cases "ch b") (auto simp: receive_def)

lemma receive_NotReady_iff: "receive b = (NotReady, b') \<longleftrightarrow> ch b = [] \<and> \<not> ch_closed b \<and> b' = b"
  by (cases "ch b") (auto simp: receive_def)

lemmas receive_iffs = receive_Got_iff receive_Closed_iff receive_NotReady_iff

subsection \<open>The buffer as a bounded queue with two counters\<close>

text \<open>A run of sends and receives, with what was let in, what was shed and what came out.\<close>

datatype buffer_op = Send log_entry | Recv

record buffer_run =
  br_buf :: buffer
  br_in :: "log_entry list"
  br_shed :: nat
  br_out :: "log_entry list"

fun buffer_do :: "buffer_run \<Rightarrow> buffer_op \<Rightarrow> buffer_run" where
  "buffer_do s (Send e) =
     (case Publish (br_buf s) e of
        None \<Rightarrow> s
      | Some (None, b) \<Rightarrow> s\<lparr>br_buf := b, br_in := br_in s @ [e]\<rparr>
      | Some (Some _, b) \<Rightarrow> s\<lparr>br_buf := b, br_shed := Suc (br_shed s)\<rparr>)"
| "buffer_do s Recv =
     (case receive (br_buf s) of
        (Got e, b) \<Rightarrow> s\<lparr>br_buf := b, br_out := br_out s @ [e]\<rparr>
      | _ \<Rightarrow> s)"

definition buffer_start :: "buffer \<Rightarrow> buffer_run" where
  "buffer_start b = \<lparr>br_buf = b, br_in = [], br_shed = 0, br_out = []\<rparr>"

definition buffer_inv :: "nat \<Rightarrow> buffer_run \<Rightarrow> bool" where
  "buffer_inv n s \<longleftrightarrow>
     br_in s = br_out s @ ch (br_buf s) \<and> length (ch (br_buf s)) \<le> n \<and> ch_cap (br_buf s) = n \<and>
     Accepted (br_buf s) = of_nat (length (br_in s)) \<and> Shed (br_buf s) = of_nat (br_shed s)"

lemma buffer_do_inv: "buffer_inv n s \<Longrightarrow> buffer_inv n (buffer_do s x)"
proof (cases x)
  case (Send e)
  assume "buffer_inv n s"
  with Send show ?thesis
    by (auto simp: buffer_inv_def Publish_def Accepted_def Shed_def)
next
  case Recv
  assume "buffer_inv n s"
  with Recv show ?thesis
    by (auto simp: buffer_inv_def receive_def Accepted_def Shed_def split: list.split)
qed

text \<open>
  The buffer is a bounded first-in first-out queue that sheds: after any sequence of sends
  and receives on a new buffer of size \<open>n\<close>, what was let in is what came out followed by what
  is queued, in order and without loss or duplicates, at most \<open>n\<close> entries are queued, and the
  two counters are the numbers of accepted and of shed entries (modulo 2 to the 64).
\<close>

theorem buffer_run_fifo:
  assumes "NewBuffer (int n) = Some b" and "s = foldl buffer_do (buffer_start b) ops"
  shows "br_in s = br_out s @ ch (br_buf s) \<and> Depth (br_buf s) \<le> n \<and>
         Accepted (br_buf s) = of_nat (length (br_in s)) \<and> Shed (br_buf s) = of_nat (br_shed s)"
proof -
  have "buffer_inv n (foldl buffer_do s0 ops)" if "buffer_inv n s0" for s0
    using that by (induction ops arbitrary: s0) (simp_all add: buffer_do_inv)
  moreover have "buffer_inv n (buffer_start b)"
    using assms(1) by (auto simp: NewBuffer_def buffer_start_def buffer_inv_def Accepted_def Shed_def)
  ultimately show ?thesis using assms(2) by (simp add: buffer_inv_def Depth_def)
qed

definition buffer_demo :: buffer_run where
  "buffer_demo =
     foldl buffer_do (buffer_start (the (NewBuffer 1)))
       [Send zero_entry, Send (zero_entry\<lparr>Message := ''m''\<rparr>), Recv]"

theorem buffer_run_fifo_witness:
  "br_in buffer_demo = [zero_entry] \<and> br_out buffer_demo = [zero_entry] \<and>
   Shed (br_buf buffer_demo) = 1"
proof -
  have shed: "br_shed buffer_demo = 1" and out: "br_out buffer_demo = [zero_entry]"
    and queue: "ch (br_buf buffer_demo) = []"
    by (simp_all add: buffer_demo_def NewBuffer_def buffer_start_def Publish_def receive_def)
  have "NewBuffer (int 1) = Some (the (NewBuffer 1))" by (simp add: NewBuffer_def)
  from buffer_run_fifo [OF this buffer_demo_def] show ?thesis
    using shed out queue by simp
qed

text \<open>
  Load is shed exactly when the buffer is full, and never by blocking: on an open channel
  \<open>Publish\<close> always returns, with an error if and only if the queue has reached the capacity;
  then the queue is untouched, otherwise the entry is at its end.
\<close>

theorem Publish_sheds_iff_full:
  "\<not> ch_closed b \<Longrightarrow>
   \<exists>r b'. Publish b e = Some (r, b') \<and> (r = Some ErrFull \<longleftrightarrow> Cap b \<le> Depth b) \<and>
          (r = None \<longleftrightarrow> Depth b < Cap b) \<and>
          ch b' = (if r = None then ch b @ [e] else ch b)"
  by (auto simp: Publish_def Cap_def Depth_def)

theorem Publish_sheds_iff_full_witness:
  "\<exists>b'. Publish (the (NewBuffer 0)) zero_entry = Some (Some ErrFull, b')"
  using Publish_sheds_iff_full [of "the (NewBuffer 0)" zero_entry]
  by (auto simp: NewBuffer_def Cap_def Depth_def)

end
