(* ===== verification/Store.thy ===== *)
theory Store
  imports Interfaces
begin

text \<open>
  Package \<open>internal/store\<close>: the in-memory log store. IDs are the positions plus one, kept as
  64-bit words; the theorems that read them back state that the store holds fewer than 2 to
  the 63 entries, more than which a Go slice cannot hold. The context argument, which the code
  ignores, and the locks, under which each operation is one step, are left out; the slice
  \<open>Search\<close> and \<open>Since\<close> allocate for their limit is not modelled.
\<close>

record mem_store =
  entries :: "stored_entry list"
  nextID :: u64
  written :: u64

definition NewMem :: mem_store where
  "NewMem = \<lparr>entries = [], nextID = 0, written = 0\<rparr>"

text \<open>\<open>WriteBatch\<close>: the loop over the batch, skipping entries that are not redacted.\<close>

fun write_entries :: "mem_store \<Rightarrow> log_entry list \<Rightarrow> mem_store" where
  "write_entries s [] = s"
| "write_entries s (e # es) =
     (if \<not> Redacted e then write_entries s es
      else (let i = nextID s + 1 in
            write_entries
              (s\<lparr>nextID := i, entries := entries s @ [\<lparr>ID = i, LogEntry = e\<rparr>],
                 written := written s + 1\<rparr>) es))"

definition WriteBatch :: "mem_store \<Rightarrow> log_entry list \<Rightarrow> mem_store \<times> err option" where
  "WriteBatch s batch = (write_entries s batch, None)"

definition matches :: "unicode_tables \<Rightarrow> stored_entry \<Rightarrow> query \<Rightarrow> bool" where
  "matches u x q =
     (let e = LogEntry x in
      if TenantID e \<noteq> q_TenantID q then False
      else if q_Service q \<noteq> [] \<and> Service e \<noteq> q_Service q then False
      else if q_Level q \<noteq> [] \<and> Level e \<noteq> q_Level q then False
      else if q_Contains q \<noteq> [] \<and>
              \<not> contains (to_lower u (Message e)) (to_lower u (q_Contains q)) then False
      else if q_Since q \<noteq> 0 \<and> Timestamp e < q_Since q then False
      else if q_Until q \<noteq> 0 \<and> q_Until q < Timestamp e then False
      else True)"

definition Search :: "unicode_tables \<Rightarrow> mem_store \<Rightarrow> query \<Rightarrow> err + stored_entry list" where
  "Search u s q =
     (if q_TenantID q = [] then Inr []
      else (let limit = (if q_Limit q \<le> 0 then 100 else nat (q_Limit q)) in
            Inr (scan_back (\<lambda>x. matches u x q) (entries s) limit (length (entries s)) [])))"

text \<open>\<open>Since\<close>: the binary search for the first newer entry, then the copying loop.\<close>

fun copy_from :: "'a list \<Rightarrow> nat \<Rightarrow> nat \<Rightarrow> 'a list \<Rightarrow> 'a list" where
  "copy_from [] limit 0 out = out"
| "copy_from (x # xs) limit 0 out =
     (if length out < limit then copy_from xs limit 0 (out @ [x]) else out)"
| "copy_from xs limit (Suc i) out = copy_from (tl xs) limit i out"

definition Since :: "mem_store \<Rightarrow> u64 \<Rightarrow> int \<Rightarrow> err + stored_entry list" where
  "Since s afterID n =
     (let limit = since_limit n;
          start = sort_Search (length (entries s)) (\<lambda>i. afterID < ID (entries s ! i))
      in Inr (copy_from (entries s) limit start []))"

definition Get :: "mem_store \<Rightarrow> string \<Rightarrow> u64 \<Rightarrow> stored_entry option" where
  "Get s tenantID i =
     (if i = 0 \<or> of_nat (length (entries s)) < i then None
      else (let e = entries s ! unat (i - 1) in
            if TenantID (LogEntry e) \<noteq> tenantID then None else Some e))"

definition Written :: "mem_store \<Rightarrow> u64" where "Written s = written s"

subsection \<open>The abstract log\<close>

text \<open>
  The store stands for the list of log entries it keeps; the IDs add no information. The
  invariant says that they are the positions plus one and that the counters agree.
\<close>

definition abs_log :: "mem_store \<Rightarrow> log_entry list" where
  "abs_log s = map LogEntry (entries s)"

definition with_ids :: "log_entry list \<Rightarrow> stored_entry list" where
  "with_ids es = map (\<lambda>i. \<lparr>ID = of_nat (Suc i), LogEntry = es ! i\<rparr>) [0..<length es]"

definition store_ok :: "mem_store \<Rightarrow> bool" where
  "store_ok s \<longleftrightarrow>
     entries s = with_ids (abs_log s) \<and> list_all Redacted (abs_log s) \<and>
     nextID s = of_nat (length (entries s)) \<and> written s = of_nat (length (entries s))"

definition store_fits :: "mem_store \<Rightarrow> bool" where
  "store_fits s \<longleftrightarrow> length (entries s) < 2 ^ 63"

lemma length_with_ids [simp]: "length (with_ids es) = length es"
  by (simp add: with_ids_def)

lemma length_abs_log: "length (abs_log s) = length (entries s)"
  by (simp add: abs_log_def)

lemma nth_with_ids [simp]:
  "i < length es \<Longrightarrow> with_ids es ! i = \<lparr>ID = of_nat (Suc i), LogEntry = es ! i\<rparr>"
  by (simp add: with_ids_def)

lemma with_ids_append1:
  "with_ids (es @ [e]) = with_ids es @ [\<lparr>ID = of_nat (Suc (length es)), LogEntry = e\<rparr>]"
  by (rule nth_equalityI) (auto simp: nth_append less_Suc_eq)

lemma NewMem_ok [preserves]: "store_ok NewMem"
  by (simp add: store_ok_def NewMem_def abs_log_def with_ids_def)

lemma write_entries_refines:
  "store_ok s \<Longrightarrow> store_ok (write_entries s b) \<and> abs_log (write_entries s b) = abs_log s @ filter Redacted b"
proof (induction s b rule: write_entries.induct)
  case (2 s e es)
  show ?case
  proof (cases "Redacted e")
    case True
    let ?s = "s\<lparr>nextID := nextID s + 1, entries := entries s @ [\<lparr>ID = nextID s + 1, LogEntry = e\<rparr>],
                written := written s + 1\<rparr>"
    have abs: "abs_log ?s = abs_log s @ [e]" by (simp add: abs_log_def)
    have ok: "entries s = with_ids (abs_log s)" "list_all Redacted (abs_log s)"
      "nextID s = of_nat (length (abs_log s))" "written s = of_nat (length (abs_log s))"
      using 2(3) unfolding store_ok_def length_abs_log by blast+
    then have "store_ok ?s"
      using True unfolding store_ok_def abs by (simp add: with_ids_append1 add.commute)
    with 2(2) [OF _ refl] True abs show ?thesis by (simp add: Let_def)
  qed (use 2 in simp)
qed simp

lemma ID_nth:
  assumes "store_ok s" "i < length (entries s)"
  shows "ID (entries s ! i) = of_nat (Suc i)"
proof -
  have "entries s ! i = with_ids (abs_log s) ! i" using assms(1) by (simp add: store_ok_def)
  with assms(2) show ?thesis by (simp add: length_abs_log)
qed

lemma unat_ID_nth:
  assumes "store_ok s" "store_fits s" "i < length (entries s)"
  shows "unat (ID (entries s ! i)) = Suc i"
proof -
  have "Suc i < 2 ^ LENGTH(64)" using assms(2,3) by (simp add: store_fits_def)
  then have "unat (of_nat (Suc i) :: u64) = Suc i"
    unfolding unat_of_nat by (rule mod_less)
  with ID_nth [OF assms(1,3)] show ?thesis by simp
qed

lemma ID_determines:
  assumes "store_ok s" "store_fits s" "x \<in> set (entries s)" "y \<in> set (entries s)" "ID x = ID y"
  shows "x = y"
proof -
  obtain i j where "x = entries s ! i" "i < length (entries s)" "y = entries s ! j" "j < length (entries s)"
    using assms(3,4) by (auto simp: in_set_conv_nth)
  with unat_ID_nth [OF assms(1,2)] assms(5) show ?thesis by (metis Suc_inject)
qed

lemma IDs_ascend:
  assumes "store_ok s" "store_fits s"
  shows "sorted_wrt (\<lambda>x y. ID x < ID y) (entries s)"
  unfolding sorted_wrt_iff_nth_less
  using unat_ID_nth [OF assms] by (simp add: word_less_nat_alt)

lemma copy_from_acc: "length out \<le> n \<Longrightarrow> copy_from xs n i out = take n (out @ drop i xs)"
proof (induction xs n i out rule: copy_from.induct)
  case (3 xs n i out)
  then show ?case by (cases xs) simp_all
qed (auto simp: take_Cons')

lemma Since_reads:
  assumes "store_ok s" "store_fits s"
  shows "Since s a n = Inr (take (since_limit n) (filter (\<lambda>x. a < ID x) (entries s)))"
proof -
  let ?es = "entries s" and ?f = "\<lambda>i. a < ID (entries s ! i)"
  define k where "k = sort_Search (length ?es) ?f"
  have mono: "\<And>i j. i \<le> j \<Longrightarrow> j < length ?es \<Longrightarrow> ?f i \<Longrightarrow> ?f j"
    using unat_ID_nth [OF assms] by (simp add: word_less_nat_alt)
  have k: "k \<le> length ?es" and f: "i < length ?es \<Longrightarrow> ?f i \<longleftrightarrow> k \<le> i" for i
    unfolding k_def using sort_Search_spec [of "length ?es" ?f] mono by blast+
  have "filter (\<lambda>x. a < ID x) (take k ?es) = []"
    using f k by (auto simp: filter_empty_conv in_set_conv_nth)
  moreover have "filter (\<lambda>x. a < ID x) (drop k ?es) = drop k ?es"
    using f k by (auto simp: filter_id_conv in_set_conv_nth)
  ultimately have "filter (\<lambda>x. a < ID x) ?es = drop k ?es"
    by (metis append_Nil append_take_drop_id filter_append)
  then show ?thesis by (simp add: Since_def Let_def copy_from_acc k_def [symmetric])
qed

lemma Get_scoped:
  assumes "store_ok s" "store_fits s"
  shows "Get s t i = Some x \<longleftrightarrow> x \<in> set (entries s) \<and> ID x = i \<and> TenantID (LogEntry x) = t"
proof -
  have len: "unat (of_nat (length (entries s)) :: u64) = length (entries s)"
    using assms(2) by (simp add: store_fits_def unat_of_nat)
  have pos: "(i \<noteq> 0 \<and> \<not> of_nat (length (entries s)) < i) \<longleftrightarrow> 0 < unat i \<and> unat i \<le> length (entries s)"
    using len by (simp add: word_less_nat_alt not_less unat_gt_0)
  show ?thesis
  proof (cases "0 < unat i \<and> unat i \<le> length (entries s)")
    case True
    then have i: "unat (i - 1) = unat i - 1" "unat i - 1 < length (entries s)"
      by (auto simp: unat_gt_0 unat_minus_one intro: less_le_trans [OF diff_less])
    define e where "e = entries s ! (unat i - 1)"
    have e: "e \<in> set (entries s)" "ID e = i"
      using i(2) unat_ID_nth [OF assms i(2)] True
      by (simp_all add: e_def word_unat_eq_iff)
    have "x = e" if "x \<in> set (entries s)" "ID x = i"
      using that unat_ID_nth [OF assms] by (fastforce simp: in_set_conv_nth e_def)
    with e have "x \<in> set (entries s) \<and> ID x = i \<longleftrightarrow> x = e" by blast
    moreover have "Get s t i = (if TenantID (LogEntry e) \<noteq> t then None else Some e)"
      using True pos by (simp add: Get_def i Let_def e_def)
    ultimately show ?thesis by (metis option.distinct(1) option.inject)
  next
    case False
    then have "Get s t i = None" using pos by (auto simp: Get_def)
    moreover have "\<not> (x \<in> set (entries s) \<and> ID x = i)"
      using False unat_ID_nth [OF assms] by (fastforce simp: in_set_conv_nth)
    ultimately show ?thesis by auto
  qed
qed

lemma Search_closed_form:
  "Search u s q =
     Inr (if q_TenantID q = [] then []
          else take (if q_Limit q \<le> 0 then 100 else nat (q_Limit q))
                 (filter (\<lambda>x. matches u x q) (rev (entries s))))"
  by (simp add: Search_def scan_back_spec)

lemma matches_tenant: "matches u x q \<Longrightarrow> TenantID (LogEntry x) = q_TenantID q"
  by (simp add: matches_def Let_def split: if_splits)

lemma WriteBatch_appends: "\<exists>ys. entries (fst (WriteBatch s b)) = entries s @ ys"
proof -
  have "\<exists>ys. entries (write_entries s b) = entries s @ ys"
    by (induction s b rule: write_entries.induct) (auto simp: Let_def)
  then show ?thesis by (simp add: WriteBatch_def)
qed

interpretation mem_sink: reliable_sink WriteBatch abs_log store_ok
  by unfold_locales (auto simp: WriteBatch_def write_entries_refines)

interpretation mem_source: log_source Since entries "\<lambda>s. store_ok s \<and> store_fits s"
proof unfold_locales
  fix s x assume "store_ok s \<and> store_fits s" "x \<in> set (entries s)"
  then show "0 < ID x"
    using unat_ID_nth [of s] by (fastforce simp: in_set_conv_nth word_less_nat_alt)
qed (simp_all add: Since_reads IDs_ascend)

interpretation mem_reader: tenant_reader "Search u" Get entries "\<lambda>s. store_ok s \<and> store_fits s"
proof unfold_locales
  fix s q xs x assume "Search u s q = Inr xs" "x \<in> set xs"
  then show "x \<in> set (entries s) \<and> TenantID (LogEntry x) = q_TenantID q"
    by (auto simp: Search_closed_form dest!: in_set_takeD matches_tenant split: if_splits)
qed (simp_all add: Search_closed_form Get_scoped)

subsection \<open>What the store promises\<close>

text \<open>
  C10. The store refines an append-only list of log entries: \<open>WriteBatch\<close> keeps the invariant
  (IDs are positions plus one, counters agree, everything is redacted), never fails, appends
  exactly the redacted entries of the batch in order, and never stores an unredacted one.
\<close>

theorem WriteBatch_refines:
  assumes "store_ok s" and "WriteBatch s batch = (s', r)"
  shows "store_ok s' \<and> r = None \<and> abs_log s' = abs_log s @ filter Redacted batch \<and>
         list_all (\<lambda>x. Redacted (LogEntry x)) (entries s')"
proof -
  have ok: "store_ok s'" using assms by (rule mem_sink.write_keeps)
  moreover have "r = None" using assms by (simp add: WriteBatch_def)
  moreover from this have "abs_log s' = abs_log s @ filter Redacted batch"
    using assms mem_sink.write_done by blast
  moreover have "list_all (\<lambda>x. Redacted (LogEntry x)) (entries s')"
    using ok by (simp add: store_ok_def abs_log_def list_all_iff)
  ultimately show ?thesis by blast
qed

definition red_entry :: "string \<Rightarrow> string \<Rightarrow> log_entry" where
  "red_entry t m = zero_entry\<lparr>TenantID := t, Service := ''s'', Message := m, Redacted := True\<rparr>"

definition demo_store :: mem_store where
  "demo_store = fst (WriteBatch NewMem
     [red_entry ''acme'' ''payment failed'', zero_entry, red_entry ''globex'' ''ok''])"

theorem WriteBatch_refines_witness:
  "store_ok demo_store \<and>
   abs_log demo_store = [red_entry ''acme'' ''payment failed'', red_entry ''globex'' ''ok'']"
  using WriteBatch_refines [OF NewMem_ok, of
      "[red_entry ''acme'' ''payment failed'', zero_entry, red_entry ''globex'' ''ok'']" demo_store None]
  by (simp add: demo_store_def WriteBatch_def red_entry_def zero_entry_def NewMem_def abs_log_def)

lemma demo_store_facts: "store_ok demo_store" "store_fits demo_store" "length (entries demo_store) = 2"
  "entries demo_store = [\<lparr>ID = 1, LogEntry = red_entry ''acme'' ''payment failed''\<rparr>,
                         \<lparr>ID = 2, LogEntry = red_entry ''globex'' ''ok''\<rparr>]"
proof -
  show "store_ok demo_store" unfolding demo_store_def
    by (rule mem_sink.write_fst_keeps [OF NewMem_ok])
  show es: "entries demo_store = [\<lparr>ID = 1, LogEntry = red_entry ''acme'' ''payment failed''\<rparr>,
                         \<lparr>ID = 2, LogEntry = red_entry ''globex'' ''ok''\<rparr>]"
    by (simp add: demo_store_def WriteBatch_def red_entry_def zero_entry_def NewMem_def)
  show "store_fits demo_store" "length (entries demo_store) = 2"
    by (simp_all add: es store_fits_def)
qed

text \<open>
  Structured search is exactly "the newest matching entries of the tenant": with a tenant,
  the first \<open>limit\<close> (100 by default) of the stored entries that match, newest first; without a
  tenant, nothing. The backwards loop with its two exits computes just that.
\<close>

theorem Search_newest_first:
  "Search u s q =
     Inr (if q_TenantID q = [] then []
          else take (if q_Limit q \<le> 0 then 100 else nat (q_Limit q))
                 (rev (filter (\<lambda>x. matches u x q) (entries s))))"
  by (simp add: Search_closed_form rev_filter)

text \<open>The entries of one tenant.\<close>

definition tenant_entries :: "string \<Rightarrow> mem_store \<Rightarrow> stored_entry list" where
  "tenant_entries t s = filter (\<lambda>x. TenantID (LogEntry x) = t) (entries s)"

lemma Search_tenant_entries:
  assumes "tenant_entries (q_TenantID q) s = tenant_entries (q_TenantID q) s'"
  shows "Search u s q = Search u s' q"
proof -
  have f: "filter (\<lambda>x. matches u x q) (entries v) = filter (\<lambda>x. matches u x q) (tenant_entries (q_TenantID q) v)"
    for v unfolding tenant_entries_def filter_filter
    by (rule filter_cong) (auto dest: matches_tenant)
  show ?thesis by (simp add: Search_closed_form rev_filter [symmetric] f assms)
qed

lemma Get_tenant_entries:
  assumes "store_ok s" "store_fits s" "store_ok s'" "store_fits s'" "tenant_entries t s = tenant_entries t s'"
  shows "Get s t i = Get s' t i"
proof -
  have mem: "x \<in> set (entries v) \<and> ID x = i \<and> TenantID (LogEntry x) = t \<longleftrightarrow>
        x \<in> set (tenant_entries t v) \<and> ID x = i" for v x
    by (auto simp: tenant_entries_def)
  have "Get s t i = Some x \<longleftrightarrow> Get s' t i = Some x" for x
    unfolding mem_reader.get_scoped [OF conjI, OF assms(1,2)]
      mem_reader.get_scoped [OF conjI, OF assms(3,4)] mem assms(5) ..
  then show ?thesis by (metis option.exhaust)
qed

text \<open>
  Tenant isolation as non-interference: two stores that hold the same entries of a tenant
  answer that tenant's searches and lookups the same, whatever other tenants have written; and
  everything returned belongs to the tenant asked for.
\<close>

theorem store_non_interference:
  assumes "store_ok s" "store_fits s" "store_ok s'" "store_fits s'"
    and "tenant_entries (q_TenantID q) s = tenant_entries (q_TenantID q) s'"
  shows "Search u s q = Search u s' q \<and> Get s (q_TenantID q) i = Get s' (q_TenantID q) i \<and>
         (\<forall>xs. Search u s q = Inr xs \<longrightarrow> list_all (\<lambda>x. TenantID (LogEntry x) = q_TenantID q) xs)"
  using Search_tenant_entries [OF assms(5)] Get_tenant_entries [OF assms]
    mem_reader.search_scoped [of s u q] assms(1,2) by (auto simp: list_all_iff)

definition empty_query :: "string \<Rightarrow> query" where
  "empty_query t = \<lparr>q_TenantID = t, q_Service = [], q_Level = [], q_Contains = [], q_Since = 0,
                    q_Until = 0, q_Limit = 0\<rparr>"

definition demo_store2 :: mem_store where
  "demo_store2 = fst (WriteBatch demo_store [red_entry ''globex'' ''other''])"

lemma demo_store2_facts: "store_ok demo_store2" "store_fits demo_store2"
  "tenant_entries ''acme'' demo_store2 = tenant_entries ''acme'' demo_store"
proof -
  show "store_ok demo_store2" unfolding demo_store2_def
    by (rule mem_sink.write_fst_keeps [OF demo_store_facts(1)])
  have es: "entries demo_store2 = entries demo_store @
      [\<lparr>ID = nextID demo_store + 1, LogEntry = red_entry ''globex'' ''other''\<rparr>]"
    by (simp add: demo_store2_def WriteBatch_def red_entry_def Let_def)
  show "store_fits demo_store2" by (simp add: store_fits_def es demo_store_facts)
  show "tenant_entries ''acme'' demo_store2 = tenant_entries ''acme'' demo_store"
    by (simp add: tenant_entries_def es red_entry_def)
qed

theorem store_non_interference_witness:
  "Search ascii_tables demo_store (empty_query ''acme'') = Search ascii_tables demo_store2 (empty_query ''acme'') \<and>
   Get demo_store2 ''acme'' 2 = Get demo_store ''acme'' 2"
  using store_non_interference [OF demo_store_facts(1,2) demo_store2_facts(1,2), of "empty_query ''acme''" ascii_tables 2]
  by (simp add: empty_query_def demo_store2_facts(3))

text \<open>
  \<open>Since\<close> finds with its binary search exactly the entries behind the checkpoint: it
  returns the first \<open>limit\<close> (500 by default) of the entries whose ID is greater, oldest first.
\<close>

theorem Since_after_checkpoint:
  assumes "store_ok s" "store_fits s"
  shows "Since s a n = Inr (take (if n \<le> 0 then 500 else nat n) (filter (\<lambda>x. a < ID x) (entries s)))"
  using mem_source.since_reads [of s a n] assms by (simp add: since_limit_def)

theorem Since_after_checkpoint_witness:
  "Since demo_store 1 10 = Inr [\<lparr>ID = 2, LogEntry = red_entry ''globex'' ''ok''\<rparr>]"
  using Since_after_checkpoint [OF demo_store_facts(1,2), of 1 10]
  by (simp add: demo_store_facts(4) take_Cons')

end
