(* ===== verification/Pipeline.thy ===== *)
theory Pipeline
  imports Writer Buffer Store
begin

text \<open>
  The hot path behind the handlers and its shutdown, from \<open>cmd/ingest/main.go\<close>: handlers publish
  into the buffer, the writer's select loop empties it into the store, the signal cancels the
  writer's context, and later the main function closes the channel. The goroutines run in any
  order, so the steps are a relation; \<open>p_accepted\<close> records what \<open>Publish\<close> has accepted.
\<close>

record 's pipeline =
  p_buf :: buffer
  p_writer :: "'s bwriter"
  p_cancelled :: bool
  p_accepted :: "log_entry list"

inductive pstep ::
  "('s \<Rightarrow> log_entry list \<Rightarrow> 's \<times> err option) \<Rightarrow> 's pipeline \<Rightarrow> 's pipeline \<Rightarrow> bool"
  for wr where
  accept: "Publish (p_buf s) e = Some (None, b) \<Longrightarrow>
     pstep wr s (s\<lparr>p_buf := b, p_accepted := p_accepted s @ [e]\<rparr>)"
| reject: "Publish (p_buf s) e = Some (Some x, b) \<Longrightarrow> pstep wr s (s\<lparr>p_buf := b\<rparr>)"
| recv_entry: "w_phase (p_writer s) = Running \<Longrightarrow> receive (p_buf s) = (Got e, b) \<Longrightarrow>
     pstep wr s (s\<lparr>p_buf := b, p_writer := on_entry wr (p_writer s) e\<rparr>)"
| recv_closed: "w_phase (p_writer s) = Running \<Longrightarrow> receive (p_buf s) = (Closed, b) \<Longrightarrow>
     pstep wr s (s\<lparr>p_writer := on_finish wr (p_writer s)\<rparr>)"
| tick: "w_phase (p_writer s) = Running \<Longrightarrow>
     pstep wr s (s\<lparr>p_writer := flush wr (p_writer s)\<rparr>)"
| see_cancelled: "w_phase (p_writer s) = Running \<Longrightarrow> p_cancelled s \<Longrightarrow>
     pstep wr s (s\<lparr>p_writer := on_cancelled (p_writer s)\<rparr>)"
| drain_entry: "w_phase (p_writer s) = Draining \<Longrightarrow> receive (p_buf s) = (Got e, b) \<Longrightarrow>
     pstep wr s (s\<lparr>p_buf := b, p_writer := on_entry wr (p_writer s) e\<rparr>)"
| drain_closed: "w_phase (p_writer s) = Draining \<Longrightarrow> receive (p_buf s) = (Closed, b) \<Longrightarrow>
     pstep wr s (s\<lparr>p_writer := on_finish wr (p_writer s)\<rparr>)"
| drain_empty: "w_phase (p_writer s) = Draining \<Longrightarrow> receive (p_buf s) = (NotReady, b) \<Longrightarrow>
     pstep wr s (s\<lparr>p_writer := on_finish wr (p_writer s)\<rparr>)"
| cancel: "pstep wr s (s\<lparr>p_cancelled := True\<rparr>)"
| close: "CloseBuffer (p_buf s) = Some b \<Longrightarrow> pstep wr s (s\<lparr>p_buf := b\<rparr>)"

inductive_cases pstepE: "pstep wr s s'"

definition pipeline_start :: "buffer \<Rightarrow> 's bwriter \<Rightarrow> 's pipeline" where
  "pipeline_start b w = \<lparr>p_buf = b, p_writer = w, p_cancelled = False, p_accepted = []\<rparr>"

text \<open>The start of \<open>main\<close>: an empty store, a new buffer and the writer just started.\<close>

definition main_start :: "int \<Rightarrow> int \<Rightarrow> duration \<Rightarrow> mem_store pipeline option" where
  "main_start bufferSize batchSize interval =
     (case NewBuffer bufferSize of
        None \<Rightarrow> None
      | Some b \<Rightarrow>
          (case writer_start NewMem batchSize interval of
             None \<Rightarrow> None
           | Some w \<Rightarrow> Some (pipeline_start b w)))"

abbreviation main_steps :: "mem_store pipeline \<Rightarrow> mem_store pipeline \<Rightarrow> bool" where
  "main_steps \<equiv> (pstep WriteBatch)\<^sup>*\<^sup>*"

definition stored_log :: "mem_store pipeline \<Rightarrow> log_entry list" where
  "stored_log s = abs_log (w_store (p_writer s))"

text \<open>
  The drain loop of \<open>Run\<close> as the writer executes it when nobody else touches the channel: its
  iterations are the \<open>drain\<close> steps above. It ends only when the channel has nothing ready.
\<close>

partial_function (option) drain_loop ::
  "('s \<Rightarrow> log_entry list \<Rightarrow> 's \<times> err option) \<Rightarrow> buffer \<Rightarrow> 's bwriter \<Rightarrow> (buffer \<times> 's bwriter) option" where
  "drain_loop wr b w =
     (case receive b of
        (Got e, b') \<Rightarrow> drain_loop wr b' (on_entry wr w e)
      | (Closed, b') \<Rightarrow> Some (b', on_finish wr w)
      | (NotReady, b') \<Rightarrow> Some (b', on_finish wr w))"

text \<open>A step of the writer's goroutine: nothing is published, cancelled or closed by it.\<close>

definition writer_move ::
  "('s \<Rightarrow> log_entry list \<Rightarrow> 's \<times> err option) \<Rightarrow> 's pipeline \<Rightarrow> 's pipeline \<Rightarrow> bool" where
  "writer_move wr q q' \<longleftrightarrow> pstep wr q q' \<and> p_accepted q' = p_accepted q \<and>
     p_cancelled q' = p_cancelled q \<and> ch_closed (p_buf q') = ch_closed (p_buf q) \<and> shed (p_buf q') = shed (p_buf q)"

lemma writer_moves_steps: "(writer_move wr)\<^sup>*\<^sup>* q q' \<Longrightarrow> (pstep wr)\<^sup>*\<^sup>* q q'"
  by (erule rtranclp_mono [THEN predicate2D, rotated]) (auto simp: writer_move_def)

lemma writer_moves_keep:
  "(writer_move wr)\<^sup>*\<^sup>* q q' \<Longrightarrow> p_accepted q' = p_accepted q \<and> p_cancelled q' = p_cancelled q \<and>
     ch_closed (p_buf q') = ch_closed (p_buf q) \<and> shed (p_buf q') = shed (p_buf q)"
  by (induction rule: rtranclp_induct) (auto simp: writer_move_def)

context reliable_sink
begin

definition taken :: "'s pipeline \<Rightarrow> log_entry list" where
  "taken s = persisted (w_store (p_writer s)) @ w_batch (p_writer s) @ filter Redacted (ch (p_buf s))"

definition pipe_inv :: "'s pipeline \<Rightarrow> bool" where
  "pipe_inv s \<longleftrightarrow>
     sink_ok (w_store (p_writer s)) \<and> writer_ok (p_writer s) \<and> buffer_ok (p_buf s) \<and>
     (w_phase (p_writer s) = Exited \<longrightarrow> w_batch (p_writer s) = []) \<and>
     (\<not> p_cancelled s \<longrightarrow>
        w_phase (p_writer s) \<noteq> Draining \<and>
        (w_phase (p_writer s) = Exited \<longrightarrow> ch_closed (p_buf s) \<and> ch (p_buf s) = []))"

lemma pstep_taken:
  assumes "pstep sink_write s s'" "pipe_inv s"
  shows "\<exists>new. p_accepted s' = p_accepted s @ new \<and> taken s' = taken s @ filter Redacted new"
  using assms
proof (induction rule: pstep.induct)
  case (accept s e b)
  then show ?case
    by (intro exI [of _ "[e]"]) (auto simp: taken_def elim!: Publish_cases)
next
  case (reject s e x b)
  then show ?case by (auto simp: taken_def elim!: Publish_cases)
next
  case (recv_entry s e b)
  from recv_entry.prems have ok: "sink_ok (w_store (p_writer s))" "writer_ok (p_writer s)"
    by (simp_all add: pipe_inv_def)
  from recv_entry.hyps(2) obtain es where "ch (p_buf s) = e # es" "b = p_buf s\<lparr>ch := es\<rparr>"
    by (auto simp: receive_iffs)
  with on_entry_takes(2) [OF ok, of e] show ?case by (simp add: taken_def)
next
  case (drain_entry s e b)
  from drain_entry.prems have ok: "sink_ok (w_store (p_writer s))" "writer_ok (p_writer s)"
    by (simp_all add: pipe_inv_def)
  from drain_entry.hyps(2) obtain es where "ch (p_buf s) = e # es" "b = p_buf s\<lparr>ch := es\<rparr>"
    by (auto simp: receive_iffs)
  with on_entry_takes(2) [OF ok, of e] show ?case by (simp add: taken_def)
next
  case (close s b)
  then show ?case by (auto simp: taken_def CloseBuffer_def split: if_splits)
qed (simp_all add: taken_def pipe_inv_def flush_keeps_taken)

lemma pstep_pipe_inv:
  assumes "pstep sink_write s s'" "pipe_inv s"
  shows "pipe_inv s'"
  using assms
proof (induction rule: pstep.induct)
  case (recv_entry s e b)
  have "buffer_ok (p_buf s)" using recv_entry.prems by (simp add: pipe_inv_def)
  then have "buffer_ok b" using recv_entry.hyps(2) by (rule receive_ok)
  with recv_entry show ?case
    using on_entry_takes(1) [of "p_writer s" e] on_entry_ok [of "p_writer s" sink_write e]
    by (auto simp: pipe_inv_def receive_iffs)
next
  case (drain_entry s e b)
  have "buffer_ok (p_buf s)" using drain_entry.prems by (simp add: pipe_inv_def)
  then have "buffer_ok b" using drain_entry.hyps(2) by (rule receive_ok)
  with drain_entry show ?case
    using on_entry_takes(1) [of "p_writer s" e] on_entry_ok [of "p_writer s" sink_write e]
    by (auto simp: pipe_inv_def receive_iffs)
next
  case (accept s e b)
  then show ?case by (auto simp: pipe_inv_def buffer_ok_def elim!: Publish_cases)
next
  case (reject s e x b)
  then show ?case by (auto simp: pipe_inv_def buffer_ok_def elim!: Publish_cases)
next
  case (recv_closed s b)
  then show ?case
    by (simp add: pipe_inv_def on_finish_ok flush_keeps_taken receive_iffs)
next
  case (close s b)
  then show ?case by (auto simp: pipe_inv_def CloseBuffer_def buffer_ok_def split: if_splits)
next
  case (see_cancelled s)
  then show ?case by (auto simp: pipe_inv_def writer_ok_def)
qed (auto simp: pipe_inv_def on_finish_ok flush_ok flush_keeps_taken)

lemma steps_conserve:
  assumes "(pstep sink_write)\<^sup>*\<^sup>* s s'" "pipe_inv s"
  shows "pipe_inv s' \<and>
    (\<exists>new. p_accepted s' = p_accepted s @ new \<and> taken s' = taken s @ filter Redacted new)"
  using assms(1)
proof (induction rule: rtranclp_induct)
  case base
  show ?case using assms(2) by simp
next
  case (step t u)
  from step.IH obtain new where t: "pipe_inv t" "p_accepted t = p_accepted s @ new"
    "taken t = taken s @ filter Redacted new" by blast
  from pstep_taken [OF step.hyps(2) t(1)] obtain new' where
    "p_accepted u = p_accepted t @ new'" "taken u = taken t @ filter Redacted new'" by blast
  with t pstep_pipe_inv [OF step.hyps(2) t(1)] show ?case
    by (intro conjI exI [of _ "new @ new'"]) simp_all
qed

text \<open>The drain: from the drain loop the writer empties the queue and returns.\<close>

lemma drain_completes:
  assumes "pipe_inv s" "w_phase (p_writer s) = Draining"
  shows "\<exists>s'. (writer_move sink_write)\<^sup>*\<^sup>* s s' \<and> w_phase (p_writer s') = Exited \<and> ch (p_buf s') = []"
  using assms
proof (induction "ch (p_buf s)" arbitrary: s)
  case Nil
  let ?s = "s\<lparr>p_writer := on_finish sink_write (p_writer s)\<rparr>"
  have "pstep sink_write s ?s"
    using Nil.hyps Nil.prems(2) pstep.drain_closed [of s "p_buf s" sink_write]
      pstep.drain_empty [of s "p_buf s" sink_write]
    by (cases "ch_closed (p_buf s)") (simp_all add: receive_iffs)
  then have "writer_move sink_write s ?s" by (simp add: writer_move_def)
  with Nil.hyps show ?case by (intro exI [of _ ?s]) auto
next
  case (Cons e es)
  let ?b = "p_buf s\<lparr>ch := es\<rparr>"
  let ?s = "s\<lparr>p_buf := ?b, p_writer := on_entry sink_write (p_writer s) e\<rparr>"
  have step: "pstep sink_write s ?s"
    using Cons.hyps(2) Cons.prems(2) by (intro pstep.drain_entry) (simp_all add: receive_def flip: Cons.hyps(2))
  then have move: "writer_move sink_write s ?s" by (simp add: writer_move_def)
  have "\<exists>s'. (writer_move sink_write)\<^sup>*\<^sup>* ?s s' \<and> w_phase (p_writer s') = Exited \<and> ch (p_buf s') = []"
    using pstep_pipe_inv [OF step Cons.prems(1)] Cons.prems(2) by (intro Cons.hyps(1)) simp_all
  then obtain s' where "(writer_move sink_write)\<^sup>*\<^sup>* ?s s'" "w_phase (p_writer s') = Exited" "ch (p_buf s') = []"
    by blast
  with converse_rtranclp_into_rtranclp [of "writer_move sink_write", OF move] show ?case by blast
qed

text \<open>The running writer can store everything that is queued, with nothing accepted in between.\<close>

lemma running_stores_all:
  assumes "pipe_inv s" "w_phase (p_writer s) = Running"
  shows "\<exists>s'. (writer_move sink_write)\<^sup>*\<^sup>* s s' \<and> ch (p_buf s') = [] \<and> w_batch (p_writer s') = [] \<and>
    w_phase (p_writer s') = Running"
  using assms
proof (induction "ch (p_buf s)" arbitrary: s)
  case Nil
  let ?s = "s\<lparr>p_writer := flush sink_write (p_writer s)\<rparr>"
  have "pstep sink_write s ?s" using Nil.prems(2) by (rule pstep.tick)
  then have "writer_move sink_write s ?s" by (simp add: writer_move_def)
  moreover have "w_batch (p_writer ?s) = []" "w_phase (p_writer ?s) = Running" using Nil.prems(2) by simp_all
  ultimately show ?case using Nil.hyps by (intro exI [of _ ?s]) auto
next
  case (Cons e es)
  let ?b = "p_buf s\<lparr>ch := es\<rparr>"
  let ?s = "s\<lparr>p_buf := ?b, p_writer := on_entry sink_write (p_writer s) e\<rparr>"
  have step: "pstep sink_write s ?s"
    using Cons.hyps(2) Cons.prems(2) by (intro pstep.recv_entry) (simp_all add: receive_def flip: Cons.hyps(2))
  then have move: "writer_move sink_write s ?s" by (simp add: writer_move_def)
  have "\<exists>s'. (writer_move sink_write)\<^sup>*\<^sup>* ?s s' \<and> ch (p_buf s') = [] \<and> w_batch (p_writer s') = [] \<and>
    w_phase (p_writer s') = Running"
    using pstep_pipe_inv [OF step Cons.prems(1)] Cons.prems(2) by (intro Cons.hyps(1)) simp_all
  then obtain s' where "(writer_move sink_write)\<^sup>*\<^sup>* ?s s'" "ch (p_buf s') = []" "w_batch (p_writer s') = []"
    "w_phase (p_writer s') = Running" by blast
  with converse_rtranclp_into_rtranclp [of "writer_move sink_write", OF move] show ?case by blast
qed

lemma drain_loop_returns:
  assumes "sink_ok (w_store w)" "writer_ok w"
  shows "\<exists>b' w'. drain_loop sink_write b w = Some (b', w') \<and> ch b' = [] \<and> w_phase w' = Exited \<and> w_batch w' = [] \<and>
    persisted (w_store w') = persisted (w_store w) @ w_batch w @ filter Redacted (ch b)"
  using assms
proof (induction "ch b" arbitrary: b w)
  case Nil
  with flush_keeps_taken [OF Nil.prems] show ?case
    by (subst drain_loop.simps) (auto simp: receive_def)
next
  case (Cons e es)
  let ?b = "b\<lparr>ch := es\<rparr>" and ?w = "on_entry sink_write w e"
  have "receive b = (Got e, ?b)" using Cons.hyps(2) by (simp add: receive_def flip: Cons.hyps(2))
  then have "drain_loop sink_write b w = drain_loop sink_write ?b ?w"
    by (subst drain_loop.simps) simp
  moreover note Cons.hyps(1) [of ?b ?w] on_entry_takes [OF Cons.prems, of e] on_entry_ok [OF Cons.prems(2)]
  ultimately show ?case by (auto simp flip: Cons.hyps(2))
qed

text \<open>A writer that has returned never writes again.\<close>

lemma exited_store_fixed:
  assumes "(pstep sink_write)\<^sup>*\<^sup>* s s'" "w_phase (p_writer s) = Exited"
  shows "p_writer s' = p_writer s"
  using assms
proof (induction rule: rtranclp_induct)
  case (step t u)
  then have "p_writer t = p_writer s" "w_phase (p_writer t) = Exited" by simp_all
  with step.hyps(2) show ?case by (auto elim!: pstepE)
qed simp

text \<open>When the writer returns, the queue is empty and everything accepted so far is persisted.\<close>

lemma exit_step:
  assumes "pstep sink_write s s'" "pipe_inv s" "w_phase (p_writer s) \<noteq> Exited" "w_phase (p_writer s') = Exited"
  shows "persisted (w_store (p_writer s')) = taken s'"
proof -
  have "w_batch (p_writer s') = []" using pstep_pipe_inv [OF assms(1,2)] assms(4) by (simp add: pipe_inv_def)
  moreover have "ch (p_buf s') = []"
    using assms(1,3,4) by (cases rule: pstep.cases) (auto simp: receive_iffs)
  ultimately show ?thesis by (simp add: taken_def)
qed

lemma accepted_before_exit:
  assumes "(pstep sink_write)\<^sup>*\<^sup>* s s'" "pipe_inv s" "taken s = filter Redacted (p_accepted s)"
    and "w_phase (p_writer s) \<noteq> Exited" "w_phase (p_writer s') = Exited"
  shows "\<exists>zs. persisted (w_store (p_writer s')) = filter Redacted (p_accepted s) @ zs"
  using assms(1,5)
proof (induction rule: rtranclp_induct)
  case base
  with assms(4) show ?case by simp
next
  case (step t u)
  show ?case
  proof (cases "w_phase (p_writer t) = Exited")
    case True
    with step.IH exited_store_fixed [OF r_into_rtranclp [of "pstep sink_write", OF step.hyps(2)] True]
    show ?thesis by simp
  next
    case False
    from steps_conserve [OF step.hyps(1) assms(2)] have "pipe_inv t" by blast
    from exit_step [OF step.hyps(2) this False step.prems] have "persisted (w_store (p_writer u)) = taken u" .
    moreover from steps_conserve [OF rtranclp.rtrancl_into_rtrancl [of "pstep sink_write", OF step.hyps] assms(2)]
    obtain new where "taken u = taken s @ filter Redacted new" by blast
    ultimately show ?thesis using assms(3) by simp
  qed
qed

end

text \<open>What is queued was queued before or has just been accepted.\<close>

lemma pstep_queue:
  assumes "pstep wr s s'" "p_accepted s' = p_accepted s @ new"
  shows "set (ch (p_buf s')) \<subseteq> set (ch (p_buf s)) \<union> set new"
  using assms
  by (cases rule: pstep.cases) (auto simp: receive_iffs CloseBuffer_def elim!: Publish_cases split: if_splits)

text \<open>The store only grows.\<close>

lemma flush_store_grows: "\<exists>ys. entries (w_store (flush WriteBatch w)) = entries (w_store w) @ ys"
  using WriteBatch_appends [of "w_store w" "w_batch w"] by (auto simp: flush_def split: prod.split)

lemma pstep_store_grows:
  assumes "pstep WriteBatch s s'"
  shows "\<exists>ys. entries (w_store (p_writer s')) = entries (w_store (p_writer s)) @ ys"
proof -
  have "\<exists>ys. entries (w_store (on_entry WriteBatch w e)) = entries (w_store w) @ ys" for w e
    using flush_store_grows [of "w\<lparr>w_batch := appendGuarded (w_batch w) e\<rparr>"]
    by (simp add: on_entry_def Let_def)
  moreover have "\<exists>ys. entries (w_store (on_finish WriteBatch w)) = entries (w_store w) @ ys" for w
    using flush_store_grows [of w] by (simp add: on_finish_def)
  ultimately show ?thesis
    using assms flush_store_grows by (auto elim!: pstepE simp: on_cancelled_def)
qed

lemma main_start_inv:
  assumes "main_start n k d = Some s"
  shows "mem_sink.pipe_inv s" "mem_sink.taken s = []" "p_accepted s = []"
  using assms
  by (auto simp: main_start_def pipeline_start_def writer_start_def NewBuffer_def
      mem_sink.pipe_inv_def mem_sink.taken_def writer_ok_def buffer_ok_def preserves
      abs_log_def split: option.splits if_splits) (simp_all add: NewMem_def)

text \<open>
  C11. Nothing accepted is lost, duplicated or reordered on the hot path: in every reachable
  state, under every interleaving of handlers, writer, ticker and shutdown, what the store
  holds, then the writer's batch, then the queue, is exactly the list of accepted entries in
  order (unredacted ones, which the writer drops, left out), and the store holds only redacted
  entries.
\<close>

theorem pipeline_conserves:
  assumes "main_start n k d = Some s0" "main_steps s0 s"
  shows "stored_log s @ w_batch (p_writer s) @ filter Redacted (ch (p_buf s))
           = filter Redacted (p_accepted s) \<and> list_all Redacted (stored_log s)"
proof -
  note start = main_start_inv [OF assms(1)]
  from mem_sink.steps_conserve [OF assms(2) start(1)] start
  have taken: "mem_sink.taken s = filter Redacted (p_accepted s)" and inv: "mem_sink.pipe_inv s"
    by auto
  from inv have "list_all Redacted (stored_log s)"
    by (simp add: mem_sink.pipe_inv_def store_ok_def stored_log_def)
  with taken show ?thesis by (simp add: mem_sink.taken_def stored_log_def)
qed

text \<open>
  Shutdown in the documented order loses nothing: if the writer has returned although the
  context was not cancelled, then the channel was closed and drained, and the store holds every
  accepted (redacted) entry.
\<close>

theorem clean_shutdown_stores_all:
  assumes "main_start n k d = Some s0" "main_steps s0 s"
    and "w_phase (p_writer s) = Exited" "\<not> p_cancelled s"
  shows "ch_closed (p_buf s) \<and> stored_log s = filter Redacted (p_accepted s)"
proof -
  note start = main_start_inv [OF assms(1)]
  from mem_sink.steps_conserve [OF assms(2) start(1)] start
  have "mem_sink.taken s = filter Redacted (p_accepted s)" "mem_sink.pipe_inv s" by auto
  with assms(3,4) show ?thesis
    by (auto simp: mem_sink.taken_def mem_sink.pipe_inv_def stored_log_def)
qed

text \<open>
  C30. The drain loop ends: left alone with the channel it returns after emptying it, whatever the batch
  size, and the store then holds, behind what it held, the batch and every queued redacted entry.
\<close>

theorem drain_loop_terminates:
  assumes "store_ok (w_store w)" "writer_ok w"
  shows "\<exists>b' w'. drain_loop WriteBatch b w = Some (b', w') \<and> ch b' = [] \<and> w_phase w' = Exited \<and> w_batch w' = [] \<and>
    abs_log (w_store w') = abs_log (w_store w) @ w_batch w @ filter Redacted (ch b)"
  by (rule mem_sink.drain_loop_returns [OF assms])

theorem drain_loop_terminates_witness:
  "\<exists>b' w'. drain_loop WriteBatch \<lparr>ch = [red_entry ''acme'' ''m''], ch_cap = 1, ch_closed = False, accepted = 1, shed = 0\<rparr>
      \<lparr>w_store = NewMem, w_size = 0, w_interval = 1, w_batch = [], w_phase = Draining\<rparr> = Some (b', w') \<and>
     abs_log (w_store w') = [red_entry ''acme'' ''m'']"
  using drain_loop_terminates [of "\<lparr>w_store = NewMem, w_size = 0, w_interval = 1, w_batch = [], w_phase = Draining\<rparr>"
      "\<lparr>ch = [red_entry ''acme'' ''m''], ch_cap = 1, ch_closed = False, accepted = 1, shed = 0\<rparr>"]
  by (auto simp: NewMem_ok writer_ok_def red_entry_def) (simp_all add: NewMem_def abs_log_def)

text \<open>
  The drain makes progress: whenever the writer has seen the cancellation it can, by its own
  steps alone, empty the queue and return, and then the store holds everything accepted so far.
\<close>

theorem drain_stores_backlog:
  assumes "main_start n k d = Some s0" "main_steps s0 s" "w_phase (p_writer s) = Draining"
  shows "\<exists>s'. main_steps s s' \<and> w_phase (p_writer s') = Exited \<and>
              p_accepted s' = p_accepted s \<and> stored_log s' = filter Redacted (p_accepted s)"
proof -
  note start = main_start_inv [OF assms(1)]
  have inv: "mem_sink.pipe_inv s" using mem_sink.steps_conserve [OF assms(2) start(1)] by blast
  from mem_sink.drain_completes [OF inv assms(3)] obtain s' where
    moves: "(writer_move WriteBatch)\<^sup>*\<^sup>* s s'" and exited: "w_phase (p_writer s') = Exited" "ch (p_buf s') = []"
    by blast
  note s' = writer_moves_steps [OF moves] exited writer_moves_keep [OF moves, THEN conjunct1]
  have "main_steps s0 s'" using assms(2) s'(1) by (rule rtranclp_trans)
  from mem_sink.steps_conserve [OF this start(1)] start s'
  have "stored_log s' = filter Redacted (p_accepted s)"
    by (auto simp: mem_sink.taken_def mem_sink.pipe_inv_def stored_log_def)
  with s' show ?thesis by blast
qed

subsection \<open>A run of the pipeline\<close>

definition demo_pipe0 :: "mem_store pipeline" where
  "demo_pipe0 = the (main_start 10 2 1000000000)"

definition demo_entry :: log_entry where "demo_entry = red_entry ''acme'' ''m''"

definition demo_pipe1 :: "mem_store pipeline" where
  "demo_pipe1 = demo_pipe0\<lparr>p_buf := (p_buf demo_pipe0)\<lparr>ch := [demo_entry], accepted := 1\<rparr>,
                           p_accepted := [demo_entry]\<rparr>"

definition demo_pipe2 :: "mem_store pipeline" where
  "demo_pipe2 = demo_pipe1\<lparr>p_buf := (p_buf demo_pipe1)\<lparr>ch := []\<rparr>,
                           p_writer := on_entry WriteBatch (p_writer demo_pipe1) demo_entry\<rparr>"

definition demo_pipe3 :: "mem_store pipeline" where
  "demo_pipe3 = demo_pipe2\<lparr>p_buf := (p_buf demo_pipe2)\<lparr>ch_closed := True\<rparr>\<rparr>"

definition demo_pipe4 :: "mem_store pipeline" where
  "demo_pipe4 = demo_pipe3\<lparr>p_writer := on_finish WriteBatch (p_writer demo_pipe3)\<rparr>"

definition demo_pipe5 :: "mem_store pipeline" where
  "demo_pipe5 = demo_pipe2\<lparr>p_cancelled := True,
                           p_writer := on_cancelled (p_writer demo_pipe2)\<rparr>"

lemmas demo_pipe_defs = demo_pipe0_def demo_pipe1_def demo_pipe2_def demo_pipe3_def demo_pipe4_def
  demo_pipe5_def demo_entry_def main_start_def NewBuffer_def writer_start_def pipeline_start_def
  red_entry_def zero_entry_def

lemma demo_start: "main_start 10 2 1000000000 = Some demo_pipe0"
  by (simp add: demo_pipe_defs)

lemma demo_steps12: "main_steps demo_pipe0 demo_pipe2"
proof -
  have "pstep WriteBatch demo_pipe0 (demo_pipe0\<lparr>p_buf := (p_buf demo_pipe0)\<lparr>ch := [demo_entry], accepted := 1\<rparr>,
      p_accepted := p_accepted demo_pipe0 @ [demo_entry]\<rparr>)"
    by (rule pstep.accept) (simp add: demo_pipe_defs Publish_def)
  moreover have "pstep WriteBatch demo_pipe1 demo_pipe2"
    unfolding demo_pipe2_def by (rule pstep.recv_entry) (simp_all add: demo_pipe_defs receive_def)
  ultimately show ?thesis
    by (simp add: demo_pipe1_def demo_pipe0_def main_start_def NewBuffer_def writer_start_def pipeline_start_def)
qed

lemma demo_steps4: "main_steps demo_pipe0 demo_pipe4"
proof -
  have "pstep WriteBatch demo_pipe2 demo_pipe3"
    unfolding demo_pipe3_def by (rule pstep.close) (simp add: demo_pipe_defs CloseBuffer_def)
  moreover have "pstep WriteBatch demo_pipe3 demo_pipe4"
    unfolding demo_pipe4_def
    by (rule pstep.recv_closed [of _ "p_buf demo_pipe3"]) (simp_all add: demo_pipe_defs receive_def)
  ultimately show ?thesis using demo_steps12 by (metis rtranclp.rtrancl_into_rtrancl)
qed

lemma demo_steps5: "main_steps demo_pipe0 demo_pipe5"
proof -
  let ?c = "demo_pipe2\<lparr>p_cancelled := True\<rparr>"
  have "pstep WriteBatch demo_pipe2 ?c" by (rule pstep.cancel)
  moreover have "pstep WriteBatch ?c (?c\<lparr>p_writer := on_cancelled (p_writer ?c)\<rparr>)"
    by (rule pstep.see_cancelled) (simp_all add: demo_pipe_defs)
  ultimately show ?thesis
    using demo_steps12 by (simp add: demo_pipe5_def)
qed

theorem pipeline_conserves_witness:
  "stored_log demo_pipe2 @ w_batch (p_writer demo_pipe2) @ filter Redacted (ch (p_buf demo_pipe2))
     = [demo_entry]"
  using pipeline_conserves [OF demo_start demo_steps12] by (simp add: demo_pipe_defs)

theorem clean_shutdown_stores_all_witness: "stored_log demo_pipe4 = [demo_entry]"
proof -
  have "w_phase (p_writer demo_pipe4) = Exited" "\<not> p_cancelled demo_pipe4"
    by (simp_all add: demo_pipe_defs)
  from clean_shutdown_stores_all [OF demo_start demo_steps4 this] show ?thesis
    by (simp add: demo_pipe_defs)
qed

theorem drain_stores_backlog_witness:
  "\<exists>s'. main_steps demo_pipe5 s' \<and> stored_log s' = [demo_entry]"
proof -
  have "w_phase (p_writer demo_pipe5) = Draining" by (simp add: demo_pipe_defs)
  from drain_stores_backlog [OF demo_start demo_steps5 this] show ?thesis
    by (auto simp: demo_pipe_defs)
qed

subsection \<open>The order main really uses\<close>



end
