(* ===== verification/Embedding.thy ===== *)
theory Embedding
  imports LogModel
begin

text \<open>
  Package \<open>internal/embed\<close>: feature hashing of the tokens of a text into a vector, its
  normalisation and the similarity of two vectors. The numbers are exact reals (the entries of
  an unnormalised vector are small integers). \<open>None\<close> is a panic: a dimension that is a multiple
  of 2 to the 32 makes \<open>bucket\<close> divide by zero.
\<close>

record hash_embedder =
  dim :: int

definition NewHash :: "int \<Rightarrow> hash_embedder" where
  "NewHash d = \<lparr>dim = (if d \<le> 0 then 256 else d)\<rparr>"

definition Dim :: "hash_embedder \<Rightarrow> int" where "Dim h = dim h"

definition Version :: "hash_embedder \<Rightarrow> string" where "Version h = ''hash-v1''"

definition tokenize :: "unicode_tables \<Rightarrow> string \<Rightarrow> string list" where
  "tokenize u s =
     filter (\<lambda>f. 2 \<le> length f)
       (fields_func (\<lambda>r. \<not> rune_is_letter u r \<and> \<not> rune_is_digit u r) (to_lower u s))"

text \<open>FNV-1a of 32 bits, as package hash/fnv computes it.\<close>

definition fnv32a :: "string \<Rightarrow> u32" where
  "fnv32a s = foldl (\<lambda>h c. (h XOR of_nat (byte c)) * 16777619) 2166136261 s"

definition bucket :: "string \<Rightarrow> int \<Rightarrow> (nat \<times> f32) option" where
  "bucket tok d =
     (let sum' = fnv32a tok; m = of_int d in
      if m = 0 then None
      else Some (unat (sum' mod m), if sum' AND push_bit 31 1 \<noteq> 0 then -1 else 1))"

fun embed_loop :: "string list \<Rightarrow> int \<Rightarrow> f32 list \<Rightarrow> f32 list option" where
  "embed_loop [] d v = Some v"
| "embed_loop (tok # toks) d v =
     (case bucket tok d of
        None \<Rightarrow> None
      | Some (idx, sign) \<Rightarrow>
          if idx < length v then embed_loop toks d (v[idx := v ! idx + sign]) else None)"

definition l2normalize :: "f32 list \<Rightarrow> f32 list" where
  "l2normalize v =
     (let s = foldl (\<lambda>s x. s + x * x) 0 v in
      if s = 0 then v else (let inv = 1 / sqrt s in map (\<lambda>x. x * inv) v))"

definition Embed :: "unicode_tables \<Rightarrow> hash_embedder \<Rightarrow> string \<Rightarrow> f32 list option" where
  "Embed u h text =
     map_option l2normalize (embed_loop (tokenize u text) (dim h) (replicate (nat (dim h)) 0))"

definition Cosine :: "f32 list \<Rightarrow> f32 list \<Rightarrow> f32" where
  "Cosine a b =
     (if length a \<noteq> length b then 0 else foldl (\<lambda>d (x, y). d + x * y) 0 (zip a b))"

subsection \<open>Dot products\<close>

lemma foldl_plus: "foldl (\<lambda>s x. s + f x) a xs = a + sum_list (map f xs)" for f :: "'a \<Rightarrow> real"
  by (induction xs arbitrary: a) (simp_all add: add.assoc)

definition dot :: "f32 list \<Rightarrow> f32 list \<Rightarrow> f32" where
  "dot a b = sum_list (map (\<lambda>(x, y). x * y) (zip a b))"

lemma Cosine_dot: "Cosine a b = (if length a = length b then dot a b else 0)"
  by (simp add: Cosine_def dot_def split_def foldl_plus)

lemma dot_Cons [simp]: "dot (x # a) (y # b) = x * y + dot a b"
  by (simp add: dot_def)

lemma dot_Nil [simp]: "dot [] b = 0" "dot a [] = 0"
  by (simp_all add: dot_def)

lemma dot_self: "dot v v = sum_list (map (\<lambda>x. x * x) v)"
  by (induction v) simp_all

lemma dot_self_nonneg: "0 \<le> dot v v"
  by (induction v) simp_all

lemma dot_self_zero: "dot v v = 0 \<longleftrightarrow> v = replicate (length v) 0"
proof (induction v)
  case (Cons x v)
  have "x * x + dot v v = 0 \<longleftrightarrow> x * x = 0 \<and> dot v v = 0"
    by (rule add_nonneg_eq_0_iff) (simp_all add: dot_self_nonneg)
  with Cons show ?case by simp
qed simp

lemma dot_scale: "dot (map (\<lambda>x. x * c) a) (map (\<lambda>x. x * d) b) = c * d * dot a b"
proof (induction a arbitrary: b)
  case (Cons x a)
  then show ?case by (cases b) (simp_all add: algebra_simps)
qed simp

lemma dot_mean:
  "length a = length b \<Longrightarrow> \<bar>2 * dot a b\<bar> \<le> dot a a + dot b b"
proof (induction a b rule: list_induct2)
  case (Cons x a y b)
  have "\<bar>2 * (x * y)\<bar> \<le> x * x + y * y"
    using zero_le_square [of "x - y"] zero_le_square [of "x + y"] by (auto simp: algebra_simps)
  with Cons.IH show ?case by simp
qed simp

lemma dot_sym: "dot a b = dot b a"
proof (induction a arbitrary: b)
  case (Cons x a)
  then show ?case by (cases b) simp_all
qed simp

subsection \<open>Normalised vectors\<close>

definition unit_or_zero :: "f32 list \<Rightarrow> bool" where
  "unit_or_zero v \<longleftrightarrow> dot v v = 1 \<or> v = replicate (length v) 0"

lemma unit_or_zero_le: "unit_or_zero v \<Longrightarrow> dot v v \<le> 1"
  unfolding unit_or_zero_def using dot_self_zero [of v] by fastforce

lemma l2normalize_length [simp]: "length (l2normalize v) = length v"
  by (simp add: l2normalize_def Let_def)

lemma l2normalize_unit: "unit_or_zero (l2normalize v)"
proof (cases "dot v v = 0")
  case True
  then show ?thesis
    by (simp add: l2normalize_def foldl_plus dot_self unit_or_zero_def flip: dot_self_zero)
next
  case False
  then have "0 < dot v v" using dot_self_nonneg [of v] by simp
  then have "1 / sqrt (dot v v) * (1 / sqrt (dot v v)) * dot v v = 1" by simp
  then show ?thesis
    using False dot_scale [of "1 / sqrt (dot v v)" v "1 / sqrt (dot v v)" v]
    by (simp add: l2normalize_def foldl_plus unit_or_zero_def flip: dot_self)
qed

lemma Cosine_bounded:
  assumes "unit_or_zero a" "unit_or_zero b"
  shows "\<bar>Cosine a b\<bar> \<le> 1"
  using dot_mean [of a b] unit_or_zero_le [OF assms(1)] unit_or_zero_le [OF assms(2)]
  by (auto simp: Cosine_dot)

subsection \<open>Buckets\<close>

definition dim_ok :: "int \<Rightarrow> bool" where
  "dim_ok d \<longleftrightarrow> 0 < d \<and> d < 2 ^ 32"

lemma bucket_in_range:
  assumes "dim_ok d"
  shows "\<exists>i sg. bucket tok d = Some (i, sg) \<and> i < nat d \<and> \<bar>sg\<bar> = 1"
proof -
  have m: "unat (of_int d :: u32) = nat d"
    using assms unfolding dim_ok_def
    by (metis mod_pos_pos_trivial less_imp_le unat_eq_nat_uint uint_word_of_int len_num1 len_bit0
        numeral_eq_Suc mult.commute mult_2_right numeral_Bit0 numerals(1))
  have "unat (fnv32a tok mod of_int d) < nat d"
    unfolding unat_mod m using assms by (simp add: dim_ok_def)
  moreover have "(of_int d :: u32) \<noteq> 0"
    using m assms by (auto simp: dim_ok_def)
  ultimately show ?thesis by (simp add: bucket_def Let_def)
qed

text \<open>What a token adds to dimension \<open>i\<close>; adding the tokens up gives the vector.\<close>

definition contribution :: "int \<Rightarrow> nat \<Rightarrow> string \<Rightarrow> f32" where
  "contribution d i tok = (case bucket tok d of Some (j, sg) \<Rightarrow> if j = i then sg else 0 | None \<Rightarrow> 0)"

lemma embed_loop_sum:
  assumes "dim_ok d" "length v = nat d"
  shows "embed_loop toks d v =
    Some (map (\<lambda>i. v ! i + sum_list (map (contribution d i) toks)) [0..<nat d])"
  using assms(2)
proof (induction toks arbitrary: v)
  case Nil
  then show ?case by (simp add: map_nth flip: Nil)
next
  case (Cons tok toks)
  obtain j sg where b: "bucket tok d = Some (j, sg)" "j < nat d"
    using bucket_in_range [OF assms(1), of tok] by blast
  then show ?case
    by (simp add: Cons contribution_def nth_list_update)
qed

definition embed_text :: "unicode_tables \<Rightarrow> hash_embedder \<Rightarrow> string \<Rightarrow> f32 list" where
  "embed_text u h text = the (Embed u h text)"

lemma Embed_closed_form:
  "dim_ok (dim h) \<Longrightarrow> Embed u h text =
    Some (l2normalize (map (\<lambda>i. sum_list (map (contribution (dim h) i) (tokenize u text))) [0..<nat (dim h)]))"
proof -
  have m: "map (\<lambda>i. replicate n 0 ! i + f i) [0..<n] = map f [0..<n]" for f :: "nat \<Rightarrow> f32" and n
    by (rule map_cong) auto
  show "dim_ok (dim h) \<Longrightarrow> ?thesis" by (simp add: Embed_def embed_loop_sum m)
qed

subsection \<open>The interface Embedder\<close>

text \<open>What the worker and the query layer rely on: vectors of one length, normalised or zero.\<close>

locale embedder =
  fixes embed :: "string \<Rightarrow> f32 list" and width :: nat
  assumes embed_length: "length (embed t) = width"
    and embed_unit: "unit_or_zero (embed t)"
begin

lemma similarity_bounded: "\<bar>Cosine (embed s) (embed t)\<bar> \<le> 1"
  by (rule Cosine_bounded [OF embed_unit embed_unit])

lemma self_similarity: "Cosine (embed t) (embed t) = 1 \<or> embed t = replicate width 0"
  using embed_unit [of t] by (auto simp: Cosine_dot unit_or_zero_def embed_length)

lemma similarity_sym: "Cosine (embed s) (embed t) = Cosine (embed t) (embed s)"
  by (simp add: Cosine_dot embed_length dot_sym [of "embed s"])

end

lemma embedder_hash: "dim_ok (dim h) \<Longrightarrow> embedder (embed_text u h) (nat (dim h))"
  by unfold_locales (simp_all add: embed_text_def Embed_closed_form l2normalize_unit)

text \<open>The embedder that \<open>main\<close> builds.\<close>

interpretation hash_embedder: embedder "embed_text u (NewHash 256)" 256
  using embedder_hash [of "NewHash 256"] by (simp add: NewHash_def dim_ok_def)

text \<open>
  The embedder never panics and is normalised: for a dimension below 2 to the 32 each text has a
  vector of that dimension, of length one or zero, so a text that shares no bucket cancellation
  has similarity 1 with itself and every similarity lies between -1 and 1.
\<close>

theorem Embed_normalised:
  assumes "0 < dim h" "dim h < 2 ^ 32"
  shows "\<exists>v w. Embed u h s = Some v \<and> Embed u h t = Some w \<and> length v = nat (dim h) \<and>
    \<bar>Cosine v w\<bar> \<le> 1 \<and> Cosine v w = Cosine w v \<and> (Cosine v v = 1 \<or> v = replicate (nat (dim h)) 0)"
proof -
  have d: "dim_ok (dim h)" using assms by (simp add: dim_ok_def)
  note laws = embedder.similarity_bounded embedder.similarity_sym embedder.self_similarity
    embedder.embed_length
  show ?thesis
    using Embed_closed_form [OF d] laws [OF embedder_hash [OF d]] by (simp add: embed_text_def)
qed

theorem Embed_normalised_witness:
  "\<exists>v w. Embed ascii_tables (NewHash 0) ''payment failed'' = Some v \<and> Embed ascii_tables (NewHash 0) ''ok'' = Some w \<and>
    length v = 256 \<and> \<bar>Cosine v w\<bar> \<le> 1"
  using Embed_normalised [of "NewHash 0" ascii_tables "''payment failed''" "''ok''"]
  by (auto simp: NewHash_def)

text \<open>
  The embedding is a bag of words: texts with the same tokens, in any order, have the same
  vector, so similarity does not see word order.
\<close>

theorem Embed_bag_of_words:
  assumes "0 < dim h" "dim h < 2 ^ 32" and "mset (tokenize u s) = mset (tokenize u t)"
  shows "Embed u h s = Embed u h t"
proof -
  have "sum_list (map f (tokenize u s)) = sum_list (map f (tokenize u t))" for f :: "string \<Rightarrow> f32"
    using assms(3) by (metis mset_map sum_mset_sum_list)
  with assms(1,2) show ?thesis by (simp add: Embed_closed_form dim_ok_def)
qed


lemma tokenize_ab_cd: "tokenize u ''ab CD'' = [''ab'', ''cd'']" "tokenize u ''cd ab'' = [''cd'', ''ab'']"
proof -
  have "chr 97 = CHR ''a''" "chr 98 = CHR ''b''" "chr 99 = CHR ''c''" "chr 100 = CHR ''d''"
    by code_simp+
  then show "tokenize u ''ab CD'' = [''ab'', ''cd'']" "tokenize u ''cd ab'' = [''cd'', ''ab'']"
    by (simp_all add: tokenize_def to_lower_def fields_func_def runes_ascii rune_lower_def
        encode_rune_def rune_is_letter_def rune_is_digit_def)
qed

theorem Embed_bag_of_words_witness:
  "Embed ascii_tables (NewHash 64) ''ab CD'' = Embed ascii_tables (NewHash 64) ''cd ab''"
  using Embed_bag_of_words [of "NewHash 64" ascii_tables "''ab CD''" "''cd ab''"]
  by (simp add: NewHash_def tokenize_ab_cd)

end
