(* ===== verification/VectorStore.thy ===== *)
theory VectorStore
  imports Interfaces Embedding "HOL-Library.AList"
begin

text \<open>
  Package \<open>internal/vector\<close>: the in-memory vector store, with one partition per tenant. The Go map
  of partitions is an association list (its order is never read), the map \<open>byRef\<close>, which only ever
  holds \<open>true\<close>, is the set of its keys. \<open>sort.Slice\<close> is not stable and its order of equal scores
  is unspecified: \<open>Search\<close> takes it as an argument, of which the results use that it sorts
  (\<open>slice_sorter\<close>); \<open>insertionSort\<close> is what it runs for up to twelve elements.
\<close>

record vector_store =
  items :: "(string \<times> item list) list"
  byRef :: "string set"

definition NewMemVector :: vector_store where
  "NewMemVector = \<lparr>items = [], byRef = {}\<rparr>"

definition part :: "vector_store \<Rightarrow> string \<Rightarrow> item list" where
  "part s t = (case map_of (items s) t of None \<Rightarrow> [] | Some its \<Rightarrow> its)"

definition ref_key :: "string \<Rightarrow> string \<Rightarrow> string" where
  "ref_key t r = t @ [NUL] @ r"

definition Upsert :: "vector_store \<Rightarrow> item \<Rightarrow> vector_store" where
  "Upsert s it =
     (if it_TenantID it = [] \<or> it_Ref it = [] then s
      else (let key = ref_key (it_TenantID it) (it_Ref it) in
            if key \<in> byRef s then s
            else s\<lparr>byRef := insert key (byRef s),
                   items := AList.update (it_TenantID it) (part s (it_TenantID it) @ [it]) (items s)\<rparr>))"

text \<open>The comparison that \<open>Search\<close> hands to \<open>sort.Slice\<close>.\<close>

definition better :: "hit \<Rightarrow> hit \<Rightarrow> bool" where
  "better x y \<longleftrightarrow> h_Score x > h_Score y"

definition SearchVec ::
  "((hit \<Rightarrow> hit \<Rightarrow> bool) \<Rightarrow> hit list \<Rightarrow> hit list) \<Rightarrow> vector_store \<Rightarrow> string \<Rightarrow> f32 list \<Rightarrow> int \<Rightarrow> hit list" where
  "SearchVec srt s tenantID query k =
     (if tenantID = [] then []
      else (let k = (if k \<le> 0 then 5 else k);
                hits = map (\<lambda>it. \<lparr>h_Item = it, h_Score = Cosine query (it_Vec it)\<rparr>) (part s tenantID);
                hits = srt better hits
            in if int (length hits) > k then take (nat k) hits else hits))"

definition Len :: "vector_store \<Rightarrow> nat" where
  "Len s = sum_list (map (\<lambda>(_, its). length its) (items s))"

subsection \<open>sort.Slice\<close>

text \<open>The insertion sort of package sort: each element moves left while it is less than its
  left neighbour. The sorted part is kept reversed.\<close>

fun insert_left :: "('a \<Rightarrow> 'a \<Rightarrow> bool) \<Rightarrow> 'a \<Rightarrow> 'a list \<Rightarrow> 'a list" where
  "insert_left lt x [] = [x]"
| "insert_left lt x (y # ys) = (if lt x y then y # insert_left lt x ys else x # y # ys)"

definition insertionSort :: "('a \<Rightarrow> 'a \<Rightarrow> bool) \<Rightarrow> 'a list \<Rightarrow> 'a list" where
  "insertionSort lt xs = rev (fold (insert_left lt) xs [])"

locale slice_sorter =
  fixes srt :: "(hit \<Rightarrow> hit \<Rightarrow> bool) \<Rightarrow> hit list \<Rightarrow> hit list"
  assumes srt_perm: "mset (srt better xs) = mset xs"
    and srt_sorted: "sorted_wrt (\<lambda>x y. h_Score x \<ge> h_Score y) (srt better xs)"
begin

lemma srt_set: "set (srt better xs) = set xs"
  using srt_perm by (metis set_mset_mset)

lemma srt_length: "length (srt better xs) = length xs"
  using srt_perm by (metis size_mset)

text \<open>A prefix of the sorted hits holds the best ones.\<close>

lemma prefix_best:
  assumes "xs = take n (srt better hs)" "x \<in> set xs" "y \<in># mset hs - mset xs"
  shows "h_Score y \<le> h_Score x"
proof -
  have "mset hs = mset xs + mset (drop n (srt better hs))"
    using srt_perm [of hs] assms(1) by (metis append_take_drop_id mset_append)
  with assms(3) have "y \<in> set (drop n (srt better hs))" by simp
  moreover have "\<forall>x \<in> set (take n (srt better hs)). \<forall>y \<in> set (drop n (srt better hs)). h_Score x \<ge> h_Score y"
    using srt_sorted [of hs] by (metis append_take_drop_id sorted_wrt_append)
  ultimately show ?thesis using assms(1,2) by blast
qed

end

lemma mset_insert_left: "mset (insert_left lt x ys) = add_mset x (mset ys)"
  by (induction ys) simp_all

lemma mset_insertionSort: "mset (insertionSort lt xs) = mset xs"
proof -
  have "mset (fold (insert_left lt) xs ys) = mset xs + mset ys" for ys
    by (induction xs arbitrary: ys) (simp_all add: mset_insert_left)
  then show ?thesis by (simp add: insertionSort_def)
qed

lemma sorted_insert_left:
  "sorted_wrt (\<lambda>x y. h_Score x \<le> h_Score y) ys \<Longrightarrow>
   sorted_wrt (\<lambda>x y. h_Score x \<le> h_Score y) (insert_left better x ys)"
proof (induction ys)
  case (Cons y ys)
  have "set (insert_left better x ys) = insert x (set ys)"
    using arg_cong [OF mset_insert_left [of better x ys], of set_mset] by simp
  moreover have "better x y \<longleftrightarrow> h_Score y < h_Score x" by (simp add: better_def)
  ultimately show ?case using Cons by (cases "better x y") auto
qed simp

interpretation insertion: slice_sorter insertionSort
proof unfold_locales
  fix xs
  have "sorted_wrt (\<lambda>x y. h_Score x \<le> h_Score y) (fold (insert_left better) xs ys)"
    if "sorted_wrt (\<lambda>x y. h_Score x \<le> h_Score y) ys" for ys
    using that by (induction xs arbitrary: ys) (simp_all add: sorted_insert_left)
  then show "sorted_wrt (\<lambda>x y. h_Score x \<ge> h_Score y) (insertionSort better xs)"
    by (simp add: insertionSort_def sorted_wrt_rev)
qed (simp add: mset_insertionSort)

subsection \<open>The invariant of the index\<close>

definition index_ok :: "vector_store \<Rightarrow> bool" where
  "index_ok s \<longleftrightarrow>
     (\<forall>t. NUL \<in> set t \<longrightarrow> part s t = []) \<and>
     (\<forall>t. \<forall>it \<in> set (part s t). it_TenantID it = t \<and> t \<noteq> [] \<and> it_Ref it \<noteq> []) \<and>
     (\<forall>t. distinct (map it_Ref (part s t))) \<and>
     byRef s = {ref_key t (it_Ref it) | t it. it \<in> set (part s t)}"

lemma part_update:
  "part (s\<lparr>byRef := b, items := AList.update t its (items s)\<rparr>) = (part s)(t := its)"
  by (rule ext) (simp add: part_def update_conv')

lemma ref_key_eq: "NUL \<notin> set t \<Longrightarrow> NUL \<notin> set t' \<Longrightarrow> ref_key t r = ref_key t' r' \<longleftrightarrow> t = t' \<and> r = r'"
  by (simp add: ref_key_def separated_append_eq)

lemma byRef_iff:
  assumes "index_ok s" "NUL \<notin> set t"
  shows "ref_key t r \<in> byRef s \<longleftrightarrow> r \<in> it_Ref ` set (part s t)"
proof
  assume "ref_key t r \<in> byRef s"
  then obtain t' it where it: "it \<in> set (part s t')" "ref_key t r = ref_key t' (it_Ref it)"
    using assms(1) by (auto simp: index_ok_def)
  then have "NUL \<notin> set t'" using assms(1) by (auto simp: index_ok_def)
  with it assms(2) show "r \<in> it_Ref ` set (part s t)" by (simp add: ref_key_eq)
next
  assume "r \<in> it_Ref ` set (part s t)"
  then show "ref_key t r \<in> byRef s" using assms(1) by (auto simp: index_ok_def)
qed

lemma Upsert_cases:
  assumes "index_ok s" "NUL \<notin> set (it_TenantID it)"
  obtains "it_TenantID it = [] \<or> it_Ref it = [] \<or> it_Ref it \<in> it_Ref ` set (part s (it_TenantID it))"
      "Upsert s it = s"
  | "it_TenantID it \<noteq> []" "it_Ref it \<noteq> []" "it_Ref it \<notin> it_Ref ` set (part s (it_TenantID it))"
      "byRef (Upsert s it) = insert (ref_key (it_TenantID it) (it_Ref it)) (byRef s)"
      "part (Upsert s it) = (part s)(it_TenantID it := part s (it_TenantID it) @ [it])"
proof (cases "it_TenantID it = [] \<or> it_Ref it = [] \<or> it_Ref it \<in> it_Ref ` set (part s (it_TenantID it))")
  case True
  then show ?thesis
    by (rule that(1)) (use True byRef_iff [OF assms, of "it_Ref it"] in \<open>auto simp: Upsert_def Let_def\<close>)
next
  case False
  then have "ref_key (it_TenantID it) (it_Ref it) \<notin> byRef s"
    using byRef_iff [OF assms, of "it_Ref it"] by blast
  with False show ?thesis
    by (intro that(2)) (simp_all add: Upsert_def Let_def part_update)
qed

lemma Upsert_ok [preserves]:
  assumes "index_ok s" "NUL \<notin> set (it_TenantID it)"
  shows "index_ok (Upsert s it)"
  using assms
proof (cases rule: Upsert_cases)
  case 2
  note new = 2(4,5)
  from assms(1) have old: "\<forall>t. NUL \<in> set t \<longrightarrow> part s t = []"
    "\<forall>t. \<forall>it \<in> set (part s t). it_TenantID it = t \<and> t \<noteq> [] \<and> it_Ref it \<noteq> []"
    "\<forall>t. distinct (map it_Ref (part s t))"
    "byRef s = {ref_key t (it_Ref it) | t it. it \<in> set (part s t)}"
    by (auto simp: index_ok_def)
  have mem: "x \<in> set (part (Upsert s it) t) \<longleftrightarrow> x \<in> set (part s t) \<or> x = it \<and> t = it_TenantID it" for x t
    by (auto simp: new)
  have "{ref_key t (it_Ref x) | t x. x \<in> set (part (Upsert s it) t)}
      = insert (ref_key (it_TenantID it) (it_Ref it)) {ref_key t (it_Ref x) | t x. x \<in> set (part s t)}"
    unfolding mem by blast
  moreover have "distinct (map it_Ref (part (Upsert s it) t))" for t
    using old(3) 2(3) by (simp add: new)
  moreover have "\<forall>t. NUL \<in> set t \<longrightarrow> part (Upsert s it) t = []"
    using old(1) assms(2) by (auto simp: new)
  ultimately show ?thesis
    unfolding index_ok_def mem using old(2,4) 2(1,2) by (simp add: new)
qed (use assms in simp)

lemma NewMemVector_ok [preserves]: "index_ok NewMemVector"
  by (auto simp: index_ok_def NewMemVector_def part_def)

lemma SearchVec_in:
  assumes "slice_sorter srt" "h \<in> set (SearchVec srt v t q k)"
  shows "h_Item h \<in> set (part v t)"
proof -
  let ?hs = "map (\<lambda>it. \<lparr>h_Item = it, h_Score = Cosine q (it_Vec it)\<rparr>) (part v t)"
  have "h \<in> set (srt better ?hs)"
    using assms(2) by (auto simp: SearchVec_def Let_def dest: in_set_takeD split: if_splits)
  then show ?thesis by (auto simp: slice_sorter.srt_set [OF assms(1)])
qed

lemma SearchVec_score:
  assumes "slice_sorter srt" "h \<in> set (SearchVec srt v t q k)"
  shows "h_Score h = Cosine q (it_Vec (h_Item h))"
proof -
  let ?hs = "map (\<lambda>it. \<lparr>h_Item = it, h_Score = Cosine q (it_Vec it)\<rparr>) (part v t)"
  have "h \<in> set (srt better ?hs)"
    using assms(2) by (auto simp: SearchVec_def Let_def dest: in_set_takeD split: if_splits)
  then show ?thesis by (auto simp: slice_sorter.srt_set [OF assms(1)])
qed

text \<open>With any sorting function that sorts, the store is a vector index.\<close>

sublocale slice_sorter \<subseteq> mem_vector: vector_index Upsert "SearchVec srt" part index_ok
proof unfold_locales
  fix v :: vector_store and it :: item assume ok: "index_ok v" "NUL \<notin> set (it_TenantID it)"
  then show "index_ok (Upsert v it)" by (rule Upsert_ok)
  from ok show "part (Upsert v it) =
        (if it_TenantID it = [] \<or> it_Ref it = [] \<or>
            it_Ref it \<in> it_Ref ` set (part v (it_TenantID it)) then part v
         else (part v)(it_TenantID it := part v (it_TenantID it) @ [it]))"
    by (cases rule: Upsert_cases) auto
next
  fix h v t q k assume "h \<in> set (SearchVec srt v t q k)"
  then show "h_Item h \<in> set (part v t)" by (rule SearchVec_in [OF slice_sorter_axioms])
next
  fix v :: vector_store and it t assume "index_ok v" "it \<in> set (part v t)"
  then show "it_TenantID it = t" unfolding index_ok_def by blast
qed (simp_all add: SearchVec_def)

context slice_sorter
begin

lemma SearchVec_isolated:
  "index_ok v \<Longrightarrow> list_all (\<lambda>it. NUL \<notin> set (it_TenantID it)) its \<Longrightarrow>
   SearchVec srt (foldl Upsert v its) t q k
     = SearchVec srt (foldl Upsert v (filter (\<lambda>it. it_TenantID it = t) its)) t q k"
  by (rule mem_vector.search_isolated)

lemma SearchVec_scoped:
  "index_ok v \<Longrightarrow> h \<in> set (SearchVec srt v t q k) \<Longrightarrow> it_TenantID (h_Item h) = t"
  by (rule mem_vector.search_scoped)

lemma SearchVec_prefix:
  assumes "t \<noteq> []"
  shows "SearchVec srt s t q k = take (if k \<le> 0 then 5 else nat k)
    (srt better (map (\<lambda>it. \<lparr>h_Item = it, h_Score = Cosine q (it_Vec it)\<rparr>) (part s t)))"
  using assms by (auto simp: SearchVec_def Let_def)

end

lemma upserts_refs:
  assumes "list_all (\<lambda>it. NUL \<notin> set (it_TenantID it)) its"
  shows "it_Ref ` set (part (foldl Upsert NewMemVector its) t)
      = {it_Ref it | it. it \<in> set its \<and> it_TenantID it = t \<and> t \<noteq> [] \<and> it_Ref it \<noteq> []}"
  using assms
proof (induction its rule: rev_induct)
  case Nil
  then show ?case by (simp add: NewMemVector_def part_def)
next
  case (snoc it its)
  have ok: "index_ok (foldl Upsert NewMemVector its)"
    by (rule insertion.mem_vector.upserts_keep [OF NewMemVector_ok]) (use snoc.prems in simp)
  have nul: "NUL \<notin> set (it_TenantID it)" using snoc.prems by simp
  have IH: "it_Ref ` set (part (foldl Upsert NewMemVector its) t)
      = {it_Ref it | it. it \<in> set its \<and> it_TenantID it = t \<and> t \<noteq> [] \<and> it_Ref it \<noteq> []}"
    using snoc by simp
  from ok nul show ?case
  proof (cases rule: Upsert_cases)
    case 1
    then show ?thesis using IH by auto
  next
    case 2
    then show ?thesis using IH by auto
  qed
qed

subsection \<open>What semantic search promises\<close>

text \<open>
  C21. Tenant isolation of semantic search: whatever sequence of items has been inserted, a tenant's
  search gives the result it would give if only that tenant's items had ever been inserted
  (scores, ranking and number of hits included), all hits belong to the tenant, and the empty
  tenant gets nothing.
\<close>

theorem vector_non_interference:
  assumes "slice_sorter srt" "list_all (\<lambda>it. NUL \<notin> set (it_TenantID it)) its"
  shows "SearchVec srt (foldl Upsert NewMemVector its) t q k
       = SearchVec srt (foldl Upsert NewMemVector (filter (\<lambda>it. it_TenantID it = t) its)) t q k \<and>
     list_all (\<lambda>h. it_TenantID (h_Item h) = t) (SearchVec srt (foldl Upsert NewMemVector its) t q k) \<and>
     SearchVec srt (foldl Upsert NewMemVector its) [] q k = []"
proof -
  have ok: "index_ok (foldl Upsert NewMemVector its)"
    by (rule insertion.mem_vector.upserts_keep [OF NewMemVector_ok assms(2)])
  show ?thesis
    using slice_sorter.SearchVec_isolated [OF assms(1) NewMemVector_ok assms(2)]
      slice_sorter.SearchVec_scoped [OF assms(1) ok] by (simp add: list_all_iff SearchVec_def)
qed

definition an_item :: "string \<Rightarrow> string \<Rightarrow> f32 list \<Rightarrow> item" where
  "an_item t r v = \<lparr>it_TenantID = t, it_Ref = r, it_SourceType = ''log'', it_Vec = v, it_Version = ''hash-v1''\<rparr>"

theorem vector_non_interference_witness:
  "SearchVec insertionSort (foldl Upsert NewMemVector
      [an_item ''b'' ''log:1'' [1, 0], an_item ''a'' ''log:2'' [3/5, 4/5]]) ''a'' [1, 0] 10
   = [\<lparr>h_Item = an_item ''a'' ''log:2'' [3/5, 4/5], h_Score = 3/5\<rparr>]"
  using vector_non_interference [OF insertion.slice_sorter_axioms,
      of "[an_item ''b'' ''log:1'' [1, 0], an_item ''a'' ''log:2'' [3/5, 4/5]]" "''a''" "[1, 0]" 10]
  by (simp add: an_item_def Upsert_def SearchVec_def NewMemVector_def part_def ref_key_def
      insertionSort_def Cosine_def)

text \<open>
  Inserting is idempotent on (tenant, reference): after any sequence of insertions each
  reference of a tenant is indexed exactly once, with the item that came first; an item without
  tenant or reference is never indexed; and inserting again changes nothing.
\<close>

theorem Upsert_once:
  assumes "list_all (\<lambda>it. NUL \<notin> set (it_TenantID it)) its"
  shows "distinct (map it_Ref (part (foldl Upsert NewMemVector its) t)) \<and>
    it_Ref ` set (part (foldl Upsert NewMemVector its) t)
      = {it_Ref it | it. it \<in> set its \<and> it_TenantID it = t \<and> t \<noteq> [] \<and> it_Ref it \<noteq> []} \<and>
    (\<forall>it \<in> set its. Upsert (foldl Upsert NewMemVector its) it = foldl Upsert NewMemVector its)"
proof (intro conjI ballI)
  let ?v = "foldl Upsert NewMemVector its"
  have ok: "index_ok ?v"
    by (rule insertion.mem_vector.upserts_keep [OF NewMemVector_ok assms])
  then show "distinct (map it_Ref (part ?v t))" by (simp add: index_ok_def)
  show "it_Ref ` set (part ?v t)
      = {it_Ref it | it. it \<in> set its \<and> it_TenantID it = t \<and> t \<noteq> [] \<and> it_Ref it \<noteq> []}"
    by (rule upserts_refs [OF assms])
  fix it assume it: "it \<in> set its"
  then have "NUL \<notin> set (it_TenantID it)" using assms by (auto simp: list_all_iff)
  with ok show "Upsert ?v it = ?v"
    by (cases rule: Upsert_cases) (use it upserts_refs [OF assms, of "it_TenantID it"] in auto)
qed

theorem Upsert_once_witness:
  "map it_Ref (part (foldl Upsert NewMemVector
      [an_item ''a'' ''log:1'' [1], an_item ''a'' ''log:1'' [0], an_item ''a'' [] [1]]) ''a'') = [''log:1'']"
  using Upsert_once [of "[an_item ''a'' ''log:1'' [1], an_item ''a'' ''log:1'' [0], an_item ''a'' [] [1]]" "''a''"]
  by (simp add: an_item_def Upsert_def NewMemVector_def part_def)

text \<open>
  C24. Semantic search returns the best hits: its result is sorted by falling score, has
  \<open>min k n\<close> hits of the \<open>n\<close> items of the tenant (5 when \<open>k\<close> is not positive), each with its cosine
  similarity, no item more often than it is indexed, and no item left out scores higher than
  one returned.
\<close>

theorem SearchVec_top_k:
  assumes "slice_sorter srt" "t \<noteq> []"
  shows "sorted_wrt (\<lambda>x y. h_Score x \<ge> h_Score y) (SearchVec srt s t q k) \<and>
    length (SearchVec srt s t q k) = min (if k \<le> 0 then 5 else nat k) (length (part s t)) \<and>
    (\<forall>h \<in> set (SearchVec srt s t q k). h_Score h = Cosine q (it_Vec (h_Item h))) \<and>
    mset (map h_Item (SearchVec srt s t q k)) \<subseteq># mset (part s t) \<and>
    (\<forall>it \<in># mset (part s t) - mset (map h_Item (SearchVec srt s t q k)).
       \<forall>h \<in> set (SearchVec srt s t q k). Cosine q (it_Vec it) \<le> h_Score h)"
proof -
  define hs where "hs = map (\<lambda>it. \<lparr>h_Item = it, h_Score = Cosine q (it_Vec it)\<rparr>) (part s t)"
  define n where "n = (if k \<le> 0 then 5 else nat k)"
  let ?r = "take n (srt better hs)"
  note srt = slice_sorter.srt_set [OF assms(1)] slice_sorter.srt_length [OF assms(1)]
  have r: "SearchVec srt s t q k = ?r"
    using slice_sorter.SearchVec_prefix [OF assms] by (simp add: hs_def n_def)
  have sub: "mset ?r \<subseteq># mset hs"
    using slice_sorter.srt_perm [OF assms(1), of hs]
    by (metis append_take_drop_id mset_append mset_subset_eq_add_left)
  have items: "mset (part s t) = image_mset h_Item (mset hs)"
    by (simp add: hs_def flip: mset_map) (simp add: comp_def)
  have "\<exists>y \<in># mset hs - mset ?r. h_Item y = it" if "it \<in># mset (part s t) - mset (map h_Item ?r)" for it
  proof -
    have "mset (part s t) - mset (map h_Item ?r) = image_mset h_Item (mset hs - mset ?r)"
      unfolding items mset_map by (rule image_mset_Diff [OF sub, symmetric])
    with that show ?thesis by auto
  qed
  moreover have "h_Score y = Cosine q (it_Vec (h_Item y))" if "y \<in> set hs" for y
    using that by (auto simp: hs_def)
  moreover have "h_Score y \<le> h_Score h" if "y \<in># mset hs - mset ?r" "h \<in> set ?r" for y h
    by (rule slice_sorter.prefix_best [OF assms(1) refl that(2) that(1)])
  ultimately have "\<forall>it \<in># mset (part s t) - mset (map h_Item ?r). \<forall>h \<in> set ?r. Cosine q (it_Vec it) \<le> h_Score h"
    by (metis in_diffD set_mset_mset)
  moreover have "\<forall>h \<in> set ?r. h_Score h = Cosine q (it_Vec (h_Item h))"
    by (auto simp: srt hs_def dest!: in_set_takeD)
  moreover have "mset (map h_Item ?r) \<subseteq># mset (part s t)"
    unfolding items mset_map by (rule image_mset_subseteq_mono [OF sub])
  moreover have "sorted_wrt (\<lambda>x y. h_Score x \<ge> h_Score y) ?r"
    using slice_sorter.srt_sorted [OF assms(1)] by (rule sorted_wrt_take)
  moreover have "length ?r = min n (length (part s t))"
    by (simp add: srt hs_def min.commute)
  ultimately show ?thesis unfolding r n_def by blast
qed

theorem SearchVec_top_k_witness:
  "length (SearchVec insertionSort (foldl Upsert NewMemVector
      [an_item ''a'' ''log:1'' [1], an_item ''a'' ''log:2'' [0]]) ''a'' [1] 1) = 1"
  using SearchVec_top_k [OF insertion.slice_sorter_axioms, of "''a''"
      "foldl Upsert NewMemVector [an_item ''a'' ''log:1'' [1], an_item ''a'' ''log:2'' [0]]" "[1]" 1]
  by (simp add: an_item_def Upsert_def NewMemVector_def part_def ref_key_def)

end
