(* ===== verification/EmbedWorker.thy ===== *)
theory EmbedWorker
  imports VectorStore Store
begin

text \<open>
  \<open>internal/worker/embedworker.go\<close>: the worker that polls the log store behind a checkpoint, embeds
  what is new and inserts it into the index. The log store, the embedder and the vector store
  are interfaces in the code, so their operations are arguments, and the state of the shared
  vector store is passed through. The calls of the metrics hooks are recorded in order (a hook
  that is not set ignores its calls).
\<close>

datatype metric_call = OnEmbedded nat | OnDedup | OnDLQ | SetLag u64

record dead_letter =
  dl_Entry :: stored_entry
  dl_Err :: string
  dl_At :: instant

record 'v embed_worker =
  ew_poll :: duration
  ew_batch :: int
  ew_lastID :: u64
  ew_seen :: "string set"
  ew_dlq :: "dead_letter list"
  ew_m :: "metric_call list"
  ew_vec :: 'v

definition NewEmbed :: "'v \<Rightarrow> duration \<Rightarrow> int \<Rightarrow> 'v embed_worker" where
  "NewEmbed v poll batch =
     \<lparr>ew_poll = (if poll \<le> 0 then 200 * 1000000 else poll),
      ew_batch = (if batch \<le> 0 then 200 else batch),
      ew_lastID = 0, ew_seen = {}, ew_dlq = [], ew_m = [], ew_vec = v\<rparr>"

definition log_item :: "(string \<Rightarrow> f32 list) \<Rightarrow> string \<Rightarrow> stored_entry \<Rightarrow> item" where
  "log_item emb version e =
     \<lparr>it_TenantID = TenantID (LogEntry e), it_Ref = Ref e, it_SourceType = ''log'',
      it_Vec = emb (Message (LogEntry e)), it_Version = version\<rparr>"

text \<open>\<open>process\<close>: its error is always nil.\<close>

definition process ::
  "(string \<Rightarrow> f32 list) \<Rightarrow> string \<Rightarrow> ('v \<Rightarrow> item \<Rightarrow> 'v) \<Rightarrow> 'v embed_worker \<Rightarrow> stored_entry
   \<Rightarrow> err option \<times> 'v embed_worker" where
  "process emb version upsert w e =
     (let h = ContentHash (LogEntry e) in
      if h \<in> ew_seen w then (None, w\<lparr>ew_m := ew_m w @ [OnDedup]\<rparr>)
      else (None, w\<lparr>ew_seen := insert h (ew_seen w),
                    ew_vec := upsert (ew_vec w) (log_item emb version e)\<rparr>))"

definition pushDLQ :: "instant \<Rightarrow> 'v embed_worker \<Rightarrow> stored_entry \<Rightarrow> err \<Rightarrow> 'v embed_worker" where
  "pushDLQ now w e er =
     w\<lparr>ew_dlq := ew_dlq w @ [\<lparr>dl_Entry = e, dl_Err = err_text er, dl_At = now\<rparr>],
       ew_m := ew_m w @ [OnDLQ]\<rparr>"

text \<open>The loop of \<open>tick\<close> over the entries, with its counter; \<open>now\<close> stamps dead letters.\<close>

fun tick_loop ::
  "(string \<Rightarrow> f32 list) \<Rightarrow> string \<Rightarrow> ('v \<Rightarrow> item \<Rightarrow> 'v) \<Rightarrow> instant \<Rightarrow> stored_entry list
   \<Rightarrow> nat \<times> 'v embed_worker \<Rightarrow> nat \<times> 'v embed_worker" where
  "tick_loop emb version upsert now [] (n, w) = (n, w)"
| "tick_loop emb version upsert now (e # es) (n, w) =
     (case process emb version upsert w e of
        (Some er, w1) \<Rightarrow> tick_loop emb version upsert now es (n, pushDLQ now w1 e er)
      | (None, w1) \<Rightarrow> tick_loop emb version upsert now es (n + 1, w1))"

text \<open>\<open>since\<close> is the store's \<open>Since\<close> at the time of the tick.\<close>

definition embed_tick ::
  "(string \<Rightarrow> f32 list) \<Rightarrow> string \<Rightarrow> ('v \<Rightarrow> item \<Rightarrow> 'v) \<Rightarrow> instant
   \<Rightarrow> (u64 \<Rightarrow> int \<Rightarrow> err + stored_entry list) \<Rightarrow> 'v embed_worker \<Rightarrow> 'v embed_worker" where
  "embed_tick emb version upsert now since w =
     (case since (ew_lastID w) (ew_batch w) of
        Inl _ \<Rightarrow> w
      | Inr es \<Rightarrow>
          if es = [] then w
          else (let (embedded, w) = tick_loop emb version upsert now es (0, w);
                    last_id = ID (last es);
                    w = (if last_id > ew_lastID w then w\<lparr>ew_lastID := last_id\<rparr> else w)
                in if embedded > 0 then w\<lparr>ew_m := ew_m w @ [OnEmbedded embedded]\<rparr> else w))"

text \<open>
  \<open>Run\<close>: one \<open>tick\<close> per tick of the timer and a last one when the context is cancelled. Each event
  carries the clock and the store's \<open>Since\<close> at its time; other goroutines may use the vector store
  in between (\<open>VecChanged\<close>, not an arm of the select).
\<close>

datatype 'v run_event =
    Ticked instant "u64 \<Rightarrow> int \<Rightarrow> err + stored_entry list"
  | Cancelled instant "u64 \<Rightarrow> int \<Rightarrow> err + stored_entry list"
  | VecChanged 'v

fun embed_run ::
  "(string \<Rightarrow> f32 list) \<Rightarrow> string \<Rightarrow> ('v \<Rightarrow> item \<Rightarrow> 'v) \<Rightarrow> 'v run_event list
   \<Rightarrow> 'v embed_worker \<Rightarrow> 'v embed_worker" where
  "embed_run emb version upsert [] w = w"
| "embed_run emb version upsert (Ticked now since # es) w =
     embed_run emb version upsert es (embed_tick emb version upsert now since w)"
| "embed_run emb version upsert (Cancelled now since # es) w =
     embed_tick emb version upsert now since w"
| "embed_run emb version upsert (VecChanged v # es) w =
     embed_run emb version upsert es (w\<lparr>ew_vec := v\<rparr>)"

definition Lag ::
  "(u64 \<Rightarrow> int \<Rightarrow> err + stored_entry list) \<Rightarrow> 'v embed_worker \<Rightarrow> u64 \<times> 'v embed_worker" where
  "Lag since w =
     (let pending = (case since (ew_lastID w) 1000000 of Inl _ \<Rightarrow> [] | Inr es \<Rightarrow> es);
          lag = of_nat (length pending)
      in (lag, w\<lparr>ew_m := ew_m w @ [SetLag lag]\<rparr>))"

definition DLQLen :: "'v embed_worker \<Rightarrow> nat" where "DLQLen w = length (ew_dlq w)"

definition Checkpoint :: "'v embed_worker \<Rightarrow> u64" where "Checkpoint w = ew_lastID w"

subsection \<open>One entry, one batch\<close>

text \<open>What processing does to the hashes seen and to the index.\<close>

definition absorb ::
  "(string \<Rightarrow> f32 list) \<Rightarrow> string \<Rightarrow> ('v \<Rightarrow> item \<Rightarrow> 'v) \<Rightarrow> string set \<times> 'v \<Rightarrow> stored_entry \<Rightarrow> string set \<times> 'v" where
  "absorb emb version upsert sv e =
     (if ContentHash (LogEntry e) \<in> fst sv then sv
      else (insert (ContentHash (LogEntry e)) (fst sv), upsert (snd sv) (log_item emb version e)))"

lemma process_absorb:
  "process emb version upsert w e = (None, w') \<Longrightarrow>
     (ew_seen w', ew_vec w') = absorb emb version upsert (ew_seen w, ew_vec w) e \<and>
     ew_lastID w' = ew_lastID w \<and> ew_batch w' = ew_batch w \<and> ew_dlq w' = ew_dlq w"
  "fst (process emb version upsert w e) = None"
  by (auto simp: process_def absorb_def Let_def split: if_splits)

lemma tick_loop_absorb:
  assumes "tick_loop emb version upsert now es (n, w) = (n', w')"
  shows "(ew_seen w', ew_vec w') = foldl (absorb emb version upsert) (ew_seen w, ew_vec w) es \<and>
     ew_lastID w' = ew_lastID w \<and> ew_batch w' = ew_batch w \<and> ew_dlq w' = ew_dlq w \<and> n' = n + length es"
  using assms
proof (induction es arbitrary: n w)
  case (Cons e es)
  obtain w1 where p: "process emb version upsert w e = (None, w1)"
    using process_absorb(2) by (metis prod.collapse)
  with Cons.prems have "tick_loop emb version upsert now es (n + 1, w1) = (n', w')" by simp
  from Cons.IH [OF this] process_absorb(1) [OF p] show ?case by simp
qed simp

text \<open>What the hooks have counted: entries embedded, duplicates, dead letters.\<close>

definition embedded_total :: "metric_call list \<Rightarrow> nat" where
  "embedded_total m = sum_list (map (\<lambda>c. case c of OnEmbedded n \<Rightarrow> n | _ \<Rightarrow> 0) m)"

definition dedup_total :: "metric_call list \<Rightarrow> nat" where
  "dedup_total m = length (filter (\<lambda>c. c = OnDedup) m)"

definition dlq_total :: "metric_call list \<Rightarrow> nat" where
  "dlq_total m = length (filter (\<lambda>c. c = OnDLQ) m)"

lemma totals_simps [simp]:
  "embedded_total [] = 0" "dedup_total [] = 0" "dlq_total [] = 0"
  "embedded_total (m @ [c]) = embedded_total m + (case c of OnEmbedded n \<Rightarrow> n | _ \<Rightarrow> 0)"
  "dedup_total (m @ [c]) = dedup_total m + (if c = OnDedup then 1 else 0)"
  "dlq_total (m @ [c]) = dlq_total m + (if c = OnDLQ then 1 else 0)"
  by (simp_all add: embedded_total_def dedup_total_def dlq_total_def)

text \<open>\<open>tally w n\<close>: \<open>n\<close> entries have been processed, counted or not, each new or a duplicate.\<close>

definition tally :: "'v embed_worker \<Rightarrow> nat \<Rightarrow> bool" where
  "tally w n \<longleftrightarrow> finite (ew_seen w) \<and> dlq_total (ew_m w) = 0 \<and> n = dedup_total (ew_m w) + card (ew_seen w)"

lemma process_tally:
  "process emb version upsert w e = (r, w') \<Longrightarrow> tally w n \<Longrightarrow>
     tally w' (n + 1) \<and> embedded_total (ew_m w') = embedded_total (ew_m w)"
  by (auto simp: process_def tally_def Let_def split: if_splits)

lemma tick_loop_tally:
  assumes "tick_loop emb version upsert now es (k, w) = (k', w')" "tally w n"
  shows "tally w' (n + length es) \<and> embedded_total (ew_m w') = embedded_total (ew_m w)"
  using assms
proof (induction es arbitrary: k w n)
  case (Cons e es)
  obtain w1 where p: "process emb version upsert w e = (None, w1)"
    using process_absorb(2) by (metis prod.collapse)
  with Cons.prems(1) have "tick_loop emb version upsert now es (k + 1, w1) = (k', w')" by simp
  from Cons.IH [OF this, of "n + 1"] process_tally [OF p Cons.prems(2)] show ?case by simp
qed simp

definition worker_counts :: "'v embed_worker \<Rightarrow> bool" where
  "worker_counts w \<longleftrightarrow> tally w (embedded_total (ew_m w))"

lemma embed_tick_counts:
  assumes "worker_counts w"
  shows "worker_counts (embed_tick emb version upsert now since w) \<and>
    embedded_total (ew_m (embed_tick emb version upsert now since w)) = embedded_total (ew_m w)
      + (case since (ew_lastID w) (ew_batch w) of Inl _ \<Rightarrow> 0 | Inr es \<Rightarrow> length es)"
proof (cases "since (ew_lastID w) (ew_batch w)")
  case (Inr es)
  obtain k w1 where l: "tick_loop emb version upsert now es (0, w) = (k, w1)" by fastforce
  have k: "k = length es" using tick_loop_absorb [OF l] by simp
  from tick_loop_tally [OF l assms [unfolded worker_counts_def]]
  have w1: "tally w1 (embedded_total (ew_m w) + length es)" "embedded_total (ew_m w1) = embedded_total (ew_m w)" by blast+
  show ?thesis
  proof (cases "es = []")
    case True
    with Inr assms show ?thesis by (simp add: embed_tick_def)
  next
    case False
    then have m: "ew_m (embed_tick emb version upsert now since w) = ew_m w1 @ [OnEmbedded (length es)]"
      "ew_seen (embed_tick emb version upsert now since w) = ew_seen w1"
      using Inr l k by (simp_all add: embed_tick_def Let_def)
    show ?thesis using w1 unfolding worker_counts_def tally_def m by (simp add: Inr)
  qed
qed (use assms in \<open>simp add: embed_tick_def\<close>)

lemma Lag_counts: "worker_counts w \<Longrightarrow> worker_counts (snd (Lag since w)) \<and> embedded_total (ew_m (snd (Lag since w))) = embedded_total (ew_m w)"
  by (simp add: Lag_def worker_counts_def tally_def Let_def)

lemma embed_tick_dlq: "ew_dlq (embed_tick emb version upsert now since w) = ew_dlq w"
proof (cases "since (ew_lastID w) (ew_batch w)")
  case (Inr es)
  obtain n' w' where l: "tick_loop emb version upsert now es (0, w) = (n', w')" by fastforce
  from tick_loop_absorb [OF l] Inr l show ?thesis
    by (simp add: embed_tick_def Let_def)
qed (simp add: embed_tick_def)

text \<open>
  The dead-letter queue is never used: whatever the store, the embedder and the index do, no run of
  the worker adds a letter to it, because \<open>process\<close> reports no error.
\<close>

theorem DLQ_never_grows:
  "DLQLen (embed_run emb version upsert evs w) = DLQLen w"
proof -
  have "ew_dlq (embed_run emb version upsert evs w) = ew_dlq w"
    by (induction emb version upsert evs w rule: embed_run.induct) (simp_all add: embed_tick_dlq)
  then show ?thesis by (simp add: DLQLen_def)
qed

subsection \<open>Following a growing log\<close>

text \<open>The entries of a batch whose content has not been seen: the first of each content.\<close>

fun fresh :: "string set \<Rightarrow> stored_entry list \<Rightarrow> stored_entry list" where
  "fresh S [] = []"
| "fresh S (e # es) =
     (if ContentHash (LogEntry e) \<in> S then fresh S es
      else e # fresh (insert (ContentHash (LogEntry e)) S) es)"

definition content_hashes :: "stored_entry list \<Rightarrow> string set" where
  "content_hashes es = (\<lambda>e. ContentHash (LogEntry e)) ` set es"

lemma absorb_fresh:
  "foldl (absorb emb version upsert) (S, v) es =
     (S \<union> content_hashes es, foldl upsert v (map (log_item emb version) (fresh S es)))"
  by (induction es arbitrary: S v) (auto simp: absorb_def content_hashes_def)

lemma fresh_subset: "set (fresh S es) \<subseteq> set es"
  by (induction S es rule: fresh.induct) auto

lemma distinct_fresh: "distinct (map ID es) \<Longrightarrow> distinct (map ID (fresh S es))"
  using fresh_subset by (induction S es rule: fresh.induct) fastforce+

text \<open>Every content is represented, and once.\<close>

lemma fresh_represents: "content_hashes (fresh S es) = content_hashes es - S"
  by (induction S es rule: fresh.induct) (auto simp: content_hashes_def)

lemma fresh_covers:
  "x \<in> set es \<Longrightarrow> \<exists>y \<in> set (fresh {} es). ContentHash (LogEntry y) = ContentHash (LogEntry x)"
proof -
  assume "x \<in> set es"
  then have "ContentHash (LogEntry x) \<in> content_hashes (fresh {} es)"
    by (simp add: fresh_represents) (simp add: content_hashes_def)
  then show ?thesis unfolding content_hashes_def by (metis imageE)
qed

lemma fresh_distinct_content: "distinct (map (\<lambda>e. ContentHash (LogEntry e)) (fresh S es))"
proof (induction S es rule: fresh.induct)
  case (2 S e es)
  have "ContentHash (LogEntry e) \<notin> content_hashes (fresh (insert (ContentHash (LogEntry e)) S) es)"
    by (simp add: fresh_represents)
  with 2 show ?case by (auto simp: content_hashes_def)
qed simp

lemma sorted_ids_distinct: "sorted_wrt (\<lambda>x y. ID x < ID y) xs \<Longrightarrow> distinct (map ID xs)"
  by (induction xs) fastforce+

lemma filter_ids_split:
  assumes "sorted_wrt (\<lambda>x y. ID x < ID y) xs" "a \<le> k" "k \<le> l"
  shows "filter (\<lambda>x. a < ID x \<and> ID x \<le> l) xs =
    filter (\<lambda>x. a < ID x \<and> ID x \<le> k) xs @ filter (\<lambda>x. k < ID x \<and> ID x \<le> l) xs"
  using assms(1)
proof (induction xs)
  case (Cons x xs)
  show ?case
  proof (cases "ID x \<le> k")
    case True
    with Cons assms(2,3) show ?thesis by auto
  next
    case False
    with Cons.prems have "filter (\<lambda>x. a < ID x \<and> ID x \<le> k) xs = []"
      by (fastforce simp: filter_empty_conv)
    with False Cons assms(2,3) show ?thesis by auto
  qed
qed simp

text \<open>The entries behind the checkpoint, those between \<open>a\<close> and it, and the successive states of a
  growing log.\<close>

definition pending :: "'v embed_worker \<Rightarrow> stored_entry list \<Rightarrow> stored_entry list" where
  "pending w es = filter (\<lambda>x. ew_lastID w < ID x) es"

definition upto :: "u64 \<Rightarrow> 'v embed_worker \<Rightarrow> stored_entry list \<Rightarrow> stored_entry list" where
  "upto a w es = filter (\<lambda>x. a < ID x \<and> ID x \<le> ew_lastID w) es"

fun growing :: "('s \<Rightarrow> stored_entry list) \<Rightarrow> ('s \<Rightarrow> bool) \<Rightarrow> 's \<Rightarrow> 's list \<Rightarrow> bool" where
  "growing cont ok s [] = True"
| "growing cont ok s (s' # ss) \<longleftrightarrow> ok s' \<and> (\<exists>ys. cont s' = cont s @ ys) \<and> growing cont ok s' ss"

locale embed_pipeline = log_source since contents source_ok + vector_index upsert vsearch part index_ok
  for since :: "'s \<Rightarrow> u64 \<Rightarrow> int \<Rightarrow> err + stored_entry list"
    and contents :: "'s \<Rightarrow> stored_entry list" and source_ok :: "'s \<Rightarrow> bool"
    and upsert :: "'v \<Rightarrow> item \<Rightarrow> 'v"
    and vsearch :: "'v \<Rightarrow> string \<Rightarrow> f32 list \<Rightarrow> int \<Rightarrow> hit list"
    and part :: "'v \<Rightarrow> string \<Rightarrow> item list" and index_ok :: "'v \<Rightarrow> bool"
begin

abbreviation tick_at :: "(string \<Rightarrow> f32 list) \<Rightarrow> string \<Rightarrow> instant \<Rightarrow> 'v embed_worker \<Rightarrow> 's \<Rightarrow> 'v embed_worker" where
  "tick_at emb version now w s \<equiv> embed_tick emb version upsert now (since s) w"

lemma tick_cases:
  assumes "source_ok s"
  obtains "pending w (contents s) = []" "tick_at emb version now w s = w"
  | es where "es \<noteq> []" "es = take (since_limit (ew_batch w)) (pending w (contents s))"
      "es = filter (\<lambda>x. ew_lastID w < ID x \<and> ID x \<le> ID (last es)) (contents s)"
      "pending w (contents s) = es @ pending (tick_at emb version now w s) (contents s)"
      "ew_lastID (tick_at emb version now w s) = ID (last es)" "ew_lastID w < ID (last es)"
      "(ew_seen (tick_at emb version now w s), ew_vec (tick_at emb version now w s))
         = foldl (absorb emb version upsert) (ew_seen w, ew_vec w) es"
      "ew_batch (tick_at emb version now w s) = ew_batch w"
proof -
  define es where "es = take (since_limit (ew_batch w)) (pending w (contents s))"
  have since: "since s (ew_lastID w) (ew_batch w) = Inr es"
    by (simp add: since_reads [OF assms] es_def pending_def)
  show ?thesis
  proof (cases "es = []")
    case True
    with since_limit_pos [of "ew_batch w"] have "pending w (contents s) = []" by (simp add: es_def)
    then show ?thesis using True since by (intro that(1)) (simp_all add: embed_tick_def)
  next
    case False
    note adv = advance_checkpoint [OF assms since False]
    obtain n w1 where l: "tick_loop emb version upsert now es (0, w) = (n, w1)" by fastforce
    note run = tick_loop_absorb [OF l]
    have t: "tick_at emb version now w s = (let w = w1\<lparr>ew_lastID := ID (last es)\<rparr> in
        if n > 0 then w\<lparr>ew_m := ew_m w @ [OnEmbedded n]\<rparr> else w)"
      using since False l run adv(2) by (simp add: embed_tick_def Let_def)
    then have last: "ew_lastID (tick_at emb version now w s) = ID (last es)" by (simp add: Let_def)
    show ?thesis
    proof (rule that(2) [OF False es_def adv(3) _ last adv(2)])
      show "pending w (contents s) = es @ pending (tick_at emb version now w s) (contents s)"
        using adv(1) last by (simp add: pending_def)
    qed (use t run in \<open>simp_all add: Let_def\<close>)
  qed
qed

lemma pending_after_ticks:
  assumes "source_ok s"
  shows "length (pending (foldl (tick_at emb version now) w (replicate n s)) (contents s))
       = length (pending w (contents s)) - n * since_limit (ew_batch w)"
proof (induction n arbitrary: w)
  case (Suc n)
  from assms show ?case
  proof (cases rule: tick_cases [where w = w and now = now and emb = emb and version = version])
    case 1
    with Suc.IH [of w] show ?thesis by simp
  next
    case (2 es)
    have "length es = min (since_limit (ew_batch w)) (length (pending w (contents s)))"
      using 2(2) by (simp add: min.commute)
    moreover have "length (pending w (contents s)) = length es + length (pending (tick_at emb version now w s) (contents s))"
      using 2(4) by (metis length_append)
    ultimately have "length (pending (tick_at emb version now w s) (contents s)) = length (pending w (contents s)) - since_limit (ew_batch w)"
      by linarith
    with Suc.IH [of "tick_at emb version now w s"] 2(8) show ?thesis by simp
  qed
qed simp

definition caught :: "(string \<Rightarrow> f32 list) \<Rightarrow> string \<Rightarrow> u64 \<Rightarrow> string set \<times> 'v \<Rightarrow> 'v embed_worker \<Rightarrow> 's \<Rightarrow> bool" where
  "caught emb version a sv w s \<longleftrightarrow>
     a \<le> ew_lastID w \<and> (ew_lastID w = a \<or> ew_lastID w \<in> ID ` set (contents s)) \<and>
     (ew_seen w, ew_vec w) = foldl (absorb emb version upsert) sv (upto a w (contents s))"

lemma upto_grows:
  assumes "caught emb version a sv w s" "source_ok s'" "contents s' = contents s @ ys"
  shows "upto a w (contents s') = upto a w (contents s)"
proof (cases "ew_lastID w = a")
  case True
  then show ?thesis by (simp add: upto_def not_less flip: not_le)
next
  case False
  then obtain e where e: "e \<in> set (contents s)" "ID e = ew_lastID w"
    using assms(1) by (auto simp: caught_def)
  have "ID e < ID y" if "y \<in> set ys" for y
    using ids_ascend [OF assms(2)] e(1) that unfolding assms(3) by (auto simp: sorted_wrt_append)
  then show ?thesis using e(2) by (fastforce simp: upto_def assms(3) filter_empty_conv)
qed

lemma caught_grows:
  assumes "caught emb version a sv w s" "source_ok s'" "contents s' = contents s @ ys"
  shows "caught emb version a sv w s'"
  using assms(1,3) upto_grows [OF assms] by (auto simp: caught_def)

lemma upto_tick:
  assumes "source_ok s" "a \<le> ew_lastID w"
  shows "upto a (tick_at emb version now w s) (contents s) = upto a w (contents s) @
    (case since s (ew_lastID w) (ew_batch w) of Inl _ \<Rightarrow> [] | Inr es \<Rightarrow> es)"
  using assms(1)
proof (cases rule: tick_cases [where w = w and now = now and emb = emb and version = version])
  case 1
  then show ?thesis by (simp add: since_reads [OF assms(1)] pending_def)
next
  case (2 es)
  then have "since s (ew_lastID w) (ew_batch w) = Inr es" by (simp add: since_reads [OF assms(1)] pending_def)
  moreover have "upto a (tick_at emb version now w s) (contents s) = upto a w (contents s) @ es"
    using filter_ids_split [OF ids_ascend [OF assms(1)] assms(2), of "ID (last es)"] 2(3,5,6) by (simp add: upto_def)
  ultimately show ?thesis by simp
qed

lemma caught_tick:
  assumes "caught emb version a sv w s" "source_ok s"
  shows "caught emb version a sv (tick_at emb version now w s) s"
  using assms(2)
proof (cases rule: tick_cases [where w = w and now = now and emb = emb and version = version])
  case 1
  with assms show ?thesis by simp
next
  case (2 es)
  have from_a: "a \<le> ew_lastID w" using assms(1) by (simp add: caught_def)
  have "since s (ew_lastID w) (ew_batch w) = Inr es" using 2(2) by (simp add: since_reads [OF assms(2)] pending_def)
  with upto_tick [OF assms(2) from_a, of emb version now]
  have "upto a (tick_at emb version now w s) (contents s) = upto a w (contents s) @ es" by simp
  moreover have "last es \<in> set (contents s)"
    using 2(1,3) by (metis (no_types, lifting) filter_is_subset last_in_set subsetD)
  ultimately show ?thesis
    using assms(1) from_a 2(5-7) by (auto simp: caught_def)
qed

lemma caught_run:
  "caught emb version a sv w s \<Longrightarrow> growing contents source_ok s ss \<Longrightarrow> caught emb version a sv (foldl (tick_at emb version now) w ss) (last (s # ss))"
proof (induction ss arbitrary: w s)
  case (Cons s' ss)
  then obtain ys where s': "source_ok s'" "contents s' = contents s @ ys" "growing contents source_ok s' ss" by auto
  have "caught emb version a sv (tick_at emb version now w s') s'"
    by (rule caught_tick [OF caught_grows [OF Cons.prems(1) s'(1,2)] s'(1)])
  from Cons.IH [OF this s'(3)] show ?case by simp
qed simp

text \<open>What the index then holds, when it held no reference to a log entry before.\<close>

lemma caught_indexes:
  assumes "caught emb version a (sn, v) w s" "source_ok s" "index_ok v"
    and new: "new = upto a w (contents s)"
    and tenants: "\<forall>x \<in> set (contents s). TenantID (LogEntry x) \<noteq> [] \<and> NUL \<notin> set (TenantID (LogEntry x))"
    and refs: "\<forall>x t. Ref x \<notin> it_Ref ` set (part v t)"
  shows "ew_seen w = sn \<union> content_hashes new \<and>
    part (ew_vec w) t = part v t
      @ map (log_item emb version) (filter (\<lambda>x. TenantID (LogEntry x) = t) (fresh sn new))"
proof -
  let ?f = "fresh sn new" and ?its = "map (log_item emb version) (fresh sn new)"
  have mem: "set ?f \<subseteq> set (contents s)"
    using fresh_subset [of sn new] by (auto simp: new upto_def)
  have "distinct (map ID new)"
    unfolding new upto_def by (intro sorted_ids_distinct sorted_wrt_filter ids_ascend assms(2))
  then have "distinct (map Ref ?f)"
    using distinct_fresh Ref_inj by (simp add: distinct_map inj_on_def)
  then have "distinct (map it_Ref ?its)" by (simp add: log_item_def comp_def)
  then have "part (foldl upsert v ?its) t = part v t @ filter (\<lambda>it. it_TenantID it = t) ?its"
    using mem tenants refs assms(3)
    by (intro upserts_append) (auto simp: log_item_def list_all_iff Ref_def)
  moreover have "filter (\<lambda>it. it_TenantID it = t) ?its
      = map (log_item emb version) (filter (\<lambda>x. TenantID (LogEntry x) = t) ?f)"
    by (simp add: filter_map comp_def log_item_def)
  ultimately show ?thesis using assms(1) by (simp add: caught_def new absorb_fresh)
qed

lemma caught_start: "caught emb version (ew_lastID w) (ew_seen w, ew_vec w) w s"
  by (simp add: caught_def upto_def not_less flip: not_le)

text \<open>From a checkpoint on, over a growing log.\<close>

lemma run_indexes:
  fixes w :: "'v embed_worker" and s :: 's and ss :: "'s list" and now :: instant
    and emb :: "string \<Rightarrow> f32 list" and version :: string
  defines "w' \<equiv> foldl (tick_at emb version now) w ss"
  defines "new \<equiv> upto (ew_lastID w) w' (contents (last (s # ss)))"
  assumes "growing contents source_ok s ss" "source_ok s" "index_ok (ew_vec w)"
    and tenants: "\<forall>x \<in> set (contents (last (s # ss))). TenantID (LogEntry x) \<noteq> [] \<and> NUL \<notin> set (TenantID (LogEntry x))"
    and refs: "\<forall>x t. Ref x \<notin> it_Ref ` set (part (ew_vec w) t)"
  shows "ew_lastID w \<le> ew_lastID w' \<and> ew_seen w' = ew_seen w \<union> content_hashes new \<and>
    part (ew_vec w') t = part (ew_vec w) t
      @ map (log_item emb version) (filter (\<lambda>x. TenantID (LogEntry x) = t) (fresh (ew_seen w) new))"
proof -
  have run: "caught emb version (ew_lastID w) (ew_seen w, ew_vec w) w' (last (s # ss))"
    unfolding w'_def by (rule caught_run [OF caught_start assms(3)])
  moreover have "source_ok (last (s # ss))"
    using assms(3,4) by (induction ss arbitrary: s) auto
  ultimately show ?thesis
    using caught_indexes [OF run _ assms(5) meta_eq_to_obj_eq [OF new_def] tenants refs] by (simp add: caught_def)
qed

end

interpretation mem_indexing: embed_pipeline Since entries "\<lambda>s. store_ok s \<and> store_fits s"
    Upsert "SearchVec insertionSort" part index_ok
  by unfold_locales

text \<open>What a tick puts into an index, for any store: items of entries it has read.\<close>

lemma copy_from_subset: "set (copy_from xs n i out) \<subseteq> set xs \<union> set out"
proof (induction xs n i out rule: copy_from.induct)
  case (3 xs limit i out)
  then show ?case by (cases xs) auto
qed auto

lemma Since_subset: "Since s a n = Inr es \<Longrightarrow> set es \<subseteq> set (entries s)"
  using copy_from_subset [of "entries s"] by (fastforce simp: Since_def Let_def)

lemma absorb_all_index:
  assumes "index_ok v" "\<forall>x \<in> set es. NUL \<notin> set (TenantID (LogEntry x))"
    and "(sn', v') = foldl (absorb emb version Upsert) (sn, v) es"
  shows "index_ok v' \<and> (\<forall>t. set (part v' t) \<subseteq>
    set (part v t) \<union> {log_item emb version x | x. x \<in> set es \<and> TenantID (LogEntry x) = t})"
  using assms
proof (induction es arbitrary: sn v)
  case (Cons x es)
  let ?it = "log_item emb version x"
  obtain sn1 v1 where one: "absorb emb version Upsert (sn, v) x = (sn1, v1)" by fastforce
  have nul: "NUL \<notin> set (it_TenantID ?it)" using Cons.prems(2) by (simp add: log_item_def)
  have "index_ok v1 \<and> set (part v1 t) \<subseteq> set (part v t) \<union> {log_item emb version y | y. y = x \<and> TenantID (LogEntry y) = t}" for t
  proof (cases "v1 = v")
    case False
    with one have v1: "v1 = Upsert v ?it" by (auto simp: absorb_def split: if_splits)
    have "set (part (Upsert v ?it) t) \<subseteq> set (part v t) \<union> (if t = it_TenantID ?it then {?it} else {})"
      using Cons.prems(1) nul by (cases rule: Upsert_cases [of v ?it]) auto
    then show ?thesis using Upsert_ok [OF Cons.prems(1) nul] by (auto simp: v1 log_item_def split: if_splits)
  qed (use Cons.prems(1) in simp)
  moreover from this Cons.IH [of v1 sn1] Cons.prems one
  have "index_ok v' \<and> (\<forall>t. set (part v' t) \<subseteq>
    set (part v1 t) \<union> {log_item emb version y | y. y \<in> set es \<and> TenantID (LogEntry y) = t})" by simp
  ultimately show ?case by fastforce
qed simp

lemma embed_tick_index:
  assumes "index_ok (ew_vec w)" "\<forall>x \<in> set (entries s). NUL \<notin> set (TenantID (LogEntry x))"
    and "w' = embed_tick emb version Upsert now (Since s) w"
  shows "index_ok (ew_vec w') \<and> (\<forall>t. set (part (ew_vec w') t) \<subseteq>
    set (part (ew_vec w) t) \<union> {log_item emb version x | x. x \<in> set (entries s) \<and> TenantID (LogEntry x) = t})"
proof -
  obtain es where es: "Since s (ew_lastID w) (ew_batch w) = Inr es" by (simp add: Since_def Let_def)
  obtain n w1 where l: "tick_loop emb version Upsert now es (0, w) = (n, w1)" by fastforce
  have "ew_vec w' = (if es = [] then ew_vec w else ew_vec w1)"
    using assms(3) es l by (simp add: embed_tick_def Let_def)
  then have "ew_vec w' = ew_vec w1" using l by (auto split: if_splits)
  moreover note Since_subset [OF es]
  moreover have "\<forall>x \<in> set es. NUL \<notin> set (TenantID (LogEntry x))" using assms(2) Since_subset [OF es] by blast
  ultimately show ?thesis
    using absorb_all_index [OF assms(1), of es "ew_seen w1" "ew_vec w1"] tick_loop_absorb [OF l] by fastforce
qed

subsection \<open>The worker on the in-memory stores\<close>

text \<open>The writer flushes the batches \<open>bs\<close> one after the other, with a tick of the worker after each
  (an empty batch is a tick of its own).\<close>

definition log_and_index ::
  "(string \<Rightarrow> f32 list) \<Rightarrow> string \<Rightarrow> instant \<Rightarrow> log_entry list list
   \<Rightarrow> mem_store \<times> vector_store embed_worker \<Rightarrow> mem_store \<times> vector_store embed_worker" where
  "log_and_index emb version now bs sw =
     foldl (\<lambda>(s, w) b. let s' = fst (WriteBatch s b) in (s', embed_tick emb version Upsert now (Since s') w)) sw bs"

fun successive :: "mem_store \<Rightarrow> log_entry list list \<Rightarrow> mem_store list" where
  "successive s [] = []"
| "successive s (b # bs) = fst (WriteBatch s b) # successive (fst (WriteBatch s b)) bs"

lemma log_and_index_successive:
  "log_and_index emb version now bs (s, w) =
     (last (s # successive s bs),
      foldl (\<lambda>w s. embed_tick emb version Upsert now (Since s) w) w (successive s bs))"
  by (induction bs arbitrary: s w) (simp_all add: log_and_index_def Let_def)

lemma successive_growing:
  "store_ok s \<Longrightarrow> store_fits (last (s # successive s bs)) \<Longrightarrow>
   growing entries (\<lambda>s. store_ok s \<and> store_fits s) s (successive s bs) \<and> store_fits s"
proof (induction bs arbitrary: s)
  case (Cons b bs)
  let ?s = "fst (WriteBatch s b)"
  have "store_ok ?s" using Cons.prems(1) by (rule mem_sink.write_fst_keeps)
  with Cons have IH: "growing entries (\<lambda>s. store_ok s \<and> store_fits s) ?s (successive ?s bs)" "store_fits ?s"
    by auto
  from WriteBatch_appends [of s b] obtain ys where "entries ?s = entries s @ ys" ..
  with IH \<open>store_ok ?s\<close> show ?case by (auto simp: store_fits_def)
qed simp

definition ok_tenants :: "mem_store \<Rightarrow> bool" where
  "ok_tenants s \<longleftrightarrow>
     list_all (\<lambda>x. TenantID (LogEntry x) \<noteq> [] \<and> NUL \<notin> set (TenantID (LogEntry x))) (entries s)"

definition no_log_refs :: "vector_store \<Rightarrow> bool" where
  "no_log_refs v \<longleftrightarrow> (\<forall>t. list_all (\<lambda>it. \<not> has_prefix (it_Ref it) ''log:'') (part v t))"

lemma no_log_refs_Ref: "no_log_refs v \<Longrightarrow> Ref x \<notin> it_Ref ` set (part v t)"
proof
  assume "no_log_refs v" "Ref x \<in> it_Ref ` set (part v t)"
  then have "\<not> has_prefix (Ref x) ''log:''" by (auto simp: no_log_refs_def list_all_iff)
  then show False by (simp add: Ref_def has_prefix_iff)
qed

text \<open>
  The worker loses nothing and embeds nothing twice: however writes and ticks alternate, the index
  holds for each tenant, behind what was there before, exactly one item for every content up to
  the checkpoint, made from the first entry with that content, in log order; and the hashes seen
  are those of these entries.
\<close>

theorem embed_worker_exactly_once:
  assumes "store_ok s0" "entries s0 = []" "index_ok v0" "no_log_refs v0"
    and "log_and_index emb version now bs (s0, NewEmbed v0 poll n) = (s, w)"
    and "store_fits s" "ok_tenants s" "processed = filter (\<lambda>x. ID x \<le> Checkpoint w) (entries s)"
  shows "ew_seen w = content_hashes processed \<and>
    part (ew_vec w) t = part v0 t
      @ map (log_item emb version) (filter (\<lambda>x. TenantID (LogEntry x) = t) (fresh {} processed)) \<and>
    content_hashes (fresh {} processed) = content_hashes processed \<and>
    distinct (map (\<lambda>x. ContentHash (LogEntry x)) (fresh {} processed))"
proof -
  let ?w0 = "NewEmbed v0 poll n"
  have s: "s = last (s0 # successive s0 bs)"
    and w: "w = foldl (\<lambda>w s. embed_tick emb version Upsert now (Since s) w) ?w0 (successive s0 bs)"
    using assms(5) by (simp_all add: log_and_index_successive)
  note grow = successive_growing [OF assms(1), of bs, folded s, OF assms(6)]
  have "store_ok s" using grow assms(1) unfolding s
    by (induction bs arbitrary: s0) auto
  then have pos: "0 < ID x" if "x \<in> set (entries s)" for x
    using mem_source.ids_positive [OF conjI [OF _ assms(6)] that] by blast
  have up: "upto (ew_lastID ?w0) w (entries s) = processed"
    using pos by (auto simp: upto_def assms(8) NewEmbed_def Checkpoint_def intro!: filter_cong)
  have w0: "ew_vec ?w0 = v0" "ew_seen ?w0 = {}" by (simp_all add: NewEmbed_def)
  have "ew_seen w = ew_seen ?w0 \<union> content_hashes (upto (ew_lastID ?w0) w (entries s)) \<and>
    part (ew_vec w) t = part (ew_vec ?w0) t @ map (log_item emb version)
      (filter (\<lambda>x. TenantID (LogEntry x) = t) (fresh (ew_seen ?w0) (upto (ew_lastID ?w0) w (entries s))))"
    using mem_indexing.run_indexes [of s0 "successive s0 bs" ?w0 emb version now t, folded s w]
      grow assms(1,3,4,7) no_log_refs_Ref [OF assms(4)]
    by (auto simp: w0 ok_tenants_def list_all_iff)
  then show ?thesis
    unfolding up w0 by (simp add: fresh_represents fresh_distinct_content)
qed

lemma ticks_catch_up:
  assumes "store_ok s" "store_fits s" "length (pending w (entries s)) \<le> n * since_limit (ew_batch w)"
    and "w' = foldl (\<lambda>w s. embed_tick emb version Upsert now (Since s) w) w (replicate n s)"
  shows "(\<forall>x \<in> set (entries s). ID x \<le> Checkpoint w') \<and> fst (Lag (Since s) w') = 0"
proof -
  have ok: "store_ok s \<and> store_fits s" using assms(1,2) by blast
  have "length (pending w' (entries s)) = 0"
    using mem_indexing.pending_after_ticks [OF ok, of emb version now w n] assms(3,4) by simp
  then have caught_up: "\<forall>x \<in> set (entries s). ID x \<le> ew_lastID w'"
    by (auto simp: pending_def filter_empty_conv not_less)
  then have "Since s (ew_lastID w') 1000000 = Inr []"
    using mem_source.poll_empty_iff [OF ok] by blast
  with caught_up show ?thesis by (simp add: Lag_def Checkpoint_def)
qed

text \<open>
  The worker catches up: from any checkpoint, as many ticks as it takes batches to cover what is
  pending bring the checkpoint past every entry of the log and the lag to zero.
\<close>

theorem embed_worker_catches_up:
  assumes "store_ok s" "store_fits s" "length (pending w (entries s)) \<le> n * since_limit (ew_batch w)"
    and "w' = foldl (\<lambda>w s. embed_tick emb version Upsert now (Since s) w) w (replicate n s)"
  shows "(\<forall>x \<in> set (entries s). ID x \<le> Checkpoint w') \<and> fst (Lag (Since s) w') = 0"
  by (rule ticks_catch_up [OF assms])

definition twin_batch :: "log_entry list" where
  "twin_batch = [red_entry ''acme'' ''m'', red_entry ''acme'' ''m'']"

definition twin_store :: mem_store where
  "twin_store = fst (WriteBatch NewMem twin_batch)"

lemma twin_store_facts: "store_ok twin_store" "store_fits twin_store" "ok_tenants twin_store"
  "entries twin_store = [\<lparr>ID = 1, LogEntry = red_entry ''acme'' ''m''\<rparr>,
                         \<lparr>ID = 2, LogEntry = red_entry ''acme'' ''m''\<rparr>]"
proof -
  show "store_ok twin_store" unfolding twin_store_def
    by (rule mem_sink.write_fst_keeps [OF NewMem_ok])
  show es: "entries twin_store = [\<lparr>ID = 1, LogEntry = red_entry ''acme'' ''m''\<rparr>,
                         \<lparr>ID = 2, LogEntry = red_entry ''acme'' ''m''\<rparr>]"
    by (simp add: twin_store_def twin_batch_def WriteBatch_def red_entry_def NewMem_def)
  show "store_fits twin_store" "ok_tenants twin_store"
    by (simp_all add: store_fits_def ok_tenants_def es red_entry_def)
qed

lemma twin_tick:
  "ew_lastID (embed_tick emb version up now (Since twin_store) (NewEmbed v p 0)) = 2"
proof -
  have "Since twin_store 0 200 = Inr (entries twin_store)"
    using mem_source.since_reads [OF conjI [OF twin_store_facts(1,2)], of 0 200]
    by (simp add: twin_store_facts(4) since_limit_def)
  then show ?thesis
    by (simp add: embed_tick_def NewEmbed_def twin_store_facts(4) process_def Let_def)
qed

theorem embed_worker_exactly_once_witness:
  "\<exists>w. log_and_index (\<lambda>_. [1]) ''v'' 0 [twin_batch] (NewMem, NewEmbed NewMemVector 0 0) = (twin_store, w) \<and>
     map it_Ref (part (ew_vec w) ''acme'') = [''log:'' @ format_uint 1]"
proof -
  let ?w = "embed_tick (\<lambda>_. [1]) ''v'' Upsert 0 (Since twin_store) (NewEmbed NewMemVector 0 0)"
  have run: "log_and_index (\<lambda>_. [1]) ''v'' 0 [twin_batch] (NewMem, NewEmbed NewMemVector 0 0) = (twin_store, ?w)"
    by (simp add: log_and_index_def twin_store_def Let_def)
  have "no_log_refs NewMemVector" "entries NewMem = []" "part NewMemVector ''acme'' = []"
    by (simp_all add: no_log_refs_def NewMemVector_def part_def NewMem_def)
  moreover have "filter (\<lambda>x. ID x \<le> Checkpoint ?w) (entries twin_store) = entries twin_store"
    by (simp add: Checkpoint_def twin_tick twin_store_facts(4))
  moreover have "filter (\<lambda>x. TenantID (LogEntry x) = ''acme'') (fresh {} (entries twin_store))
      = [\<lparr>ID = 1, LogEntry = red_entry ''acme'' ''m''\<rparr>]"
    by (simp add: twin_store_facts(4)) (simp add: red_entry_def)
  ultimately have "part (ew_vec ?w) ''acme''
      = map (log_item (\<lambda>_. [1]) ''v'') [\<lparr>ID = 1, LogEntry = red_entry ''acme'' ''m''\<rparr>]"
    using embed_worker_exactly_once [OF NewMem_ok _ NewMemVector_ok _ run twin_store_facts(2,3) refl, of "''acme''"]
    by simp
  with run show ?thesis by (simp add: log_item_def Ref_def)
qed

theorem embed_worker_catches_up_witness:
  "fst (Lag (Since twin_store) (embed_tick (\<lambda>_. [1]) ''v'' Upsert 0 (Since twin_store) (NewEmbed NewMemVector 0 0))) = 0"
  using embed_worker_catches_up [OF twin_store_facts(1,2), of "NewEmbed NewMemVector 0 0" 1 _ "\<lambda>_. [1]" "''v''" 0]
  by (simp add: twin_store_facts(4) pending_def NewEmbed_def since_limit_def)

end
