(* ===== verification/Anomaly.thy ===== *)
theory Anomaly
  imports LogModel "HOL-Library.AList"
begin

text \<open>
  Package \<open>internal/anomaly\<close>: the detector, a moving mean and variance per (tenant, service,
  signal), and the feed, a bounded list of recent events. The clock reading of \<open>Observe\<close> is an
  argument; numbers are exact reals. The sample counter is a natural number (Go's \<open>int\<close> would
  need 2 to the 63 samples to wrap).
\<close>

subsection \<open>The detector\<close>

record baseline =
  mean :: f64
  varc :: f64
  bl_count :: nat
  updated :: instant

record event =
  ev_TenantID :: string
  ev_Service :: string
  ev_Signal :: string
  ev_Value :: f64
  ev_Score :: f64
  ev_At :: instant

record detector =
  d_alpha :: f64
  d_zThres :: f64
  d_warmup :: int
  d_base :: "(string \<times> baseline) list"

definition NewDetector :: "f64 \<Rightarrow> f64 \<Rightarrow> int \<Rightarrow> detector" where
  "NewDetector alpha z warmup =
     \<lparr>d_alpha = (if alpha \<le> 0 \<or> alpha \<ge> 1 then 1 / 5 else alpha),
      d_zThres = (if z \<le> 0 then 3 else z),
      d_warmup = (if warmup \<le> 0 then 20 else warmup),
      d_base = []\<rparr>"

definition series_key :: "string \<Rightarrow> string \<Rightarrow> string \<Rightarrow> string" where
  "series_key tenantID service signal = tenantID @ [NUL] @ service @ [NUL] @ signal"

text \<open>The z-score against the baseline before it is updated.\<close>

definition z_score :: "f64 \<Rightarrow> baseline \<Rightarrow> f64 \<Rightarrow> f64" where
  "z_score zThres b value =
     (let std = sqrt (varc b) in
      if std > 1 / 1000000000 then (value - mean b) / std
      else if \<bar>value - mean b\<bar> > 1 / 1000000000
      then (if value > mean b then zThres + 1 else - (zThres + 1))
      else 0)"

definition update_baseline :: "f64 \<Rightarrow> instant \<Rightarrow> baseline \<Rightarrow> f64 \<Rightarrow> baseline" where
  "update_baseline alpha now b value =
     (let diff = value - mean b in
      \<lparr>mean = mean b + alpha * diff,
       varc = (1 - alpha) * (varc b + alpha * diff * diff),
       bl_count = bl_count b + 1, updated = now\<rparr>)"

text \<open>\<open>Observe\<close>: the event if the value is anomalous, and the detector after it.\<close>

definition Observe ::
  "detector \<Rightarrow> instant \<Rightarrow> string \<Rightarrow> string \<Rightarrow> string \<Rightarrow> f64 \<Rightarrow> event option \<times> detector" where
  "Observe d now tenantID service signal value =
     (let key = series_key tenantID service signal in
      case map_of (d_base d) key of
        None \<Rightarrow>
          (None, d\<lparr>d_base := AList.update key
                     \<lparr>mean = value, varc = 0, bl_count = 1, updated = now\<rparr> (d_base d)\<rparr>)
      | Some b \<Rightarrow>
          (let z = z_score (d_zThres d) b value;
               b' = update_baseline (d_alpha d) now b value;
               d' = d\<lparr>d_base := AList.update key b' (d_base d)\<rparr>
           in if int (bl_count b') \<ge> d_warmup d \<and> \<bar>z\<bar> \<ge> d_zThres d
              then (Some \<lparr>ev_TenantID = tenantID, ev_Service = service, ev_Signal = signal,
                          ev_Value = value, ev_Score = z, ev_At = now\<rparr>, d')
              else (None, d')))"

definition Baselines :: "detector \<Rightarrow> nat" where
  "Baselines d = length (d_base d)"

subsection \<open>The feed\<close>

record feed =
  f_events :: "event list"
  f_cap :: int

definition NewFeed :: "int \<Rightarrow> feed" where
  "NewFeed capacity = \<lparr>f_events = [], f_cap = (if capacity \<le> 0 then 1000 else capacity)\<rparr>"

definition Push :: "feed \<Rightarrow> event \<Rightarrow> feed" where
  "Push f e =
     (let es = f_events f @ [e] in
      if int (length es) > f_cap f then f\<lparr>f_events := drop (nat (int (length es) - f_cap f)) es\<rparr>
      else f\<lparr>f_events := es\<rparr>)"

definition Recent :: "feed \<Rightarrow> string \<Rightarrow> int \<Rightarrow> event list" where
  "Recent f tenantID n =
     (let n = (if n \<le> 0 then 50 else n) in
      scan_back (\<lambda>e. ev_TenantID e = tenantID) (f_events f) (nat n) (length (f_events f)) [])"

definition FeedLen :: "feed \<Rightarrow> nat" where
  "FeedLen f = length (f_events f)"

subsection \<open>What the feed keeps\<close>

lemma Push_cap [simp]: "f_cap (Push f e) = f_cap f"
  by (simp add: Push_def Let_def)

text \<open>\<open>last_n n xs\<close>: the last \<open>n\<close> elements.\<close>

definition last_n :: "nat \<Rightarrow> 'a list \<Rightarrow> 'a list" where
  "last_n n xs = drop (length xs - n) xs"

lemma last_n_snoc: "0 < n \<Longrightarrow> last_n n (last_n n xs @ [x]) = last_n n (xs @ [x])"
  by (cases "length xs \<le> n") (auto simp: last_n_def drop_append Suc_diff_le)

lemma pushes_keep_last:
  assumes "0 < f_cap f" "f_events f = last_n (nat (f_cap f)) xs"
  shows "f_events (foldl Push f es) = last_n (nat (f_cap f)) (xs @ es) \<and> f_cap (foldl Push f es) = f_cap f"
  using assms
proof (induction es arbitrary: f xs)
  case (Cons e es)
  have "f_events (Push f e) = last_n (nat (f_cap f)) (f_events f @ [e])"
    using Cons.prems(1) by (auto simp: Push_def Let_def last_n_def nat_diff_distrib' nat_add_distrib)
  also have "\<dots> = last_n (nat (f_cap f)) (xs @ [e])"
    using Cons.prems by (simp add: last_n_snoc)
  finally show ?case using Cons.IH [of "Push f e" "xs @ [e]"] Cons.prems(1) by simp
qed simp

text \<open>
  The feed is bounded and tenant-scoped: after any sequence of pushes it holds exactly the
  last \<open>cap\<close> events (1000 when the capacity is not positive), and \<open>Recent\<close> returns the newest
  \<open>n\<close> (50 by default) events of the tenant among them, newest first, and no others. The bound
  is shared, so it also shows how one tenant's events push out another's.
\<close>

theorem feed_recent:
  "f_events (foldl Push (NewFeed c) es) = last_n (if c \<le> 0 then 1000 else nat c) es \<and>
   Recent (foldl Push (NewFeed c) es) t n =
     take (if n \<le> 0 then 50 else nat n)
       (rev (filter (\<lambda>e. ev_TenantID e = t) (last_n (if c \<le> 0 then 1000 else nat c) es)))"
proof -
  have "f_events (foldl Push (NewFeed c) es) = last_n (nat (f_cap (NewFeed c))) ([] @ es)"
    by (rule conjunct1 [OF pushes_keep_last]) (simp_all add: NewFeed_def last_n_def)
  then show ?thesis
    by (auto simp: Recent_def scan_back_spec NewFeed_def rev_filter Let_def)
qed

subsection \<open>Baselines\<close>

definition detector_ok :: "detector \<Rightarrow> bool" where
  "detector_ok d \<longleftrightarrow>
     0 < d_alpha d \<and> d_alpha d < 1 \<and> 0 < d_zThres d \<and> 0 < d_warmup d \<and>
     distinct (map fst (d_base d)) \<and>
     (\<forall>k b. map_of (d_base d) k = Some b \<longrightarrow> 0 \<le> varc b \<and> 1 \<le> bl_count b)"

definition series :: "detector \<Rightarrow> string \<Rightarrow> string \<Rightarrow> string \<Rightarrow> baseline option" where
  "series d t s g = map_of (d_base d) (series_key t s g)"

lemma NewDetector_ok [preserves]: "detector_ok (NewDetector a z w)"
  by (simp add: NewDetector_def detector_ok_def)

lemma series_New [simp]: "series (NewDetector a z w) t s g = None"
  by (simp add: NewDetector_def series_def)

lemma series_key_eq:
  assumes "NUL \<notin> set t" "NUL \<notin> set t'" "NUL \<notin> set s" "NUL \<notin> set s'"
  shows "series_key t s g = series_key t' s' g' \<longleftrightarrow> t = t' \<and> s = s' \<and> g = g'"
  using assms by (simp add: series_key_def separated_append_eq)

text \<open>\<open>Observe\<close> reads and writes one baseline only.\<close>

definition next_baseline :: "detector \<Rightarrow> instant \<Rightarrow> baseline option \<Rightarrow> f64 \<Rightarrow> baseline" where
  "next_baseline d now bo v =
     (case bo of None \<Rightarrow> \<lparr>mean = v, varc = 0, bl_count = 1, updated = now\<rparr>
      | Some b \<Rightarrow> update_baseline (d_alpha d) now b v)"

definition alarm :: "detector \<Rightarrow> baseline option \<Rightarrow> f64 \<Rightarrow> f64 option" where
  "alarm d bo v =
     (case bo of None \<Rightarrow> None
      | Some b \<Rightarrow> if int (bl_count b) + 1 \<ge> d_warmup d \<and> \<bar>z_score (d_zThres d) b v\<bar> \<ge> d_zThres d
                 then Some (z_score (d_zThres d) b v) else None)"

lemma bl_count_update [simp]: "bl_count (update_baseline a now b v) = bl_count b + 1"
  by (simp add: update_baseline_def Let_def)

lemma Observe_step:
  "Observe d now t s g v =
     (map_option (\<lambda>z. \<lparr>ev_TenantID = t, ev_Service = s, ev_Signal = g, ev_Value = v, ev_Score = z, ev_At = now\<rparr>)
        (alarm d (series d t s g) v),
      d\<lparr>d_base := AList.update (series_key t s g) (next_baseline d now (series d t s g) v) (d_base d)\<rparr>)"
  by (simp add: Observe_def series_def alarm_def next_baseline_def Let_def add.commute split: option.split)

lemma Observe_params [simp]:
  "d_alpha (snd (Observe d now t s g v)) = d_alpha d"
  "d_zThres (snd (Observe d now t s g v)) = d_zThres d"
  "d_warmup (snd (Observe d now t s g v)) = d_warmup d"
  by (simp_all add: Observe_step)

lemma series_Observe:
  "series (snd (Observe d now t s g v)) t' s' g' =
     (if series_key t' s' g' = series_key t s g then Some (next_baseline d now (series d t s g) v)
      else series d t' s' g')"
  by (simp add: Observe_step series_def update_conv')

lemma Observe_ok [preserves]:
  assumes "detector_ok d"
  shows "detector_ok (snd (Observe d now t s g v))"
proof -
  let ?b = "next_baseline d now (series d t s g) v"
  have "0 \<le> varc ?b \<and> 1 \<le> bl_count ?b"
  proof (cases "series d t s g")
    case (Some b)
    have "0 \<le> d_alpha d * ((v - mean b) * (v - mean b))"
      using assms by (simp add: detector_ok_def)
    with Some assms show ?thesis
      by (simp add: next_baseline_def update_baseline_def series_def detector_ok_def Let_def mult.assoc)
  qed (simp add: next_baseline_def)
  with assms show ?thesis
    by (auto simp: detector_ok_def Observe_step update_conv' distinct_update)
qed

lemma z_score_sound:
  assumes "0 \<le> varc b" "0 < z" "\<bar>z_score z b v\<bar> \<ge> z"
  shows "(if sqrt (varc b) > 1 / 1000000000 then z * sqrt (varc b) \<le> \<bar>v - mean b\<bar>
          else \<bar>v - mean b\<bar> > 1 / 1000000000) \<and> v \<noteq> mean b \<and> (0 < z_score z b v \<longleftrightarrow> mean b < v)"
proof (cases "sqrt (varc b) > 1 / 1000000000")
  case True
  then have pos: "0 < sqrt (varc b)" by (rule less_trans [rotated]) simp
  have z: "z_score z b v = (v - mean b) / sqrt (varc b)"
    using True by (simp add: z_score_def)
  have "z * sqrt (varc b) \<le> \<bar>v - mean b\<bar>"
    using assms(3) pos unfolding z by (simp add: abs_divide pos_le_divide_eq)
  moreover have "0 < z * sqrt (varc b)" using assms(2) pos by (rule mult_pos_pos)
  moreover have "0 < z_score z b v \<longleftrightarrow> mean b < v"
    unfolding z using pos by (simp add: zero_less_divide_iff)
  ultimately show ?thesis using True by auto
next
  case False
  have dev: "\<bar>v - mean b\<bar> > 1 / 1000000000"
  proof (rule ccontr)
    assume "\<not> \<bar>v - mean b\<bar> > 1 / 1000000000"
    with False assms(2,3) show "False" by (simp add: z_score_def)
  qed
  then have "z_score z b v = (if v > mean b then z + 1 else - (z + 1))"
    using False by (simp add: z_score_def)
  moreover have "v \<noteq> mean b" using dev by auto
  ultimately show ?thesis using dev False assms(2) by auto
qed

text \<open>
  Every alert is justified: an event carries the tenant, service, signal, value and time of the
  observation; the series had reached its warm-up; and the value lies off its mean, by at least
  \<open>zThres\<close> standard deviations (for a series that has not varied, by more than 1e-9), on the
  side the sign of the score says.
\<close>

theorem Observe_alert_sound:
  assumes "detector_ok d" "Observe d now t s g v = (Some e, d')"
  shows "ev_TenantID e = t \<and> ev_Service e = s \<and> ev_Signal e = g \<and> ev_Value e = v \<and> ev_At e = now \<and>
    (\<exists>b. series d t s g = Some b \<and> d_warmup d \<le> int (bl_count b) + 1 \<and> d_zThres d \<le> \<bar>ev_Score e\<bar> \<and>
      (0 < ev_Score e \<longleftrightarrow> mean b < v) \<and>
      (if sqrt (varc b) > 1 / 1000000000 then d_zThres d * sqrt (varc b) \<le> \<bar>v - mean b\<bar>
       else \<bar>v - mean b\<bar> > 1 / 1000000000))"
proof -
  from assms(2) obtain z where z: "alarm d (series d t s g) v = Some z" and e: "ev_Score e = z"
    "ev_TenantID e = t \<and> ev_Service e = s \<and> ev_Signal e = g \<and> ev_Value e = v \<and> ev_At e = now"
    by (auto simp: Observe_step)
  then obtain b where b: "series d t s g = Some b" "d_warmup d \<le> int (bl_count b) + 1"
    "\<bar>z_score (d_zThres d) b v\<bar> \<ge> d_zThres d" "z = z_score (d_zThres d) b v"
    by (auto simp: alarm_def split: option.splits if_splits)
  moreover have "0 \<le> varc b" "0 < d_zThres d"
    using assms(1) b(1) by (auto simp: detector_ok_def series_def)
  ultimately show ?thesis using z_score_sound [of b "d_zThres d" v] e by auto
qed

subsection \<open>Runs of observations\<close>

type_synonym observation = "instant \<times> string \<times> string \<times> string \<times> f64"

fun observe_all :: "detector \<Rightarrow> observation list \<Rightarrow> event list \<times> detector" where
  "observe_all d [] = ([], d)"
| "observe_all d ((now, t, s, g, v) # os) =
     ((case fst (Observe d now t s g v) of None \<Rightarrow> [] | Some e \<Rightarrow> [e])
        @ fst (observe_all (snd (Observe d now t s g v)) os),
      snd (observe_all (snd (Observe d now t s g v)) os))"

lemma observe_all_append:
  "observe_all d (os @ ps) =
     (fst (observe_all d os) @ fst (observe_all (snd (observe_all d os)) ps),
      snd (observe_all (snd (observe_all d os)) ps))"
  by (induction d os rule: observe_all.induct) simp_all

lemma observe_all_params [simp]:
  "d_alpha (snd (observe_all d os)) = d_alpha d" "d_zThres (snd (observe_all d os)) = d_zThres d"
  "d_warmup (snd (observe_all d os)) = d_warmup d"
  by (induction d os rule: observe_all.induct) simp_all

lemma observe_all_ok [preserves]: "detector_ok d \<Longrightarrow> detector_ok (snd (observe_all d os))"
  by (induction d os rule: observe_all.induct) (simp_all add: Observe_ok)

lemma observe_all_unchanged:
  "\<forall>(now, t', s', g', v) \<in> set os. series_key t' s' g' \<noteq> series_key t s g \<Longrightarrow>
   series (snd (observe_all d os)) t s g = series d t s g"
  by (induction d os rule: observe_all.induct) (auto simp: series_Observe)

lemma observe_all_once:
  assumes "\<forall>(now, t', s', g', v) \<in> set (os @ ps). series_key t' s' g' \<noteq> series_key t s g"
  shows "series (snd (observe_all d (os @ (now, t, s, g, v) # ps))) t s g
       = Some (next_baseline d now (series d t s g) v)"
proof -
  let ?d = "snd (observe_all d os)"
  have "series ?d t s g = series d t s g" by (rule observe_all_unchanged) (use assms in auto)
  moreover have "next_baseline ?d now b v = next_baseline d now b v" for b
    by (simp add: next_baseline_def split: option.split)
  ultimately have "series (snd (Observe ?d now t s g v)) t s g = Some (next_baseline d now (series d t s g) v)"
    by (simp add: series_Observe)
  moreover have "series (snd (observe_all (snd (Observe ?d now t s g v)) ps)) t s g
      = series (snd (Observe ?d now t s g v)) t s g"
    by (rule observe_all_unchanged) (use assms in auto)
  ultimately show ?thesis by (simp add: observe_all_append)
qed

lemma observe_all_events:
  "e \<in> set (fst (observe_all d os)) \<Longrightarrow>
   (ev_TenantID e, ev_Service e, ev_Signal e) \<in> (\<lambda>(now, t, s, g, v). (t, s, g)) ` set os"
proof (induction d os rule: observe_all.induct)
  case (2 d now t s g v os)
  show ?case
  proof (cases "e \<in> set (fst (observe_all (snd (Observe d now t s g v)) os))")
    case True
    with "2.IH"(1) show ?thesis by simp
  next
    case False
    with "2.prems" have "fst (Observe d now t s g v) = Some e" by (auto split: option.splits)
    then show ?thesis by (auto simp: Observe_step)
  qed
qed simp

subsection \<open>Isolation of the series\<close>

fun no_nul :: "observation \<Rightarrow> bool" where
  "no_nul (now, t, s, g, v) \<longleftrightarrow> NUL \<notin> set t \<and> NUL \<notin> set s"

definition of_tenant :: "string \<Rightarrow> observation \<Rightarrow> bool" where
  "of_tenant t ob = (fst (snd ob) = t)"

definition same_for :: "string \<Rightarrow> detector \<Rightarrow> detector \<Rightarrow> bool" where
  "same_for t d d' \<longleftrightarrow>
     d_alpha d = d_alpha d' \<and> d_zThres d = d_zThres d' \<and> d_warmup d = d_warmup d' \<and>
     (\<forall>s g. NUL \<notin> set s \<longrightarrow> series d t s g = series d' t s g)"

lemma same_for_Observe:
  assumes "same_for t d d'" "NUL \<notin> set t" "NUL \<notin> set s"
  shows "fst (Observe d now t s g v) = fst (Observe d' now t s g v)"
    and "same_for t (snd (Observe d now t s g v)) (snd (Observe d' now t s g v))"
proof -
  have "d_alpha d = d_alpha d'" "d_zThres d = d_zThres d'" "d_warmup d = d_warmup d'"
    "series d t s g = series d' t s g"
    using assms by (simp_all add: same_for_def)
  then have "alarm d (series d t s g) v = alarm d' (series d' t s g) v"
    "next_baseline d now (series d t s g) v = next_baseline d' now (series d' t s g) v"
    by (simp_all only: alarm_def next_baseline_def)
  with assms show "fst (Observe d now t s g v) = fst (Observe d' now t s g v)"
    and "same_for t (snd (Observe d now t s g v)) (snd (Observe d' now t s g v))"
    by (simp_all add: Observe_step same_for_def series_def update_conv')
qed

lemma same_for_other:
  assumes "same_for t d d'" "NUL \<notin> set t" "t' \<noteq> t" "NUL \<notin> set t'" "NUL \<notin> set s'"
  shows "same_for t (snd (Observe d now t' s' g v)) d'"
  using assms by (simp add: same_for_def series_Observe series_key_eq)

lemma observe_all_tenant:
  assumes "same_for t d d'" "NUL \<notin> set t" "list_all no_nul os"
  shows "filter (\<lambda>e. ev_TenantID e = t) (fst (observe_all d os))
           = fst (observe_all d' (filter (of_tenant t) os)) \<and>
         same_for t (snd (observe_all d os)) (snd (observe_all d' (filter (of_tenant t) os)))"
  using assms
proof (induction d os arbitrary: d' rule: observe_all.induct)
  case (2 d now t' s g v os)
  then have n: "NUL \<notin> set t'" "NUL \<notin> set s" "list_all no_nul os" by simp_all
  have ev: "ev_TenantID e = t'" if "fst (Observe d now t' s g v) = Some e" for e
    using that by (auto simp: Observe_step)
  show ?case
  proof (cases "t' = t")
    case True
    note same = same_for_Observe [OF "2.prems"(1,2) n(2), of now g v]
    have "same_for t (snd (Observe d now t' s g v)) (snd (Observe d' now t' s g v))"
      using same(2) True by simp
    from "2.IH"(1) [OF this "2.prems"(2) n(3)] same(1) ev True show ?thesis
      by (auto simp: of_tenant_def split: option.split)
  next
    case False
    from "2.IH"(1) [OF same_for_other [OF "2.prems"(1,2) False n(1,2)] "2.prems"(2) n(3)] ev False show ?thesis
      by (auto simp: of_tenant_def split: option.split)
  qed
qed simp

text \<open>
  C36. The detector isolates tenants: the alerts of a tenant, with their scores, in any interleaved
  run of observations are exactly those of the run of its own observations alone. (Tenant and
  service names without NUL bytes, the separator of the series keys.)
\<close>

theorem detector_non_interference:
  assumes "NUL \<notin> set t" "list_all no_nul os"
  shows "filter (\<lambda>e. ev_TenantID e = t) (fst (observe_all d os))
       = fst (observe_all d (filter (of_tenant t) os))"
  using observe_all_tenant [of t d d os] assms by (simp add: same_for_def)


definition demo_obs :: "observation list" where
  "demo_obs = [(0, ''a'', ''web'', ''errors'', 1), (1, ''b'', ''web'', ''errors'', 50),
               (2, ''a'', ''web'', ''errors'', 9)]"

theorem detector_non_interference_witness:
  "map ev_Value (filter (\<lambda>e. ev_TenantID e = ''a'') (fst (observe_all (NewDetector (1/4) 3 1) demo_obs))) = [9]"
proof -
  have "no_nul ob" if "ob \<in> set demo_obs" for ob using that by (auto simp: demo_obs_def)
  then show ?thesis
    using detector_non_interference [of "''a''" demo_obs "NewDetector (1/4) 3 1"]
    by (simp add: list_all_iff)
      (simp add: demo_obs_def of_tenant_def Observe_def NewDetector_def z_score_def Let_def)
qed

theorem Observe_alert_sound_witness:
  "\<exists>e d'. Observe (snd (Observe (NewDetector (1/4) 3 1) 0 ''a'' ''web'' ''errors'' 1)) 1 ''a'' ''web'' ''errors'' 9 = (Some e, d') \<and>
     0 < ev_Score e \<and> 3 \<le> \<bar>ev_Score e\<bar>"
proof -
  let ?d = "snd (Observe (NewDetector (1/4) 3 1) 0 ''a'' ''web'' ''errors'' 1)"
  have ok: "detector_ok ?d" by (rule Observe_ok [OF NewDetector_ok])
  obtain e d' where e: "Observe ?d 1 ''a'' ''web'' ''errors'' 9 = (Some e, d')"
    by (simp add: Observe_def NewDetector_def z_score_def Let_def)
  have "series ?d ''a'' ''web'' ''errors'' = Some \<lparr>mean = 1, varc = 0, bl_count = 1, updated = 0\<rparr>"
    by (simp add: series_Observe next_baseline_def)
  then have "3 \<le> \<bar>ev_Score e\<bar> \<and> 0 < ev_Score e"
    using Observe_alert_sound [OF ok e] by (auto simp: NewDetector_def)
  with e show ?thesis by blast
qed

subsection \<open>Steady signals, jumps and bounds\<close>

definition steady :: "instant list \<Rightarrow> string \<Rightarrow> string \<Rightarrow> string \<Rightarrow> f64 \<Rightarrow> observation list" where
  "steady nows t s g v = map (\<lambda>now. (now, t, s, g, v)) nows"

lemma steady_quiet:
  assumes "0 < d_zThres d" "series d t s g = Some b" "mean b = v" "varc b = 0"
  shows "fst (observe_all d (steady nows t s g v)) = [] \<and>
    (\<exists>b'. series (snd (observe_all d (steady nows t s g v))) t s g = Some b' \<and> mean b' = v \<and>
       varc b' = 0 \<and> bl_count b' = bl_count b + length nows)"
  using assms
proof (induction nows arbitrary: d b)
  case (Cons now nows)
  let ?d = "snd (Observe d now t s g v)"
  have "alarm d (series d t s g) v = None"
    using Cons.prems by (simp add: alarm_def z_score_def)
  then have quiet: "fst (Observe d now t s g v) = None" by (simp add: Observe_step)
  have "series ?d t s g = Some (update_baseline (d_alpha d) now b v)"
    using Cons.prems by (simp add: series_Observe next_baseline_def)
  moreover have "mean (update_baseline (d_alpha d) now b v) = v" "varc (update_baseline (d_alpha d) now b v) = 0"
    using Cons.prems by (simp_all add: update_baseline_def)
  ultimately show ?case
    using Cons.IH [of ?d "update_baseline (d_alpha d) now b v"] Cons.prems(1) quiet
    by (simp add: steady_def)
qed (simp add: steady_def)

lemma steady_new:
  assumes "0 < d_zThres d" "series d t s g = None" "nows \<noteq> []"
  shows "fst (observe_all d (steady nows t s g v)) = [] \<and>
    (\<exists>b'. series (snd (observe_all d (steady nows t s g v))) t s g = Some b' \<and> mean b' = v \<and>
       varc b' = 0 \<and> bl_count b' = length nows)"
proof -
  obtain now rest where nows: "nows = now # rest" using assms(3) by (cases nows) auto
  let ?d = "snd (Observe d now t s g v)" and ?b = "\<lparr>mean = v, varc = 0, bl_count = 1, updated = now\<rparr>"
  have "series ?d t s g = Some ?b" using assms(2) by (simp add: series_Observe next_baseline_def)
  with assms(1) steady_quiet [of ?d t s g ?b v rest] show ?thesis
    by (simp add: nows steady_def) (simp add: Observe_step assms(2) alarm_def)
qed

text \<open>
  A constant signal never raises an alert, however long it runs, and the first value that
  departs from it after the warm-up raises exactly one, with the score \<open>zThres + 1\<close> in the
  direction of the jump: a variance of zero neither swallows a jump nor divides by zero.
\<close>

theorem steady_then_jump:
  assumes "detector_ok d" "series d t s g = None" "nows \<noteq> []"
    and "d_warmup d \<le> int (length nows) + 1" "\<bar>w - v\<bar> > 1 / 1000000000"
  shows "fst (observe_all d (steady nows t s g v)) = [] \<and>
    fst (observe_all d (steady nows t s g v @ [(now, t, s, g, w)])) =
      [\<lparr>ev_TenantID = t, ev_Service = s, ev_Signal = g, ev_Value = w,
        ev_Score = (if w > v then d_zThres d + 1 else - (d_zThres d + 1)), ev_At = now\<rparr>]"
proof -
  have z: "0 < d_zThres d" using assms(1) by (simp add: detector_ok_def)
  from steady_new [OF z assms(2,3), of v] obtain b where
    quiet: "fst (observe_all d (steady nows t s g v)) = []" and
    b: "series (snd (observe_all d (steady nows t s g v))) t s g = Some b" "mean b = v" "varc b = 0"
      "bl_count b = length nows" by blast
  have "z_score (d_zThres d) b w = (if w > v then d_zThres d + 1 else - (d_zThres d + 1))"
    using assms(5) b by (simp add: z_score_def)
  with b assms(4) z quiet show ?thesis
    by (auto simp: observe_all_append Observe_step alarm_def)
qed

theorem steady_then_jump_witness:
  "map ev_Score (fst (observe_all (NewDetector (1/4) 3 3) (steady [0, 1] ''a'' ''web'' ''errors'' 2 @ [(2, ''a'', ''web'', ''errors'', 7)])))
     = [4]"
  using steady_then_jump [OF NewDetector_ok series_New, of "[0, 1]" "1/4" 3 3 7 2 "''a''" "''web''" "''errors''" 2]
  by (simp add: NewDetector_def)

definition bounded_by :: "f64 \<Rightarrow> f64 \<Rightarrow> detector \<Rightarrow> bool" where
  "bounded_by lo hi d \<longleftrightarrow>
     (\<forall>k b. map_of (d_base d) k = Some b \<longrightarrow> lo \<le> mean b \<and> mean b \<le> hi \<and> 0 \<le> varc b \<and> varc b \<le> (hi - lo)\<^sup>2)"

lemma update_baseline_bounds:
  assumes a: "0 < a" "a < 1" and m: "lo \<le> mean b" "mean b \<le> hi" and v: "lo \<le> v" "v \<le> hi"
    and c: "0 \<le> varc b" "varc b \<le> (hi - lo)\<^sup>2"
  shows "lo \<le> mean (update_baseline a now b v) \<and> mean (update_baseline a now b v) \<le> hi \<and>
         0 \<le> varc (update_baseline a now b v) \<and> varc (update_baseline a now b v) \<le> (hi - lo)\<^sup>2"
proof -
  let ?d = "v - mean b" and ?D = "(hi - lo)\<^sup>2"
  have conv: "mean b + a * ?d = (1 - a) * mean b + a * v" by (simp add: algebra_simps)
  have "(1 - a) * lo + a * lo \<le> (1 - a) * mean b + a * v"
    using a m v by (intro add_mono mult_left_mono) auto
  moreover have "(1 - a) * mean b + a * v \<le> (1 - a) * hi + a * hi"
    using a m v by (intro add_mono mult_left_mono) auto
  ultimately have mean: "lo \<le> mean b + a * ?d" "mean b + a * ?d \<le> hi"
    unfolding conv by (simp_all add: algebra_simps)
  have "\<bar>?d\<bar> \<le> \<bar>hi - lo\<bar>" using m v by auto
  then have dd: "?d * ?d \<le> ?D" by (simp add: power2_eq_square [symmetric] abs_le_square_iff)
  have "0 \<le> ?d * ?d" by simp
  then have nonneg: "0 \<le> a * (?d * ?d)" using a by simp
  have "(1 - a) * (varc b + a * (?d * ?d)) \<le> (1 - a) * (?D + a * ?D)"
    using a c dd by (intro mult_left_mono add_mono) auto
  also have "\<dots> = ?D - (a * a) * ?D" by (simp add: algebra_simps)
  also have "\<dots> \<le> ?D" by simp
  finally have "(1 - a) * (varc b + a * (?d * ?d)) \<le> ?D" .
  moreover have "0 \<le> (1 - a) * (varc b + a * (?d * ?d))" using a c nonneg by simp
  ultimately show ?thesis using mean by (simp add: update_baseline_def Let_def mult.assoc)
qed

lemma Observe_bounded:
  assumes "detector_ok d" "bounded_by lo hi d" "lo \<le> v" "v \<le> hi"
  shows "bounded_by lo hi (snd (Observe d now t s g v))"
proof -
  let ?b = "next_baseline d now (series d t s g) v"
  have "lo \<le> mean ?b \<and> mean ?b \<le> hi \<and> 0 \<le> varc ?b \<and> varc ?b \<le> (hi - lo)\<^sup>2"
  proof (cases "series d t s g")
    case None
    with assms(3,4) show ?thesis by (simp add: next_baseline_def)
  next
    case (Some b)
    then have "lo \<le> mean b \<and> mean b \<le> hi \<and> 0 \<le> varc b \<and> varc b \<le> (hi - lo)\<^sup>2"
      using assms(2) by (simp add: bounded_by_def series_def)
    moreover have "0 < d_alpha d" "d_alpha d < 1" using assms(1) by (simp_all add: detector_ok_def)
    ultimately show ?thesis
      using update_baseline_bounds [of "d_alpha d" lo b hi v now] assms(3,4) Some
      by (simp add: next_baseline_def)
  qed
  then show ?thesis using assms(2) by (simp add: bounded_by_def Observe_step update_conv')
qed

text \<open>
  The moving averages stay in range: when all observed values lie between \<open>lo\<close> and \<open>hi\<close>, so
  does the mean of every series after any run, and every variance lies between 0 and
  \<open>(hi - lo)\<^sup>2\<close>, so its square root is defined.
\<close>

theorem baselines_bounded:
  assumes "list_all (\<lambda>(now, t, s, g, v). lo \<le> v \<and> v \<le> hi) os"
  shows "bounded_by lo hi (snd (observe_all (NewDetector a z w) os))"
proof -
  have run: "detector_ok d \<Longrightarrow> bounded_by lo hi d \<Longrightarrow> bounded_by lo hi (snd (observe_all d os))" for d
    using assms
  proof (induction d os rule: observe_all.induct)
    case (2 d now t s g v os)
    let ?d = "snd (Observe d now t s g v)"
    have v: "lo \<le> v" "v \<le> hi" using "2.prems"(3) by simp_all
    have "bounded_by lo hi ?d"
      by (rule Observe_bounded [OF "2.prems"(1,2) v])
    moreover have "list_all (\<lambda>(now, t, s, g, v). lo \<le> v \<and> v \<le> hi) os" using "2.prems"(3) by simp
    ultimately have "bounded_by lo hi (snd (observe_all ?d os))"
      by (intro "2.IH"(1) Observe_ok "2.prems"(1))
    then show ?case by simp
  qed simp
  show ?thesis by (rule run [OF NewDetector_ok]) (simp add: bounded_by_def NewDetector_def)
qed

theorem baselines_bounded_witness:
  "bounded_by 1 50 (snd (observe_all (NewDetector (1/4) 3 1) demo_obs))"
  using baselines_bounded [of 1 50 demo_obs "1/4" 3 1] by (simp add: demo_obs_def)

end
