(* ===== verification/AnomalyWorker.thy ===== *)
theory AnomalyWorker
  imports Anomaly Store
begin

text \<open>
  \<open>internal/worker/anomalyworker.go\<close>: the worker that counts error logs per (tenant, service) in each
  polling window and feeds the counts to the detector. The two Go maps of \<open>tick\<close> are a function
  (0 where absent) and the list of its keys; the iteration over the keys, whose order Go does not
  specify, goes through \<open>ord\<close> applied to that list. \<open>nows i\<close> is the clock at the \<open>i\<close>-th observation.
\<close>

record anomaly_worker =
  aw_every :: duration
  aw_lastID :: u64
  aw_det :: detector
  aw_feed :: feed
  aw_onEvent :: nat

text \<open>\<open>aw_onEvent\<close> counts the calls of the hook, which \<open>main\<close> sets to a counter.\<close>

definition NewAnomaly :: "detector \<Rightarrow> feed \<Rightarrow> duration \<Rightarrow> anomaly_worker" where
  "NewAnomaly det fd every =
     \<lparr>aw_every = (if every \<le> 0 then 1000000000 else every), aw_lastID = 0, aw_det = det,
      aw_feed = fd, aw_onEvent = 0\<rparr>"

type_synonym series_name = "string \<times> string"

definition key_of :: "stored_entry \<Rightarrow> series_name" where
  "key_of e = (TenantID (LogEntry e), Service (LogEntry e))"

definition is_error :: "stored_entry \<Rightarrow> bool" where
  "is_error e \<longleftrightarrow> Level (LogEntry e) = ''error'' \<or> Level (LogEntry e) = ''fatal''"

fun count_loop ::
  "stored_entry list \<Rightarrow> (series_name \<Rightarrow> f64) \<times> series_name list \<Rightarrow> (series_name \<Rightarrow> f64) \<times> series_name list" where
  "count_loop [] (counts, seen) = (counts, seen)"
| "count_loop (e # es) (counts, seen) =
     (let k = key_of e;
          seen' = (if k \<in> set seen then seen else seen @ [k]);
          counts' = (if is_error e then counts(k := counts k + 1) else counts)
      in count_loop es (counts', seen'))"

fun observe_loop ::
  "(nat \<Rightarrow> instant) \<Rightarrow> nat \<Rightarrow> (series_name \<Rightarrow> f64) \<Rightarrow> series_name list \<Rightarrow> anomaly_worker \<Rightarrow> anomaly_worker" where
  "observe_loop nows i counts [] w = w"
| "observe_loop nows i counts (k # ks) w =
     (case Observe (aw_det w) (nows i) (fst k) (snd k) ''error_volume'' (counts k) of
        (Some ev, d) \<Rightarrow>
          observe_loop nows (Suc i) counts ks
            (w\<lparr>aw_det := d, aw_feed := Push (aw_feed w) ev, aw_onEvent := aw_onEvent w + 1\<rparr>)
      | (None, d) \<Rightarrow> observe_loop nows (Suc i) counts ks (w\<lparr>aw_det := d\<rparr>))"

definition anomaly_tick ::
  "(u64 \<Rightarrow> int \<Rightarrow> err + stored_entry list) \<Rightarrow> (series_name list \<Rightarrow> series_name list) \<Rightarrow> (nat \<Rightarrow> instant)
   \<Rightarrow> anomaly_worker \<Rightarrow> anomaly_worker" where
  "anomaly_tick since ord nows w =
     (case since (aw_lastID w) 100000 of
        Inl _ \<Rightarrow> w
      | Inr es \<Rightarrow>
          if es = [] then w
          else (let (counts, seen) = count_loop es (\<lambda>_. 0, []);
                    w = observe_loop nows 0 counts (ord seen) w
                in w\<lparr>aw_lastID := ID (last es)\<rparr>))"

text \<open>\<open>Run\<close>: ticks until the context is cancelled; each carries its store, order and clock.\<close>

datatype anomaly_event =
    AnomalyTick "u64 \<Rightarrow> int \<Rightarrow> err + stored_entry list" "series_name list \<Rightarrow> series_name list" "nat \<Rightarrow> instant"
  | AnomalyCancelled

fun anomaly_run :: "anomaly_event list \<Rightarrow> anomaly_worker \<Rightarrow> anomaly_worker" where
  "anomaly_run [] w = w"
| "anomaly_run (AnomalyTick since ord nows # es) w = anomaly_run es (anomaly_tick since ord nows w)"
| "anomaly_run (AnomalyCancelled # es) w = w"

subsection \<open>The counts of a window\<close>

definition error_count :: "stored_entry list \<Rightarrow> series_name \<Rightarrow> nat" where
  "error_count es k = length (filter (\<lambda>e. key_of e = k \<and> is_error e) es)"

lemma count_loop_spec:
  assumes "distinct seen" "count_loop es (counts, seen) = (counts', seen')"
  shows "(\<forall>k. counts' k = counts k + real (error_count es k)) \<and> distinct seen' \<and>
         set seen' = set seen \<union> key_of ` set es"
  using assms
proof (induction es arbitrary: counts seen)
  case (Cons e es)
  let ?seen = "if key_of e \<in> set seen then seen else seen @ [key_of e]"
  let ?counts = "if is_error e then counts(key_of e := counts (key_of e) + 1) else counts"
  have "distinct ?seen" using Cons.prems(1) by simp
  moreover have "count_loop es (?counts, ?seen) = (counts', seen')"
    using Cons.prems(2) by (simp add: Let_def)
  ultimately have IH: "\<forall>k. counts' k = ?counts k + real (error_count es k)" "distinct seen'"
    "set seen' = set ?seen \<union> key_of ` set es"
    using Cons.IH by blast+
  have "counts' k = counts k + real (error_count (e # es) k)" for k
    using spec [OF IH(1), of k] by (auto simp: error_count_def)
  with IH(2,3) show ?case by auto
qed (simp add: error_count_def)

text \<open>An iteration order of a Go map: every key once.\<close>

definition map_order :: "(series_name list \<Rightarrow> series_name list) \<Rightarrow> bool" where
  "map_order ord \<longleftrightarrow> (\<forall>ks. distinct ks \<longrightarrow> distinct (ord ks) \<and> set (ord ks) = set ks)"

text \<open>The observations of a window, and the loop as a run of the detector.\<close>

fun window_obs :: "(nat \<Rightarrow> instant) \<Rightarrow> nat \<Rightarrow> (series_name \<Rightarrow> f64) \<Rightarrow> series_name list \<Rightarrow> observation list" where
  "window_obs nows i counts [] = []"
| "window_obs nows i counts (k # ks) =
     (nows i, fst k, snd k, ''error_volume'', counts k) # window_obs nows (Suc i) counts ks"

lemma observe_loop_run:
  "aw_det (observe_loop nows i counts ks w) = snd (observe_all (aw_det w) (window_obs nows i counts ks)) \<and>
   aw_feed (observe_loop nows i counts ks w)
     = foldl Push (aw_feed w) (fst (observe_all (aw_det w) (window_obs nows i counts ks))) \<and>
   aw_onEvent (observe_loop nows i counts ks w)
     = aw_onEvent w + length (fst (observe_all (aw_det w) (window_obs nows i counts ks)))"
proof (induction ks arbitrary: i w)
  case (Cons k ks)
  obtain r d where "Observe (aw_det w) (nows i) (fst k) (snd k) ''error_volume'' (counts k) = (r, d)"
    by fastforce
  with Cons.IH show ?case by (cases r) simp_all
qed simp

lemma observe_loop_eq:
  "observe_loop nows i counts ks w = w\<lparr>aw_det := snd (observe_all (aw_det w) (window_obs nows i counts ks)),
     aw_feed := foldl Push (aw_feed w) (fst (observe_all (aw_det w) (window_obs nows i counts ks))),
     aw_onEvent := aw_onEvent w + length (fst (observe_all (aw_det w) (window_obs nows i counts ks)))\<rparr>"
proof -
  have "aw_every (observe_loop nows i counts ks w) = aw_every w" "aw_lastID (observe_loop nows i counts ks w) = aw_lastID w"
    by (induction ks arbitrary: i w) (simp_all split: prod.split option.split)
  then show ?thesis using observe_loop_run [of nows i counts ks w]
    by (intro anomaly_worker.equality) simp_all
qed

lemma window_obs_append:
  "window_obs nows i counts (ks @ ls) = window_obs nows i counts ks @ window_obs nows (i + length ks) counts ls"
  by (induction ks arbitrary: i) simp_all

lemma window_obs_keys:
  "(now, t, u, g, v) \<in> set (window_obs nows i counts ks) \<Longrightarrow> (t, u) \<in> set ks \<and> g = ''error_volume'' \<and> v = counts (t, u)"
  by (induction ks arbitrary: i) auto

definition plain_key :: "series_name \<Rightarrow> bool" where
  "plain_key k \<longleftrightarrow> NUL \<notin> set (fst k) \<and> NUL \<notin> set (snd k)"

lemma window_obs_other:
  assumes "(t, u) \<notin> set ks" "list_all plain_key ks" "plain_key (t, u)"
  shows "\<forall>(now, t', s', g', v) \<in> set (window_obs nows i counts ks). series_key t' s' g' \<noteq> series_key t u g"
proof (intro ballI, clarify)
  fix now t' s' g' v
  assume "(now, t', s', g', v) \<in> set (window_obs nows i counts ks)" "series_key t' s' g' = series_key t u g"
  with assms show False
    by (auto simp: plain_key_def list_all_iff series_key_eq dest!: window_obs_keys)
qed

text \<open>Over distinct keys every series is observed at most once, in whatever order.\<close>

lemma window_series:
  assumes "distinct ks" "list_all plain_key ks" "plain_key (t, u)"
  shows "if (t, u) \<in> set ks
    then \<exists>now. series (snd (observe_all d (window_obs nows i counts ks))) t u ''error_volume''
           = Some (next_baseline d now (series d t u ''error_volume'') (counts (t, u)))
    else series (snd (observe_all d (window_obs nows i counts ks))) t u g = series d t u g"
proof (cases "(t, u) \<in> set ks")
  case True
  then obtain xs ys where ks: "ks = xs @ (t, u) # ys" "(t, u) \<notin> set xs" "(t, u) \<notin> set ys"
    using assms(1) by (auto dest: split_list)
  then have "\<forall>(now, t', s', g', v) \<in> set (window_obs nows i counts xs @ window_obs nows (Suc (i + length xs)) counts ys).
      series_key t' s' g' \<noteq> series_key t u ''error_volume''"
    using window_obs_other [of t u xs nows i counts "''error_volume''"]
      window_obs_other [of t u ys nows "Suc (i + length xs)" counts "''error_volume''"] assms(2,3) by auto
  from observe_all_once [OF this] True show ?thesis
    by (auto simp: ks(1) window_obs_append)
next
  case False
  from observe_all_unchanged [OF window_obs_other [OF False assms(2,3)]] False show ?thesis by simp
qed

text \<open>
  A tick reads the entries behind the checkpoint as one window and runs the detector over the error
  counts of its (tenant, service) pairs, each once.
\<close>

lemma anomaly_tick_window [consumes 3, case_names idle window]:
  assumes "store_ok s" "store_fits s" "map_order ord"
  obtains "filter (\<lambda>x. aw_lastID w < ID x) (entries s) = []" "anomaly_tick (Since s) ord nows w = w"
  | es ks obs where "es = take 100000 (filter (\<lambda>x. aw_lastID w < ID x) (entries s))" "es \<noteq> []"
      "filter (\<lambda>x. aw_lastID w < ID x) (entries s) = es @ filter (\<lambda>x. ID (last es) < ID x) (entries s)"
      "distinct ks" "set ks = key_of ` set es" "obs = window_obs nows 0 (\<lambda>k. real (error_count es k)) ks"
      "anomaly_tick (Since s) ord nows w = w\<lparr>aw_det := snd (observe_all (aw_det w) obs),
         aw_feed := foldl Push (aw_feed w) (fst (observe_all (aw_det w) obs)),
         aw_onEvent := aw_onEvent w + length (fst (observe_all (aw_det w) obs)), aw_lastID := ID (last es)\<rparr>"
proof -
  have src: "store_ok s \<and> store_fits s" using assms(1,2) ..
  define es where "es = take 100000 (filter (\<lambda>x. aw_lastID w < ID x) (entries s))"
  have since: "Since s (aw_lastID w) 100000 = Inr es"
    using mem_source.since_reads [OF src] by (simp add: es_def since_limit_def)
  show ?thesis
  proof (cases "es = []")
    case True
    then show ?thesis using that(1) since by (simp add: es_def anomaly_tick_def)
  next
    case False
    obtain counts seen where c: "count_loop es (\<lambda>_. 0, []) = (counts, seen)" by fastforce
    from count_loop_spec [OF _ c] have cs: "counts = (\<lambda>k. real (error_count es k))" "distinct seen"
      "set seen = key_of ` set es" by auto
    then have ks: "distinct (ord seen)" "set (ord seen) = key_of ` set es"
      using assms(3) by (simp_all add: map_order_def)
    show ?thesis
      using since False c
      by (intro that(2) [OF es_def False mem_source.advance_checkpoint(1) [OF src since False] ks refl])
        (simp add: anomaly_tick_def observe_loop_eq cs(1))
  qed
qed

text \<open>
  A tick observes every (tenant, service) of its window exactly once, with the number of its
  error and fatal entries, zero included, whatever order the Go map is iterated in: the baseline
  of each such series takes that one step and all others stay; the events of the tick go to the
  feed; and the checkpoint moves to the last entry of the window.
\<close>

theorem anomaly_tick_observes_window:
  assumes "store_ok s" "store_fits s" "map_order ord"
    and "es = take 100000 (filter (\<lambda>x. aw_lastID w < ID x) (entries s))" "es \<noteq> []"
    and "list_all (\<lambda>e. plain_key (key_of e)) es" "plain_key (t, u)"
    and "w' = anomaly_tick (Since s) ord nows w"
  shows "aw_lastID w' = ID (last es) \<and>
    (if (t, u) \<in> key_of ` set es
     then \<exists>now. series (aw_det w') t u ''error_volume''
            = Some (next_baseline (aw_det w) now (series (aw_det w) t u ''error_volume'')
                      (real (error_count es (t, u))))
     else series (aw_det w') t u ''error_volume'' = series (aw_det w) t u ''error_volume'') \<and>
    (\<exists>evs. aw_feed w' = foldl Push (aw_feed w) evs \<and> aw_onEvent w' = aw_onEvent w + length evs \<and>
       (\<forall>e \<in> set evs. (ev_TenantID e, ev_Service e) \<in> key_of ` set es))"
  using assms(1-3)
proof (cases rule: anomaly_tick_window [where w = w and nows = nows])
  case idle
  with assms(4,5) show ?thesis by simp
next
  case (window es' ks obs)
  then have es: "es' = es" using assms(4) by simp
  note w = window(7) [folded assms(8), unfolded es]
  have plain: "list_all plain_key ks" using window(5) assms(6) by (auto simp: es list_all_iff)
  have "\<forall>e \<in> set (fst (observe_all (aw_det w) obs)). (ev_TenantID e, ev_Service e) \<in> key_of ` set es"
    using observe_all_events [of _ "aw_det w" obs] window(5,6) by (fastforce simp: es dest: window_obs_keys)
  then show ?thesis
    using window_series [OF window(4) plain assms(7), of "aw_det w" nows 0 "\<lambda>k. real (error_count es k)" "''error_volume''"]
    unfolding w window(5,6) es by auto
qed

theorem anomaly_tick_observes_window_witness:
  "\<exists>now. series (aw_det (anomaly_tick (Since demo_store) (\<lambda>ks. rev ks) (\<lambda>i. 7) (NewAnomaly (NewDetector (1/4) 3 15) (NewFeed 0) 0)))
       ''acme'' ''s'' ''error_volume'' = Some \<lparr>mean = 0, varc = 0, bl_count = 1, updated = now\<rparr>"
proof -
  let ?w = "NewAnomaly (NewDetector (1/4) 3 15) (NewFeed 0) 0"
  let ?es = "take 100000 (filter (\<lambda>x. aw_lastID ?w < ID x) (entries demo_store))"
  have es: "?es = entries demo_store" by (simp add: NewAnomaly_def demo_store_facts(4))
  have "map_order (\<lambda>ks. rev ks)" by (simp add: map_order_def)
  moreover have "?es \<noteq> []" "list_all (\<lambda>e. plain_key (key_of e)) ?es" "plain_key (''acme'', ''s'')"
    unfolding es by (simp_all add: demo_store_facts(4) plain_key_def key_of_def red_entry_def)
  moreover have "(''acme'', ''s'') \<in> key_of ` set ?es" "error_count ?es (''acme'', ''s'') = 0"
    unfolding es by (simp_all add: demo_store_facts(4) key_of_def red_entry_def zero_entry_def
        error_count_def is_error_def)
  ultimately show ?thesis
    using anomaly_tick_observes_window [OF demo_store_facts(1,2) _ refl _ _ _ refl,
        of "\<lambda>ks. rev ks" ?w "''acme''" "''s''" "\<lambda>i. 7"]
    by (simp add: NewAnomaly_def next_baseline_def)
qed

end
