(* ===== verification/Rbac.thy ===== *)
theory Rbac
  imports Prelude
begin

text \<open>
  Package \<open>internal/rbac\<close>: roles, actions, the capability table and \<open>Can\<close>. A role is a Go
  string type with three declared constants, so the model keeps any other string as a role
  of its own, and the table has no row for it; the same
  for actions.
\<close>

datatype role = Viewer | Responder | Admin | OtherRole string

datatype action = ActionSearch | ActionRAG | ActionAnomaly | ActionViewAudit
  | OtherAction string

fun role_string :: "role \<Rightarrow> string" where
  "role_string Viewer = ''viewer''"
| "role_string Responder = ''responder''"
| "role_string Admin = ''admin''"
| "role_string (OtherRole s) = s"

fun action_string :: "action \<Rightarrow> string" where
  "action_string ActionSearch = ''search''"
| "action_string ActionRAG = ''rag_query''"
| "action_string ActionAnomaly = ''read_anomaly''"
| "action_string ActionViewAudit = ''view_audit''"
| "action_string (OtherAction s) = s"

record identity =
  Actor :: string
  id_TenantID :: string
  id_Role :: role

text \<open>The table \<open>caps\<close>: a missing role has no row, a missing action reads as false.\<close>

fun caps :: "role \<Rightarrow> (action \<rightharpoonup> bool) option" where
  "caps Viewer = Some [ActionSearch \<mapsto> True]"
| "caps Responder = Some [ActionSearch \<mapsto> True, ActionRAG \<mapsto> True, ActionAnomaly \<mapsto> True]"
| "caps Admin = Some [ActionSearch \<mapsto> True, ActionRAG \<mapsto> True, ActionAnomaly \<mapsto> True,
                      ActionViewAudit \<mapsto> True]"
| "caps (OtherRole _) = None"

definition Can :: "role \<Rightarrow> action \<Rightarrow> bool" where
  "Can r a = (case caps r of None \<Rightarrow> False | Some m \<Rightarrow> (case m a of None \<Rightarrow> False | Some b \<Rightarrow> b))"

lemma Can_simps [simp]:
  "Can Viewer a \<longleftrightarrow> a = ActionSearch"
  "Can Responder a \<longleftrightarrow> a \<in> {ActionSearch, ActionRAG, ActionAnomaly}"
  "Can Admin a \<longleftrightarrow> a \<in> {ActionSearch, ActionRAG, ActionAnomaly, ActionViewAudit}"
  "\<not> Can (OtherRole s) a"
  by (cases a; simp add: Can_def)+

text \<open>The order of privilege the package comment announces.\<close>

fun rank :: "role \<Rightarrow> nat" where
  "rank (OtherRole _) = 0"
| "rank Viewer = 1"
| "rank Responder = 2"
| "rank Admin = 3"

fun required_rank :: "action \<Rightarrow> nat" where
  "required_rank ActionSearch = 1"
| "required_rank ActionRAG = 2"
| "required_rank ActionAnomaly = 2"
| "required_rank ActionViewAudit = 3"
| "required_rank (OtherAction _) = 4"

text \<open>
  The capability table is exactly the documented ladder of privileges: a role may do an
  action if and only if its rank reaches the rank the action requires; so privileges only
  grow from viewer to responder to admin, and a role the table does not know can do nothing.
\<close>

theorem Can_iff_rank: "Can r a = (required_rank a \<le> rank r)"
  by (cases r; cases a; simp)

text \<open>The ladder as an order on roles (roles the table does not know are all alike).\<close>

instantiation role :: preorder
begin

definition "r \<le> s \<longleftrightarrow> rank r \<le> rank s"

definition "r < s \<longleftrightarrow> rank r < rank s"

instance
  by standard (auto simp: less_eq_role_def less_role_def)

end

lemma Can_mono: "r \<le> s \<Longrightarrow> Can r a \<Longrightarrow> Can s a"
  by (simp add: Can_iff_rank less_eq_role_def)

end
