(* ===== verification/KnowledgeBase.thy ===== *)
theory KnowledgeBase
  imports VectorStore
begin

text \<open>
  Package \<open>internal/kb\<close>: runbooks and postmortems per tenant, indexed as they are added, and
  \<open>seedKB\<close> of package main. The embedder (with its version) and the vector store's \<open>Upsert\<close> are
  interfaces in the code and arguments here; the vector store is shared with the worker, so its
  state is passed through. The Go map of documents is an association list; \<open>GetByRef\<close> iterates
  over it in an unspecified order, which is shown not to matter.
\<close>

definition Runbook :: string where "Runbook = ''runbook''"

definition Postmortem :: string where "Postmortem = ''postmortem''"

record doc =
  doc_ID :: u64
  doc_TenantID :: string
  doc_Kind :: string
  doc_Title :: string
  doc_Content :: string
  doc_Tags :: "string list"

definition DocRef :: "doc \<Rightarrow> string" where
  "DocRef d = ''kb:'' @ doc_Kind d @ '':'' @ format_uint (unat (doc_ID d))"

record kb_store =
  kb_docs :: "(u64 \<times> doc) list"
  kb_nextID :: u64

definition NewKB :: kb_store where
  "NewKB = \<lparr>kb_docs = [], kb_nextID = 0\<rparr>"

definition AddDoc ::
  "(string \<Rightarrow> f32 list) \<Rightarrow> string \<Rightarrow> ('v \<Rightarrow> item \<Rightarrow> 'v) \<Rightarrow> kb_store \<times> 'v
   \<Rightarrow> string \<Rightarrow> string \<Rightarrow> string \<Rightarrow> string \<Rightarrow> string list \<Rightarrow> doc \<times> kb_store \<times> 'v" where
  "AddDoc emb version upsert kv tenantID kind title content tags =
     (let k = fst kv; i = kb_nextID k + 1;
          d = \<lparr>doc_ID = i, doc_TenantID = tenantID, doc_Kind = kind, doc_Title = title,
               doc_Content = content, doc_Tags = tags\<rparr>;
          k' = k\<lparr>kb_nextID := i, kb_docs := AList.update i d (kb_docs k)\<rparr>;
          v' = upsert (snd kv)
                 \<lparr>it_TenantID = tenantID, it_Ref = DocRef d, it_SourceType = kind,
                  it_Vec = emb (title @ [CHR 0x0A] @ content), it_Version = version\<rparr>
      in (d, k', v'))"

text \<open>The iteration over the documents \<open>ds\<close>, in the order the map yields them.\<close>

definition GetByRef_in :: "(u64 \<times> doc) list \<Rightarrow> string \<Rightarrow> string \<Rightarrow> doc option" where
  "GetByRef_in ds tenantID ref = find (\<lambda>d. doc_TenantID d = tenantID \<and> DocRef d = ref) (map snd ds)"

definition GetByRef :: "kb_store \<Rightarrow> string \<Rightarrow> string \<Rightarrow> doc option" where
  "GetByRef k tenantID ref = GetByRef_in (kb_docs k) tenantID ref"

definition KBLen :: "kb_store \<Rightarrow> nat" where "KBLen k = length (kb_docs k)"

text \<open>The two documents \<open>main\<close> starts with.\<close>

definition seedKB ::
  "(string \<Rightarrow> f32 list) \<Rightarrow> string \<Rightarrow> ('v \<Rightarrow> item \<Rightarrow> 'v) \<Rightarrow> kb_store \<times> 'v \<Rightarrow> kb_store \<times> 'v" where
  "seedKB emb version upsert kv =
     (let kv = snd (AddDoc emb version upsert kv ''acme'' Runbook ''Checkout 5xx spike runbook''
        (''When checkout returns 5xx: check payment gateway timeout, DB connection pool saturation, '' @
         ''and recent deploys. Roll back first, then investigate. Common cause: pool exhausted under load.'')
        [''checkout'', ''5xx''])
      in snd (AddDoc emb version upsert kv ''acme'' Postmortem ''2025-11 checkout outage postmortem''
        (''Root cause: connection pool exhausted after 50-pod scale-up, 1000 connections hit Postgres 8-core. '' @
         ''Fix: pgbouncer transaction pooling + reduced app-side pool. Detection: p99 latency alert.'')
        [''checkout'', ''database'']))"

subsection \<open>References\<close>

lemma DocRef_inj: "DocRef d = DocRef e \<Longrightarrow> doc_ID d = doc_ID e \<and> doc_Kind d = doc_Kind e"
proof -
  assume "DocRef d = DocRef e"
  then have eq: "rev (format_uint (unat (doc_ID d))) @ CHR '':'' # rev (doc_Kind d)
      = rev (format_uint (unat (doc_ID e))) @ CHR '':'' # rev (doc_Kind e)"
    unfolding DocRef_def by (metis append.assoc append_Cons append_Nil rev.simps(2) rev_append same_append_eq)
  have "CHR '':'' \<notin> set (rev (format_uint n))" for n
    using format_uint_digits [of "CHR '':''" n] by (auto simp: is_digit_def in_range_def)
  with eq show ?thesis
    by (simp add: separated_append_eq format_uint_inj word_unat_eq_iff)
qed

text \<open>Each document is stored under its ID; IDs run from 1 and the counter has not wrapped.\<close>

definition kb_ok :: "kb_store \<Rightarrow> bool" where
  "kb_ok k \<longleftrightarrow>
     distinct (map fst (kb_docs k)) \<and> (\<forall>(i, d) \<in> set (kb_docs k). doc_ID d = i \<and> i \<le> kb_nextID k) \<and>
     unat (kb_nextID k) = length (kb_docs k)"

definition kb_fits :: "kb_store \<Rightarrow> bool" where
  "kb_fits k \<longleftrightarrow> length (kb_docs k) + 1 < 2 ^ 64"

definition docs_of :: "kb_store \<Rightarrow> doc set" where
  "docs_of k = snd ` set (kb_docs k)"

lemma NewKB_ok [preserves]: "kb_ok NewKB"
  by (simp add: kb_ok_def NewKB_def)

lemma ref_determines_doc:
  assumes "kb_ok k" "d \<in> docs_of k" "e \<in> docs_of k" "DocRef d = DocRef e"
  shows "d = e"
proof -
  have "(doc_ID x, x) \<in> set (kb_docs k)" if "x \<in> docs_of k" for x
    using that assms(1) by (auto simp: kb_ok_def docs_of_def)
  from this [OF assms(2)] this [OF assms(3)] DocRef_inj [OF assms(4)]
  have "(doc_ID d, d) \<in> set (kb_docs k)" "(doc_ID d, e) \<in> set (kb_docs k)" by simp_all
  moreover have "distinct (map fst (kb_docs k))" using assms(1) by (simp add: kb_ok_def)
  ultimately show ?thesis by (rule eq_key_imp_eq_value [rotated])
qed

lemma GetByRef_in_iff:
  assumes "kb_ok k" "set ds = set (kb_docs k)"
  shows "GetByRef_in ds t r = Some d \<longleftrightarrow> d \<in> docs_of k \<and> doc_TenantID d = t \<and> DocRef d = r"
proof
  assume "GetByRef_in ds t r = Some d"
  then have "d \<in> set (map snd ds)" "doc_TenantID d = t \<and> DocRef d = r"
    unfolding GetByRef_in_def by (auto dest!: find_Some_mem)
  then show "d \<in> docs_of k \<and> doc_TenantID d = t \<and> DocRef d = r"
    using assms(2) by (simp add: docs_of_def)
next
  assume d: "d \<in> docs_of k \<and> doc_TenantID d = t \<and> DocRef d = r"
  then have "d \<in> set (map snd ds)" using assms(2) by (simp add: docs_of_def)
  with d obtain e where e: "GetByRef_in ds t r = Some e"
    unfolding GetByRef_in_def by (metis (mono_tags, lifting) find_None_iff not_Some_eq)
  then have "e \<in> docs_of k" "DocRef e = r"
    using find_Some_mem [OF e [unfolded GetByRef_in_def]] assms(2) by (simp_all add: docs_of_def)
  with d have "e = d" using ref_determines_doc [OF assms(1)] by metis
  with e show "GetByRef_in ds t r = Some d" by simp
qed

lemmas GetByRef_iff = GetByRef_in_iff [OF _ refl, folded GetByRef_def]

lemma update_new: "k \<notin> fst ` set al \<Longrightarrow> AList.update k v al = al @ [(k, v)]"
  by (induction al) auto

lemma AddDoc_effect:
  assumes "kb_ok (fst kv)" "kb_fits (fst kv)" "AddDoc emb ver up kv t kind title content tags = (d, k', v')"
  shows "kb_ok k' \<and> docs_of k' = insert d (docs_of (fst kv)) \<and> doc_TenantID d = t \<and> doc_Kind d = kind \<and>
    doc_Title d = title \<and> doc_Content d = content \<and> length (kb_docs k') = length (kb_docs (fst kv)) + 1 \<and>
    v' = up (snd kv) \<lparr>it_TenantID = t, it_Ref = DocRef d, it_SourceType = kind,
                     it_Vec = emb (title @ [CHR 0x0A] @ content), it_Version = ver\<rparr>"
proof -
  let ?k = "fst kv"
  define i where "i = kb_nextID ?k + 1"
  have i: "unat i = length (kb_docs ?k) + 1"
    using assms(1,2) by (simp add: i_def kb_ok_def kb_fits_def unat_word_ariths)
  have below: "j < i" if "j \<le> kb_nextID ?k" for j
    using that i assms(1) by (simp add: word_le_nat_alt word_less_nat_alt kb_ok_def)
  have new: "i \<notin> fst ` set (kb_docs ?k)"
    using assms(1) below by (fastforce simp: kb_ok_def)
  have d: "doc_ID d = i" "kb_docs k' = kb_docs ?k @ [(i, d)]" "kb_nextID k' = i"
    using assms(3) by (auto simp: AddDoc_def Let_def update_new [OF new, unfolded i_def] i_def)
  have old: "\<forall>(j, e) \<in> set (kb_docs ?k). doc_ID e = j \<and> j \<le> i"
    using assms(1) below by (fastforce simp: kb_ok_def)
  have "kb_ok k'"
    using assms(1) new old i unfolding kb_ok_def d by (auto simp: d(1))
  moreover have "docs_of k' = insert d (docs_of ?k)" by (simp add: docs_of_def d)
  ultimately show ?thesis
    using assms(3) d(2) by (auto simp: AddDoc_def Let_def)
qed

text \<open>
  A document that has been added is found again by its reference, by its tenant and by no other,
  whatever order the map is iterated in; the documents added before stay reachable; and the item
  put into the index carries that reference, the tenant and the embedding of title and content.
\<close>

theorem kb_roundtrip:
  assumes "kb_ok (fst kv)" "kb_fits (fst kv)" "AddDoc emb ver up kv t kind title content tags = (d, k', v')"
    and "set ds = set (kb_docs k')"
  shows "kb_ok k' \<and> doc_Title d = title \<and> doc_Content d = content \<and>
    GetByRef_in ds t (DocRef d) = Some d \<and> (t' \<noteq> t \<longrightarrow> GetByRef_in ds t' (DocRef d) = None) \<and>
    (\<forall>e r. GetByRef (fst kv) t'' r = Some e \<longrightarrow> GetByRef_in ds t'' r = Some e) \<and>
    v' = up (snd kv) \<lparr>it_TenantID = t, it_Ref = DocRef d, it_SourceType = kind,
                     it_Vec = emb (title @ [CHR 0x0A] @ content), it_Version = ver\<rparr>"
proof -
  note eff = AddDoc_effect [OF assms(1-3)]
  then have ok: "kb_ok k'" by blast
  note found = GetByRef_in_iff [OF ok assms(4)]
  have "GetByRef_in ds t' (DocRef d) = None" if "t' \<noteq> t"
  proof (rule ccontr)
    assume "GetByRef_in ds t' (DocRef d) \<noteq> None"
    then obtain e where "e \<in> docs_of k'" "doc_TenantID e = t'" "DocRef e = DocRef d"
      using found by blast
    moreover have "d \<in> docs_of k'" "doc_TenantID d = t" using eff by auto
    ultimately show False
      using ref_determines_doc [OF ok] that by blast
  qed
  then show ?thesis
    using eff found GetByRef_iff [OF assms(1)] by auto
qed

text \<open>Any embedder, here the one whose vectors have no entries, and an index that is a list.\<close>

theorem kb_roundtrip_witness:
  "\<exists>d k' v'. AddDoc (\<lambda>_. []) ''v'' (\<lambda>v it. v @ [it]) (NewKB, []) ''acme'' Runbook ''t'' ''c'' [] = (d, k', v') \<and>
     DocRef d = ''kb:runbook:'' @ format_uint 1 \<and>
     GetByRef_in (kb_docs k') ''acme'' (DocRef d) = Some d \<and> GetByRef_in (kb_docs k') ''globex'' (DocRef d) = None"
proof -
  obtain d k' v' where add: "AddDoc (\<lambda>_. []) ''v'' (\<lambda>v it. v @ [it]) (NewKB, []) ''acme'' Runbook ''t'' ''c'' [] = (d, k', v')"
    by (metis prod_cases3)
  moreover have "kb_fits (fst (NewKB, []))" by (simp add: kb_fits_def NewKB_def)
  moreover have "DocRef d = ''kb:runbook:'' @ format_uint 1"
    using add by (auto simp: AddDoc_def NewKB_def Let_def DocRef_def Runbook_def)
  ultimately show ?thesis
    using kb_roundtrip [of "(NewKB, [])" "\<lambda>_. []" "''v''" "\<lambda>v it. v @ [it]" "''acme''" Runbook "''t''" "''c''" "[]" d k' v' "kb_docs k'" "''globex''"]
      NewKB_ok by auto
qed

end
