(* ===== verification/AuditLog.thy ===== *)
theory AuditLog
  imports LogModel
begin

text \<open>
  Package \<open>internal/audit\<close>: the append-only log whose records carry the hash of their predecessor.
  The clock reading of \<open>Append\<close> is an argument. SHA-256 is computed, not assumed: where a property
  needs it to be collision free, it says which collision would have to be found.
\<close>

record audit_record =
  a_Seq :: u64
  a_TenantID :: string
  a_Actor :: string
  a_Action :: string
  a_Resource :: string
  a_At :: instant
  a_PrevHash :: string
  a_Hash :: string

record audit_log =
  a_records :: "audit_record list"
  a_lastHash :: string
  a_seq :: u64

definition genesis_text :: string where
  "genesis_text = ''sentinellog-audit-genesis''"

definition genesis :: string where
  "genesis = hex_encode (Sum256 genesis_text)"

definition NewAudit :: audit_log where
  "NewAudit = \<lparr>a_records = [], a_lastHash = genesis, a_seq = 0\<rparr>"

text \<open>\<open>UnixNano\<close>: the nanoseconds since 1970, with the wrap-around of \<open>int64\<close>.\<close>

definition UnixNano :: "instant \<Rightarrow> int" where
  "UnixNano t = sint (word_of_int (t - 62135596800 * 1000000000) :: u64)"

text \<open>The text \<open>hashRecord\<close> hashes: the fields separated by vertical bars.\<close>

definition record_data :: "audit_record \<Rightarrow> string" where
  "record_data r =
     format_uint (unat (a_Seq r)) @ ''|'' @ a_TenantID r @ ''|'' @ a_Actor r @ ''|'' @ a_Action r @
     ''|'' @ a_Resource r @ ''|'' @ format_int (UnixNano (a_At r)) @ ''|'' @ a_PrevHash r"

definition hashRecord :: "audit_record \<Rightarrow> string" where
  "hashRecord r = hex_encode (Sum256 (record_data r))"

definition Append ::
  "audit_log \<Rightarrow> instant \<Rightarrow> string \<Rightarrow> string \<Rightarrow> string \<Rightarrow> string \<Rightarrow> audit_record \<times> audit_log" where
  "Append l now tenantID actor action resource =
     (let n = a_seq l + 1;
          r = \<lparr>a_Seq = n, a_TenantID = tenantID, a_Actor = actor, a_Action = action,
               a_Resource = resource, a_At = now, a_PrevHash = a_lastHash l, a_Hash = []\<rparr>;
          r = r\<lparr>a_Hash := hashRecord r\<rparr>
      in (r, l\<lparr>a_seq := n, a_lastHash := a_Hash r, a_records := a_records l @ [r]\<rparr>))"

fun verify_loop :: "string \<Rightarrow> audit_record list \<Rightarrow> bool \<times> u64" where
  "verify_loop prev [] = (True, 0)"
| "verify_loop prev (r # rs) =
     (if a_PrevHash r \<noteq> prev then (False, a_Seq r)
      else if a_Hash r \<noteq> hashRecord r then (False, a_Seq r)
      else verify_loop (a_Hash r) rs)"

definition Verify :: "audit_log \<Rightarrow> bool \<times> u64" where
  "Verify l = verify_loop genesis (a_records l)"

definition Head :: "audit_log \<Rightarrow> string" where "Head l = a_lastHash l"

definition AuditLen :: "audit_log \<Rightarrow> nat" where "AuditLen l = length (a_records l)"

subsection \<open>Chains\<close>

text \<open>The hash a chain ends in.\<close>

definition chain_end :: "string \<Rightarrow> audit_record list \<Rightarrow> string" where
  "chain_end prev rs = (if rs = [] then prev else a_Hash (last rs))"

lemma hashRecord_Hash [simp]: "hashRecord (r\<lparr>a_Hash := h\<rparr>) = hashRecord r"
  by (simp add: hashRecord_def record_data_def)

lemma verify_loop_append:
  "fst (verify_loop prev (rs @ qs)) \<longleftrightarrow> fst (verify_loop prev rs) \<and> fst (verify_loop (chain_end prev rs) qs)"
  by (induction prev rs rule: verify_loop.induct) (auto simp: chain_end_def)

lemma verify_loop_True: "verify_loop prev rs = (True, 0) \<longleftrightarrow> fst (verify_loop prev rs)"
  by (induction prev rs rule: verify_loop.induct) auto

lemma verify_snoc:
  "fst (verify_loop prev (rs @ [r])) \<longleftrightarrow>
   fst (verify_loop prev rs) \<and> a_PrevHash r = chain_end prev rs \<and> a_Hash r = hashRecord r"
  by (auto simp: verify_loop_append)

definition audit_ok :: "audit_log \<Rightarrow> bool" where
  "audit_ok l \<longleftrightarrow>
     Verify l = (True, 0) \<and> a_lastHash l = chain_end genesis (a_records l) \<and>
     a_seq l = of_nat (length (a_records l)) \<and>
     map a_Seq (a_records l) = map (\<lambda>i. of_nat (Suc i)) [0..<length (a_records l)]"

lemma NewAudit_ok [preserves]: "audit_ok NewAudit"
  by (simp add: audit_ok_def NewAudit_def Verify_def chain_end_def)

lemma Append_fields:
  "a_records (snd (Append l now t a c r)) = a_records l @ [fst (Append l now t a c r)]"
  "a_TenantID (fst (Append l now t a c r)) = t" "a_Actor (fst (Append l now t a c r)) = a"
  "a_Action (fst (Append l now t a c r)) = c" "a_Resource (fst (Append l now t a c r)) = r"
  "a_At (fst (Append l now t a c r)) = now"
  by (simp_all add: Append_def Let_def)

lemma Append_ok [preserves]:
  assumes "audit_ok l"
  shows "audit_ok (snd (Append l now t a c r))"
proof -
  have "fst (verify_loop genesis (a_records l))" "a_lastHash l = chain_end genesis (a_records l)"
    using assms by (simp_all add: audit_ok_def Verify_def verify_loop_True)
  then have "Verify (snd (Append l now t a c r)) = (True, 0)"
    by (simp add: Verify_def verify_loop_True Append_def Let_def verify_snoc
        hashRecord_def record_data_def)
  with assms show ?thesis
    by (simp add: audit_ok_def Append_def Let_def chain_end_def)
qed

text \<open>A run of appends, each with its time, tenant, actor, action and resource.\<close>

type_synonym audit_call = "instant \<times> string \<times> string \<times> string \<times> string"

definition append_all :: "audit_log \<Rightarrow> audit_call list \<Rightarrow> audit_log" where
  "append_all l cs = foldl (\<lambda>l (now, t, a, c, r). snd (Append l now t a c r)) l cs"

lemma append_all_ok: "audit_ok l \<Longrightarrow> audit_ok (append_all l cs)"
  by (induction cs arbitrary: l) (auto simp: append_all_def Append_ok)

definition call_of :: "audit_record \<Rightarrow> audit_call" where
  "call_of r = (a_At r, a_TenantID r, a_Actor r, a_Action r, a_Resource r)"

lemma append_all_calls: "map call_of (a_records (append_all l cs)) = map call_of (a_records l) @ cs"
proof (induction cs arbitrary: l)
  case (Cons c cs)
  then show ?case by (cases c) (simp add: append_all_def Append_fields call_of_def)
qed (simp add: append_all_def)

text \<open>
  C25. What is appended is kept and verifies: after any run of appends the log holds exactly those
  calls, in order, numbered from 1; \<open>Verify\<close> accepts it; and \<open>Head\<close> is the hash of its last
  record. As the package says, truncation is not detected: every prefix verifies as well.
\<close>

theorem appended_log_verifies:
  "map call_of (a_records (append_all NewAudit cs)) = cs \<and>
   map a_Seq (a_records (append_all NewAudit cs)) = map (\<lambda>i. of_nat (Suc i)) [0..<length cs] \<and>
   Verify (append_all NewAudit cs) = (True, 0) \<and>
   Head (append_all NewAudit cs) = chain_end genesis (a_records (append_all NewAudit cs)) \<and>
   Verify ((append_all NewAudit cs)\<lparr>a_records := take n (a_records (append_all NewAudit cs))\<rparr>) = (True, 0)"
proof -
  let ?l = "append_all NewAudit cs"
  have calls: "map call_of (a_records ?l) = cs"
    using append_all_calls [of NewAudit cs] by (simp add: NewAudit_def)
  then have len: "length (a_records ?l) = length cs" by (metis length_map)
  have ok: "audit_ok ?l" by (rule append_all_ok [OF NewAudit_ok])
  then have "fst (verify_loop genesis (take n (a_records ?l) @ drop n (a_records ?l)))"
    by (simp add: audit_ok_def Verify_def verify_loop_True)
  then have "fst (verify_loop genesis (take n (a_records ?l)))"
    unfolding verify_loop_append by blast
  with ok calls len show ?thesis
    by (simp add: audit_ok_def Head_def) (simp add: Verify_def verify_loop_True)
qed

text \<open>
  \<open>Verify\<close> finds the first corrupted record: when it rejects, there is a record with the
  reported number that does not carry its own hash or not that of its predecessor, and the
  records in front of it form an intact chain.
\<close>

theorem Verify_locates:
  assumes "Verify l = (False, q)"
  shows "\<exists>i < length (a_records l). a_Seq (a_records l ! i) = q \<and>
    verify_loop genesis (take i (a_records l)) = (True, 0) \<and>
    (a_PrevHash (a_records l ! i) \<noteq> chain_end genesis (take i (a_records l)) \<or>
     a_Hash (a_records l ! i) \<noteq> hashRecord (a_records l ! i))"
proof -
  have "verify_loop prev rs = (False, q) \<Longrightarrow> \<exists>i < length rs. a_Seq (rs ! i) = q \<and>
      verify_loop prev (take i rs) = (True, 0) \<and>
      (a_PrevHash (rs ! i) \<noteq> chain_end prev (take i rs) \<or> a_Hash (rs ! i) \<noteq> hashRecord (rs ! i))" for prev rs
  proof (induction prev rs rule: verify_loop.induct)
    case (2 prev r rs)
    show ?case
    proof (cases "a_PrevHash r = prev \<and> a_Hash r = hashRecord r")
      case True
      with 2 obtain i where "i < length rs" "a_Seq (rs ! i) = q"
        "verify_loop (a_Hash r) (take i rs) = (True, 0)"
        "a_PrevHash (rs ! i) \<noteq> chain_end (a_Hash r) (take i rs) \<or> a_Hash (rs ! i) \<noteq> hashRecord (rs ! i)"
        by auto
      with True show ?thesis
        by (intro exI [of _ "Suc i"]) (auto simp: chain_end_def)
    next
      case False
      with "2.prems" show ?thesis
        by (intro exI [of _ 0]) (auto simp: chain_end_def split: if_splits)
    qed
  qed simp
  with assms show ?thesis by (simp add: Verify_def)
qed

theorem Verify_locates_witness:
  "\<exists>r. a_Seq r = 7 \<and> Verify \<lparr>a_records = [r], a_lastHash = genesis, a_seq = 7\<rparr> = (False, 7) \<and>
     a_PrevHash r \<noteq> chain_end genesis []"
proof -
  let ?r = "\<lparr>a_Seq = 7, a_TenantID = ''acme'', a_Actor = ''eve'', a_Action = ''search'', a_Resource = [],
             a_At = 0, a_PrevHash = ''?'' @ genesis, a_Hash = []\<rparr>"
  let ?l = "\<lparr>a_records = [?r], a_lastHash = genesis, a_seq = 7\<rparr>"
  have v: "Verify ?l = (False, 7)" by (simp add: Verify_def)
  from Verify_locates [OF v] v show ?thesis by (intro exI [of _ ?r]) (simp add: chain_end_def)
qed

subsection \<open>Tampering\<close>

text \<open>Two different texts among the given ones with the same SHA-256.\<close>

definition collision_in :: "string set \<Rightarrow> bool" where
  "collision_in A \<longleftrightarrow> (\<exists>x \<in> A. \<exists>y \<in> A. x \<noteq> y \<and> Sum256 x = Sum256 y)"

lemma collision_mono: "collision_in A \<Longrightarrow> A \<subseteq> B \<Longrightarrow> collision_in B"
  unfolding collision_in_def by blast

text \<open>The texts hashed in a chain, with the genesis text.\<close>

definition hashed :: "audit_record list \<Rightarrow> string set" where
  "hashed rs = insert genesis_text (record_data ` set rs)"

lemma hashRecord_eq: "hashRecord r = hashRecord s \<longleftrightarrow> Sum256 (record_data r) = Sum256 (record_data s)"
  by (auto simp: hashRecord_def dest: hex_encode_inj)

lemma bar_not_genesis: "record_data r \<noteq> genesis_text"
proof
  assume "record_data r = genesis_text"
  then have "CHR ''|'' \<in> set genesis_text" by (metis UnI2 append_Cons list.set_intros(1) record_data_def set_append)
  then show False by (simp add: genesis_text_def)
qed

lemma hex_no_bar: "CHR ''|'' \<notin> set (hex_encode bs)"
proof -
  have "byte (hex_digit d) \<noteq> byte (CHR ''|'')" if "d < 16" for d
    using that by (simp add: hex_digit_def)
  then have d: "hex_digit d \<noteq> CHR ''|''" if "d < 16" for d using that by metis
  have "unat (b :: u8) div 16 < 16" for b
    using unsigned_less [of b, where ?'a = nat] by (simp add: less_mult_imp_div_less)
  with d show ?thesis by (auto simp: hex_encode_def) (metis d mod_less_divisor zero_less_numeral)+
qed

lemma last_field_eq:
  assumes "z \<notin> set x" "z \<notin> set y" "a @ z # x = b @ z # y"
  shows "a = b \<and> x = y"
proof -
  have "rev x @ z # rev a = rev y @ z # rev b"
    using arg_cong [OF assms(3), of rev] by simp
  with assms(1,2) show ?thesis by (simp add: separated_append_eq)
qed

lemma chain_end_no_bar:
  "fst (verify_loop genesis rs) \<Longrightarrow> CHR ''|'' \<notin> set (chain_end genesis rs)"
  by (cases rs rule: rev_cases) (auto simp: chain_end_def verify_snoc genesis_def hashRecord_def hex_no_bar)

lemma record_data_PrevHash:
  assumes "record_data r = record_data s" "CHR ''|'' \<notin> set (a_PrevHash r)" "CHR ''|'' \<notin> set (a_PrevHash s)"
  shows "a_PrevHash r = a_PrevHash s"
proof -
  have "\<exists>a. record_data r = a @ CHR ''|'' # a_PrevHash r" for r
    unfolding record_data_def
    by (rule exI [of _ "format_uint (unat (a_Seq r)) @ ''|'' @ a_TenantID r @ ''|'' @ a_Actor r @ ''|'' @
          a_Action r @ ''|'' @ a_Resource r @ ''|'' @ format_int (UnixNano (a_At r))"]) simp
  then obtain a b where "record_data r = a @ CHR ''|'' # a_PrevHash r"
    "record_data s = b @ CHR ''|'' # a_PrevHash s" by blast
  with assms show ?thesis using last_field_eq by metis
qed

lemma same_end_same_data:
  assumes "fst (verify_loop genesis rs)" "fst (verify_loop genesis qs)"
    and "chain_end genesis rs = chain_end genesis qs" "\<not> collision_in (hashed rs \<union> hashed qs)"
  shows "map record_data rs = map record_data qs"
  using assms
proof (induction rs arbitrary: qs rule: rev_induct)
  case Nil
  show ?case
  proof (cases qs rule: rev_cases)
    case (snoc qs' q)
    with Nil have "Sum256 genesis_text = Sum256 (record_data q)"
      by (auto simp: chain_end_def verify_snoc genesis_def hashRecord_def dest: hex_encode_inj)
    moreover have "record_data q \<in> hashed [] \<union> hashed qs" "genesis_text \<in> hashed [] \<union> hashed qs"
      by (simp_all add: hashed_def snoc)
    ultimately have "collision_in (hashed [] \<union> hashed qs)"
      using bar_not_genesis [of q] unfolding collision_in_def by metis
    with Nil(4) show ?thesis ..
  qed simp
next
  case (snoc r rs)
  have r: "fst (verify_loop genesis rs)" "a_PrevHash r = chain_end genesis rs" "a_Hash r = hashRecord r"
    using snoc.prems(1) by (simp_all add: verify_snoc)
  show ?case
  proof (cases qs rule: rev_cases)
    case Nil
    with snoc.prems(3) r(3) have "Sum256 genesis_text = Sum256 (record_data r)"
      by (auto simp: chain_end_def genesis_def hashRecord_def dest: hex_encode_inj)
    moreover have "record_data r \<in> hashed (rs @ [r]) \<union> hashed qs" "genesis_text \<in> hashed (rs @ [r]) \<union> hashed qs"
      by (simp_all add: hashed_def)
    ultimately have "collision_in (hashed (rs @ [r]) \<union> hashed qs)"
      using bar_not_genesis [of r] unfolding collision_in_def by metis
    with snoc.prems(4) show ?thesis ..
  next
    case qs: (snoc qs' q)
    have q: "fst (verify_loop genesis qs')" "a_PrevHash q = chain_end genesis qs'" "a_Hash q = hashRecord q"
      using snoc.prems(2) by (simp_all add: verify_snoc qs)
    have "Sum256 (record_data r) = Sum256 (record_data q)"
      using snoc.prems(3) r(3) q(3) by (simp add: qs chain_end_def hashRecord_eq)
    moreover have "record_data r \<in> hashed (rs @ [r]) \<union> hashed qs" "record_data q \<in> hashed (rs @ [r]) \<union> hashed qs"
      by (simp_all add: hashed_def qs)
    ultimately have data: "record_data r = record_data q"
      using snoc.prems(4) unfolding collision_in_def by metis
    then have "chain_end genesis rs = chain_end genesis qs'"
      using record_data_PrevHash [OF data] chain_end_no_bar r q by simp
    moreover have "hashed rs \<union> hashed qs' \<subseteq> hashed (rs @ [r]) \<union> hashed qs"
      by (auto simp: hashed_def qs)
    then have "\<not> collision_in (hashed rs \<union> hashed qs')"
      using snoc.prems(4) collision_mono by blast
    ultimately have "map record_data rs = map record_data qs'"
      by (rule snoc.IH [OF r(1) q(1)])
    with data qs show ?thesis by simp
  qed
qed

text \<open>Without a bar in its text fields a record is determined by its data.\<close>

definition bar_free :: "audit_record \<Rightarrow> bool" where
  "bar_free r \<longleftrightarrow> CHR ''|'' \<notin> set (a_TenantID r @ a_Actor r @ a_Action r @ a_Resource r)"

definition fields_of :: "audit_record \<Rightarrow> u64 \<times> string \<times> string \<times> string \<times> string \<times> string" where
  "fields_of r = (a_Seq r, a_TenantID r, a_Actor r, a_Action r, a_Resource r,
                  format_int (UnixNano (a_At r)))"

lemma format_no_bar: "CHR ''|'' \<notin> set (format_uint n)" "CHR ''|'' \<notin> set (format_int i)"
proof -
  show "CHR ''|'' \<notin> set (format_uint n)" for n
    using format_uint_digits [of "CHR ''|''" n] by (auto simp: is_digit_def in_range_def)
  then show "CHR ''|'' \<notin> set (format_int i)" by (simp add: format_int_def)
qed

lemma record_data_fields:
  "bar_free r \<Longrightarrow> bar_free s \<Longrightarrow> record_data r = record_data s \<Longrightarrow> fields_of r = fields_of s"
  by (auto simp: bar_free_def record_data_def fields_of_def separated_append_eq format_no_bar
      format_uint_inj word_unat_eq_iff)

lemma same_data_same_fields:
  assumes "map record_data rs = map record_data qs" "list_all bar_free rs" "list_all bar_free qs"
  shows "map fields_of rs = map fields_of qs"
  using assms
proof (induction rs arbitrary: qs)
  case (Cons r rs)
  then obtain q qs' where "qs = q # qs'" by (cases qs) auto
  with Cons show ?case using record_data_fields [of r q] by simp
qed simp

text \<open>
  C22. Tampering is evident: if two logs both verify and end in the same (anchored) head hash, then
  either they hold the same hashed data, record for record (same length, so truncation is found
  too), and the same fields unless one has a vertical bar in a field, or one can point at a
  SHA-256 collision among the very texts hashed in the two logs.
\<close>

theorem tampering_needs_collision:
  assumes "Verify l = (True, 0)" "Verify l' = (True, 0)"
    and "chain_end genesis (a_records l) = chain_end genesis (a_records l')"
  shows "map record_data (a_records l) = map record_data (a_records l') \<and>
         (list_all bar_free (a_records l) \<longrightarrow> list_all bar_free (a_records l') \<longrightarrow>
            map fields_of (a_records l) = map fields_of (a_records l')) \<or>
         collision_in (hashed (a_records l) \<union> hashed (a_records l'))"
proof -
  have "fst (verify_loop genesis (a_records l))" "fst (verify_loop genesis (a_records l'))"
    using assms(1,2) by (simp_all add: Verify_def verify_loop_True)
  then show ?thesis
    using same_end_same_data [OF _ _ assms(3)] same_data_same_fields [of "a_records l" "a_records l'"] by blast
qed

definition demo_record :: "string \<Rightarrow> string \<Rightarrow> audit_record" where
  "demo_record a c = \<lparr>a_Seq = 1, a_TenantID = ''acme'', a_Actor = a, a_Action = c,
     a_Resource = ''db'', a_At = 0, a_PrevHash = genesis, a_Hash = []\<rparr>"

definition demo_audit :: "string \<Rightarrow> string \<Rightarrow> audit_log" where
  "demo_audit a c = \<lparr>a_records = [(demo_record a c)\<lparr>a_Hash := hashRecord (demo_record a c)\<rparr>],
                     a_lastHash = hashRecord (demo_record a c), a_seq = 1\<rparr>"

theorem tampering_needs_collision_witness:
  "a_records (demo_audit ''a|b'' ''c'') \<noteq> a_records (demo_audit ''a'' ''b|c'') \<and>
   (map record_data (a_records (demo_audit ''a|b'' ''c'')) = map record_data (a_records (demo_audit ''a'' ''b|c'')) \<or>
    collision_in (hashed (a_records (demo_audit ''a|b'' ''c'')) \<union> hashed (a_records (demo_audit ''a'' ''b|c''))))"
proof -
  have "Verify (demo_audit a c) = (True, 0)" for a c
  proof -
    have "a_PrevHash (demo_record a c) = genesis" by (simp add: demo_record_def)
    then show ?thesis by (simp add: Verify_def demo_audit_def)
  qed
  moreover have "hashRecord (demo_record ''a|b'' ''c'') = hashRecord (demo_record ''a'' ''b|c'')"
    by (simp only: hashRecord_def) (simp add: record_data_def demo_record_def)
  then have "chain_end genesis (a_records (demo_audit ''a|b'' ''c''))
      = chain_end genesis (a_records (demo_audit ''a'' ''b|c''))"
    by (simp add: chain_end_def demo_audit_def)
  moreover have actor: "a_Actor (hd (a_records (demo_audit a c))) = a" for a c
    by (simp add: demo_audit_def demo_record_def)
  have "a_records (demo_audit ''a|b'' ''c'') \<noteq> a_records (demo_audit ''a'' ''b|c'')"
    using actor [of "''a|b''" "''c''"] actor [of "''a''" "''b|c''"] by auto
  ultimately show ?thesis
    using tampering_needs_collision by blast
qed

text \<open>
  C40. What is hashed does not fix the fields: a vertical bar in a field makes the record's text
  ambiguous, so in any log a verifying record can be replaced by one whose actor and action
  (or tenant, or resource) are split differently at that bar, and \<open>Verify\<close> still accepts.
\<close>

theorem delimiter_shift_undetected:
  "Verify (l\<lparr>a_records := xs @ r\<lparr>a_Actor := a @ ''|'' @ b, a_Action := c\<rparr> # ys\<rparr>)
     = Verify (l\<lparr>a_records := xs @ r\<lparr>a_Actor := a, a_Action := b @ ''|'' @ c\<rparr> # ys\<rparr>) \<and>
   Verify (l\<lparr>a_records := xs @ r\<lparr>a_TenantID := a @ ''|'' @ b, a_Actor := c\<rparr> # ys\<rparr>)
     = Verify (l\<lparr>a_records := xs @ r\<lparr>a_TenantID := a, a_Actor := b @ ''|'' @ c\<rparr> # ys\<rparr>)"
proof -
  have "verify_loop p (xs @ r\<lparr>a_Actor := a @ ''|'' @ b, a_Action := c\<rparr> # ys)
     = verify_loop p (xs @ r\<lparr>a_Actor := a, a_Action := b @ ''|'' @ c\<rparr> # ys)" for p
    by (induction xs arbitrary: p) (simp_all add: hashRecord_def record_data_def)
  moreover have "verify_loop p (xs @ r\<lparr>a_TenantID := a @ ''|'' @ b, a_Actor := c\<rparr> # ys)
     = verify_loop p (xs @ r\<lparr>a_TenantID := a, a_Actor := b @ ''|'' @ c\<rparr> # ys)" for p
    by (induction xs arbitrary: p) (simp_all add: hashRecord_def record_data_def)
  ultimately show ?thesis by (simp add: Verify_def)
qed

end
