(* ===== verification/Query.thy ===== *)
theory Query
  imports Rbac Store KnowledgeBase AuditLog
begin

text \<open>
  \<open>internal/query/service.go\<close> and \<open>rag.go\<close>: structured search, semantic search and the "why did X fail"
  flow, all under the identity's tenant and role and all written to the audit log. The log store,
  the vector store and the embedder are interfaces, here the functions that are their methods
  at the time of the request; the service itself changes only the audit log. A score is printed
  by \<open>%.2f\<close> as an exact real.
\<close>

record service =
  sv_Search :: "query \<Rightarrow> err + stored_entry list"
  sv_Get :: "string \<Rightarrow> u64 \<Rightarrow> stored_entry option"
  sv_VecSearch :: "string \<Rightarrow> f32 list \<Rightarrow> int \<Rightarrow> hit list"
  sv_Embed :: "string \<Rightarrow> f32 list"
  sv_KB :: kb_store
  sv_Audit :: audit_log
  sv_MinScore :: f32

definition audit_as :: "service \<Rightarrow> instant \<Rightarrow> identity \<Rightarrow> action \<Rightarrow> string \<Rightarrow> service" where
  "audit_as s now who act resource =
     s\<lparr>sv_Audit := snd (Append (sv_Audit s) now (id_TenantID who) (Actor who) (action_string act) resource)\<rparr>"

definition StructuredSearch ::
  "service \<Rightarrow> instant \<Rightarrow> identity \<Rightarrow> query \<Rightarrow> (err + stored_entry list) \<times> service" where
  "StructuredSearch s now who q =
     (if \<not> Can (id_Role who) ActionSearch then (Inl ErrForbidden, s)
      else (let q = q\<lparr>q_TenantID := id_TenantID who\<rparr>;
                s = audit_as s now who ActionSearch (''structured:'' @ q_Service q)
            in (sv_Search s q, s)))"

record semantic_hit =
  sh_Ref :: string
  sh_SourceType :: string
  sh_Score :: f32
  sh_Snippet :: string

text \<open>The ellipsis U+2026 and the em dash U+2014 between spaces, in UTF-8.\<close>

definition ellipsis :: string where "ellipsis = [chr 226, chr 128, chr 166]"

definition em_dash :: string where "em_dash = [chr 32, chr 226, chr 128, chr 148, chr 32]"

definition truncate_string :: "string \<Rightarrow> nat \<Rightarrow> string" where
  "truncate_string s n = (if length s \<le> n then s else take n s @ ellipsis)"

definition resolveSnippet :: "service \<Rightarrow> string \<Rightarrow> string \<Rightarrow> string" where
  "resolveSnippet s tenantID ref =
     (if has_prefix ref ''log:''
      then (case parse_uint64 (drop (length ''log:'') ref) of
              None \<Rightarrow> []
            | Some i \<Rightarrow> (case sv_Get s tenantID i of None \<Rightarrow> [] | Some e \<Rightarrow> Message (LogEntry e)))
      else if has_prefix ref ''kb:''
      then (case GetByRef (sv_KB s) tenantID ref of
              None \<Rightarrow> []
            | Some d \<Rightarrow> doc_Title d @ em_dash @ truncate_string (doc_Content d) 240)
      else [])"

text \<open>The loop of \<open>SemanticSearch\<close> that resolves the hits and drops those without a snippet.\<close>

fun resolve_hits :: "service \<Rightarrow> string \<Rightarrow> hit list \<Rightarrow> semantic_hit list" where
  "resolve_hits s tenantID [] = []"
| "resolve_hits s tenantID (h # hs) =
     (let it = h_Item h; snip = resolveSnippet s tenantID (it_Ref it) in
      if snip = [] then resolve_hits s tenantID hs
      else \<lparr>sh_Ref = it_Ref it, sh_SourceType = it_SourceType it, sh_Score = h_Score h, sh_Snippet = snip\<rparr>
           # resolve_hits s tenantID hs)"

definition SemanticSearch ::
  "service \<Rightarrow> instant \<Rightarrow> identity \<Rightarrow> string \<Rightarrow> int \<Rightarrow> (err + semantic_hit list) \<times> service" where
  "SemanticSearch s now who text k =
     (if \<not> Can (id_Role who) ActionSearch then (Inl ErrForbidden, s)
      else (let s = audit_as s now who ActionSearch (''semantic:'' @ truncate_string text 64);
                hits = sv_VecSearch s (id_TenantID who) (sv_Embed s text) k
            in (Inr (resolve_hits s (id_TenantID who) hits), s)))"

subsection \<open>Answers\<close>

record answer =
  an_Question :: string
  an_Text :: string
  an_Citations :: "string list"
  an_Refused :: bool
  an_Reason :: string
  an_InjectionHit :: bool

definition injectionMarkers :: "string list" where
  "injectionMarkers =
     [''ignore previous instructions'', ''ignore all previous'', ''disregard the above'',
      ''you are now'', ''system prompt'', ''reveal your'', ''override your instructions'']"

definition hasInjection :: "unicode_tables \<Rightarrow> string \<Rightarrow> bool" where
  "hasInjection u s = (let low = to_lower u s in list_ex (contains low) injectionMarkers)"

text \<open>\<open>%.2f\<close>: the nearest multiple of 1/100, ties to even, with the sign of the number.\<close>

definition round_half_even :: "real \<Rightarrow> nat" where
  "round_half_even x =
     (let f = nat \<lfloor>x\<rfloor>; d = x - real f in
      if d < 1 / 2 then f else if d > 1 / 2 then f + 1 else if even f then f else f + 1)"

definition format_2f :: "f32 \<Rightarrow> string" where
  "format_2f x =
     (let n = round_half_even (\<bar>x\<bar> * 100) in
      (if x < 0 then ''-'' else []) @ format_uint (n div 100) @ ''.'' @
      [digit_char (n div 10 mod 10), digit_char (n mod 10)])"

definition suspicious_prefix :: string where
  "suspicious_prefix = ''[content contains suspicious directives - treated as data, not executed] ''"

definition cite_line :: "nat \<Rightarrow> semantic_hit \<Rightarrow> string \<Rightarrow> string" where
  "cite_line i h snippet =
     format_uint i @ ''. ['' @ sh_Ref h @ ''] (score '' @ format_2f (sh_Score h) @ '') '' @
     truncate_string snippet 200 @ [CHR 0x0A]"

text \<open>The loop over the relevant hits: the text so far, the citations and the injection flag.\<close>

fun cite_loop ::
  "unicode_tables \<Rightarrow> nat \<Rightarrow> semantic_hit list \<Rightarrow> string \<times> string list \<times> bool \<Rightarrow> string \<times> string list \<times> bool" where
  "cite_loop u i [] acc = acc"
| "cite_loop u i (h # hs) (text, cites, flag) =
     (let snippet = sh_Snippet h;
          bad = hasInjection u snippet;
          snippet = (if bad then suspicious_prefix @ snippet else snippet)
      in cite_loop u (i + 1) hs (text @ cite_line (i + 1) h snippet, cites @ [sh_Ref h], flag \<or> bad))"

definition refusal_reason :: string where
  "refusal_reason = ''insufficient grounded evidence in this tenant'' @ [CHR 0x27] @ ''s logs/runbooks''"

definition refusal_text :: string where
  "refusal_text =
     ''There is not enough evidence in this tenant'' @ [CHR 0x27] @ ''s logs and runbooks '' @
     ''to answer with confidence. Narrow the service or time window, or add a '' @
     ''relevant runbook.''"

definition answer_head :: "nat \<Rightarrow> string" where
  "answer_head n =
     ''Based on the '' @ format_uint n @
     '' most relevant sources in this tenant, here is a cited summary:'' @ [CHR 0x0A, CHR 0x0A]"

definition answer_tail :: string where
  "answer_tail = [CHR 0x0A] @ ''Every conclusion above traces back to the cited [ref] sources.''"

definition WhyDidFail ::
  "unicode_tables \<Rightarrow> service \<Rightarrow> instant \<Rightarrow> instant \<Rightarrow> identity \<Rightarrow> string \<Rightarrow> int \<Rightarrow> (err + answer) \<times> service" where
  "WhyDidFail u s now now2 who question k =
     (if \<not> Can (id_Role who) ActionRAG then (Inl ErrForbidden, s)
      else (let s = audit_as s now who ActionRAG (truncate_string question 128) in
        case SemanticSearch s now2 who question k of
          (Inl e, s) \<Rightarrow> (Inl e, s)
        | (Inr hits, s) \<Rightarrow>
            (let relevant = filter (\<lambda>h. sh_Score h \<ge> sv_MinScore s) hits in
             if relevant = []
             then (Inr \<lparr>an_Question = question, an_Text = refusal_text, an_Citations = [],
                        an_Refused = True, an_Reason = refusal_reason, an_InjectionHit = False\<rparr>, s)
             else (case cite_loop u 0 relevant (answer_head (length relevant), [], False) of
                     (text, cites, flag) \<Rightarrow>
                       (Inr \<lparr>an_Question = question, an_Text = text @ answer_tail, an_Citations = cites,
                             an_Refused = False, an_Reason = [], an_InjectionHit = flag\<rparr>, s)))))"

subsection \<open>Access control and the audit trail\<close>

lemma audit_as_fields [simp]:
  "sv_Search (audit_as s now who act r) = sv_Search s" "sv_Get (audit_as s now who act r) = sv_Get s"
  "sv_VecSearch (audit_as s now who act r) = sv_VecSearch s" "sv_Embed (audit_as s now who act r) = sv_Embed s"
  "sv_KB (audit_as s now who act r) = sv_KB s" "sv_MinScore (audit_as s now who act r) = sv_MinScore s"
  by (simp_all add: audit_as_def)

text \<open>The calls recorded in the service's audit log.\<close>

definition trail :: "service \<Rightarrow> audit_call list" where
  "trail s = map call_of (a_records (sv_Audit s))"

lemma trail_audit_as:
  "trail (audit_as s now who act r) = trail s @ [(now, id_TenantID who, Actor who, action_string act, r)]"
  by (simp add: trail_def audit_as_def Append_fields call_of_def)

lemma resolveSnippet_audit [simp]: "resolveSnippet (audit_as s now who act r) = resolveSnippet s"
  by (intro ext) (simp add: resolveSnippet_def cong: option.case_cong)

lemma resolve_audit [simp]: "resolve_hits (audit_as s now who act r) t hs = resolve_hits s t hs"
  by (induction hs) (simp_all add: Let_def)

lemma SemanticSearch_allowed:
  "Can (id_Role who) ActionSearch \<Longrightarrow> SemanticSearch s now who text k =
     (Inr (resolve_hits s (id_TenantID who) (sv_VecSearch s (id_TenantID who) (sv_Embed s text) k)),
      audit_as s now who ActionSearch (''semantic:'' @ truncate_string text 64))"
  by (simp add: SemanticSearch_def Let_def)

lemma Can_RAG_Search: "Can r ActionRAG \<Longrightarrow> Can r ActionSearch"
  by (simp add: Can_iff_rank)

text \<open>
  C20. Role check and audit trail: a call is forbidden exactly when the role lacks the capability, and
  then it changes nothing; otherwise the audit log gains exactly the records of the call (one for
  a search, two for a question), each with the tenant and the actor of the identity, and nothing
  else of the service changes. A verifying audit log stays one.
\<close>

theorem queries_checked_and_audited:
  assumes "StructuredSearch s now who q = (r1, s1)" "SemanticSearch s now who text k = (r2, s2)"
    and "WhyDidFail u s now now2 who question k = (r3, s3)"
    and "\<forall>q. sv_Search s q \<noteq> Inl ErrForbidden"
  shows "(r1 = Inl ErrForbidden \<longleftrightarrow> \<not> Can (id_Role who) ActionSearch) \<and>
    (r2 = Inl ErrForbidden \<longleftrightarrow> \<not> Can (id_Role who) ActionSearch) \<and>
    (r3 = Inl ErrForbidden \<longleftrightarrow> \<not> Can (id_Role who) ActionRAG) \<and>
    trail s1 = trail s @ (if Can (id_Role who) ActionSearch
      then [(now, id_TenantID who, Actor who, ''search'', ''structured:'' @ q_Service q)] else []) \<and>
    trail s2 = trail s @ (if Can (id_Role who) ActionSearch
      then [(now, id_TenantID who, Actor who, ''search'', ''semantic:'' @ truncate_string text 64)] else []) \<and>
    trail s3 = trail s @ (if Can (id_Role who) ActionRAG
      then [(now, id_TenantID who, Actor who, ''rag_query'', truncate_string question 128),
            (now2, id_TenantID who, Actor who, ''search'', ''semantic:'' @ truncate_string question 64)] else []) \<and>
    (\<forall>s' \<in> {s1, s2, s3}. sv_KB s' = sv_KB s \<and> (audit_ok (sv_Audit s) \<longrightarrow> audit_ok (sv_Audit s')))"
proof -
  have ok: "audit_ok (sv_Audit s') \<Longrightarrow> audit_ok (sv_Audit (audit_as s' now who act r))" for s' now act r
    by (simp add: audit_as_def Append_ok)
  have one: "(r1 = Inl ErrForbidden \<longleftrightarrow> \<not> Can (id_Role who) ActionSearch) \<and>
      s1 = (if Can (id_Role who) ActionSearch
            then audit_as s now who ActionSearch (''structured:'' @ q_Service q) else s)"
    using assms(1,4) by (auto simp: StructuredSearch_def Let_def split: if_splits)
  have two: "(r2 = Inl ErrForbidden \<longleftrightarrow> \<not> Can (id_Role who) ActionSearch) \<and>
      s2 = (if Can (id_Role who) ActionSearch
            then audit_as s now who ActionSearch (''semantic:'' @ truncate_string text 64) else s)"
    using assms(2) by (auto simp: SemanticSearch_def Let_def split: if_splits)
  have three: "(r3 = Inl ErrForbidden \<longleftrightarrow> \<not> Can (id_Role who) ActionRAG) \<and>
      s3 = (if Can (id_Role who) ActionRAG
            then audit_as (audit_as s now who ActionRAG (truncate_string question 128)) now2 who
                   ActionSearch (''semantic:'' @ truncate_string question 64) else s)"
    using assms(3) Can_RAG_Search [of "id_Role who"]
    by (auto simp: WhyDidFail_def Let_def SemanticSearch_allowed split: if_splits prod.splits)
  from one two three show ?thesis
    by (simp add: trail_audit_as ok)
qed

subsection \<open>The service on the in-memory stores\<close>

definition mem_service ::
  "unicode_tables \<Rightarrow> ((hit \<Rightarrow> hit \<Rightarrow> bool) \<Rightarrow> hit list \<Rightarrow> hit list) \<Rightarrow> (string \<Rightarrow> f32 list) \<Rightarrow> mem_store
   \<Rightarrow> vector_store \<Rightarrow> kb_store \<Rightarrow> audit_log \<Rightarrow> f32 \<Rightarrow> service" where
  "mem_service u srt emb st v kb au ms =
     \<lparr>sv_Search = Search u st, sv_Get = Get st, sv_VecSearch = SearchVec srt v, sv_Embed = emb,
      sv_KB = kb, sv_Audit = au, sv_MinScore = ms\<rparr>"

lemma mem_service_fields [simp]:
  "sv_Search (mem_service u srt emb st v kb au ms) = Search u st"
  "sv_Get (mem_service u srt emb st v kb au ms) = Get st"
  "sv_VecSearch (mem_service u srt emb st v kb au ms) = SearchVec srt v"
  "sv_Embed (mem_service u srt emb st v kb au ms) = emb"
  "sv_KB (mem_service u srt emb st v kb au ms) = kb"
  "sv_Audit (mem_service u srt emb st v kb au ms) = au"
  "sv_MinScore (mem_service u srt emb st v kb au ms) = ms"
  by (simp_all add: mem_service_def)

lemma audit_as_mem_service [simp]:
  "audit_as (mem_service u srt emb st v kb au ms) now who act r =
   mem_service u srt emb st v kb
     (snd (Append au now (id_TenantID who) (Actor who) (action_string act) r)) ms"
  by (simp add: audit_as_def mem_service_def)

text \<open>References resolve, and only for their own tenant.\<close>

lemma resolve_log:
  assumes "store_ok st" "store_fits st" "x \<in> set (entries st)"
  shows "resolveSnippet (mem_service u srt emb st v kb au ms) t (Ref x) =
    (if TenantID (LogEntry x) = t then Message (LogEntry x) else [])"
proof -
  have get: "Get st t (ID x) = (if TenantID (LogEntry x) = t then Some x else None)"
    using Get_scoped [OF assms(1,2), of t "ID x"] ID_determines [OF assms(1,2)] assms(3)
    by (metis not_None_eq)
  show ?thesis
    by (simp add: resolveSnippet_def Ref_def parse_format_uint get has_prefix_def)
qed

lemma resolve_doc:
  assumes "kb_ok kb" "d \<in> docs_of kb"
  shows "resolveSnippet (mem_service u srt emb st v kb au ms) t (DocRef d) =
    (if doc_TenantID d = t then doc_Title d @ em_dash @ truncate_string (doc_Content d) 240 else [])"
proof -
  have "GetByRef kb t (DocRef d) = (if doc_TenantID d = t then Some d else None)"
    using GetByRef_iff [OF assms(1), of t "DocRef d"] ref_determines_doc [OF assms(1)] assms(2)
    by (metis not_None_eq)
  then show ?thesis by (simp add: resolveSnippet_def DocRef_def has_prefix_def)
qed

text \<open>
  C26. Every reference resolves to its own content, and only within its tenant: the reference of a
  stored entry gives its message (the ID printed in decimal parses back), the reference of a
  document its title and the beginning of its content; for any other tenant both give nothing.
\<close>

theorem references_resolve:
  assumes "store_ok st" "store_fits st" "kb_ok kb" "x \<in> set (entries st)" "d \<in> docs_of kb"
  shows "resolveSnippet (mem_service u srt emb st v kb au ms) t (Ref x)
      = (if TenantID (LogEntry x) = t then Message (LogEntry x) else []) \<and>
    resolveSnippet (mem_service u srt emb st v kb au ms) t (DocRef d)
      = (if doc_TenantID d = t then doc_Title d @ em_dash @ truncate_string (doc_Content d) 240 else [])"
  by (simp add: resolve_log [OF assms(1,2,4)] resolve_doc [OF assms(3,5)])

definition tenant_docs :: "string \<Rightarrow> kb_store \<Rightarrow> doc set" where
  "tenant_docs t kb = {d \<in> docs_of kb. doc_TenantID d = t}"

lemma resolveSnippet_tenant:
  assumes "store_ok st" "store_fits st" "store_ok st'" "store_fits st'" "kb_ok kb" "kb_ok kb'"
    and "tenant_entries t st = tenant_entries t st'" "tenant_docs t kb = tenant_docs t kb'"
  shows "resolveSnippet (mem_service u srt emb st v kb au ms) t r
       = resolveSnippet (mem_service u srt emb st' v' kb' au' ms') t r"
proof -
  have "GetByRef kb t r = Some d \<longleftrightarrow> GetByRef kb' t r = Some d" for d
    using assms(8) by (auto simp: GetByRef_iff [OF assms(5)] GetByRef_iff [OF assms(6)] tenant_docs_def)
  then have "GetByRef kb t r = GetByRef kb' t r" by (metis option.exhaust)
  moreover have "Get st t = Get st' t"
    using Get_tenant_entries [OF assms(1-4,7)] by blast
  ultimately show ?thesis by (simp add: resolveSnippet_def cong: option.case_cong)
qed

lemma resolve_hits_cong:
  "(\<And>r. resolveSnippet s t r = resolveSnippet s' t r) \<Longrightarrow> resolve_hits s t hs = resolve_hits s' t hs"
  by (induction hs) (simp_all add: Let_def)

text \<open>
  Two services on stores that agree on a tenant's data give an identity of that tenant the same
  answers, whatever tenant a query names, and record the same audit trail.
\<close>

lemma query_non_interference:
  assumes "store_ok st" "store_fits st" "store_ok st'" "store_fits st'" "kb_ok kb" "kb_ok kb'"
    and "tenant_entries (id_TenantID who) st = tenant_entries (id_TenantID who) st'"
    and "tenant_docs (id_TenantID who) kb = tenant_docs (id_TenantID who) kb'"
    and "part v (id_TenantID who) = part v' (id_TenantID who)"
    and s: "s = mem_service u srt emb st v kb au ms" and s': "s' = mem_service u srt emb st' v' kb' au ms"
  shows "fst (StructuredSearch s now who q) = fst (StructuredSearch s' now who q) \<and>
    fst (SemanticSearch s now who text k) = fst (SemanticSearch s' now who text k) \<and>
    fst (WhyDidFail u s now now2 who text k) = fst (WhyDidFail u s' now now2 who text k) \<and>
    sv_Audit (snd (StructuredSearch s now who q)) = sv_Audit (snd (StructuredSearch s' now who q)) \<and>
    sv_Audit (snd (SemanticSearch s now who text k)) = sv_Audit (snd (SemanticSearch s' now who text k)) \<and>
    sv_Audit (snd (WhyDidFail u s now now2 who text k)) = sv_Audit (snd (WhyDidFail u s' now now2 who text k))"
proof -
  let ?t = "id_TenantID who"
  define R where "R = resolve_hits (mem_service u srt emb st v kb au ms) ?t"
  have r: "resolve_hits (mem_service u srt emb st v kb au2 ms) ?t hs = R hs"
    "resolve_hits (mem_service u srt emb st' v' kb' au2 ms) ?t hs = R hs" for hs au2
    unfolding R_def
    by (rule resolve_hits_cong, rule resolveSnippet_tenant [OF assms(1,2,1,2,5,5) refl refl])
      (rule resolve_hits_cong, rule resolveSnippet_tenant [OF assms(1-8), symmetric])
  have vs: "SearchVec srt v ?t = SearchVec srt v' ?t"
    using assms(9) by (intro ext) (simp add: SearchVec_def)
  have search: "Search u st (q\<lparr>q_TenantID := ?t\<rparr>) = Search u st' (q\<lparr>q_TenantID := ?t\<rparr>)"
    by (rule Search_tenant_entries) (simp add: assms(7))
  show ?thesis
    unfolding s s'
    by (auto simp: StructuredSearch_def SemanticSearch_def WhyDidFail_def Let_def r vs search
        split: prod.split)
qed

subsection \<open>Grounded answers\<close>

lemma contains_append: "contains s t \<Longrightarrow> contains (a @ s @ b) t"
  unfolding contains_iff by (metis append.assoc)

lemma cite_loop_facts:
  assumes "cite_loop u i hs (body, cites, flag) = (body', cites', flag')"
  shows "cites' = cites @ map sh_Ref hs \<and> (flag' \<longleftrightarrow> flag \<or> list_ex (\<lambda>h. hasInjection u (sh_Snippet h)) hs) \<and>
    (\<exists>new. body' = body @ new \<and> (\<forall>h \<in> set hs. contains new (''['' @ sh_Ref h @ '']'')))"
  using assms
proof (induction hs arbitrary: i body cites flag)
  case (Cons h hs)
  let ?bad = "hasInjection u (sh_Snippet h)"
  let ?line = "cite_line (i + 1) h (if ?bad then suspicious_prefix @ sh_Snippet h else sh_Snippet h)"
  have "cite_loop u (i + 1) hs (body @ ?line, cites @ [sh_Ref h], flag \<or> ?bad) = (body', cites', flag')"
    using Cons.prems by (simp add: Let_def)
  from Cons.IH [OF this] obtain new where IH: "cites' = (cites @ [sh_Ref h]) @ map sh_Ref hs"
    "flag' \<longleftrightarrow> (flag \<or> ?bad) \<or> list_ex (\<lambda>h. hasInjection u (sh_Snippet h)) hs"
    "body' = (body @ ?line) @ new" "\<forall>h \<in> set hs. contains new (''['' @ sh_Ref h @ '']'')"
    by blast
  have "contains ?line (''['' @ sh_Ref h @ '']'')"
    unfolding cite_line_def contains_iff by (metis append.assoc append_Cons append_Nil)
  then have "\<forall>x \<in> set (h # hs). contains (?line @ new) (''['' @ sh_Ref x @ '']'')"
    using IH(4) contains_append [of ?line _ "[]" new] contains_append [of new _ ?line "[]"] by auto
  with IH show ?case by (intro conjI exI [of _ "?line @ new"]) auto
qed simp

lemma resolve_hits_in:
  "x \<in> set (resolve_hits s t hs) \<Longrightarrow>
   \<exists>h \<in> set hs. sh_Ref x = it_Ref (h_Item h) \<and> sh_Score x = h_Score h \<and>
     sh_Snippet x = resolveSnippet s t (it_Ref (h_Item h)) \<and> sh_Snippet x \<noteq> []"
  by (induction hs) (auto simp: Let_def split: if_splits)

lemma WhyDidFail_allowed:
  assumes "Can (id_Role who) ActionRAG"
    and "hits = resolve_hits s (id_TenantID who) (sv_VecSearch s (id_TenantID who) (sv_Embed s question) k)"
    and "relevant = filter (\<lambda>h. sv_MinScore s \<le> sh_Score h) hits"
    and "cite_loop u 0 relevant (answer_head (length relevant), [], False) = (body, cites, flag)"
  shows "fst (WhyDidFail u s now now2 who question k) = Inr
    (if relevant = []
     then \<lparr>an_Question = question, an_Text = refusal_text, an_Citations = [],
           an_Refused = True, an_Reason = refusal_reason, an_InjectionHit = False\<rparr>
     else \<lparr>an_Question = question, an_Text = body @ answer_tail, an_Citations = cites,
           an_Refused = False, an_Reason = [], an_InjectionHit = flag\<rparr>)"
proof -
  have "fst (SemanticSearch (audit_as s now who ActionRAG r) now2 who question k) = Inr hits" for r
    by (simp add: SemanticSearch_allowed [OF Can_RAG_Search [OF assms(1)]] assms(2))
  then obtain s2 where "SemanticSearch (audit_as s now who ActionRAG (truncate_string question 128)) now2 who question k
      = (Inr hits, s2)" by (metis prod.collapse)
  moreover from this have "sv_MinScore s2 = sv_MinScore s"
    by (auto simp: SemanticSearch_allowed [OF Can_RAG_Search [OF assms(1)]])
  ultimately show ?thesis
    using assms(1,4) by (simp add: WhyDidFail_def Let_def assms(3) [symmetric])
qed


subsection \<open>A concrete service\<close>

definition person :: "string \<Rightarrow> role \<Rightarrow> identity" where
  "person name r = \<lparr>Actor = name, id_TenantID = ''acme'', id_Role = r\<rparr>"

definition demo_index :: vector_store where
  "demo_index = Upsert NewMemVector (an_item ''acme'' (Ref (hd (entries demo_store))) [1])"

definition demo_service :: "mem_store \<Rightarrow> service" where
  "demo_service st = mem_service ascii_tables insertionSort (\<lambda>_. [1]) st demo_index NewKB NewAudit (3 / 20)"

lemma demo_index_part: "part demo_index ''acme'' = [an_item ''acme'' (Ref (hd (entries demo_store))) [1]]"
  by (simp add: demo_index_def Upsert_def NewMemVector_def part_def an_item_def Ref_def)

theorem queries_checked_and_audited_witness:
  "fst (WhyDidFail ascii_tables (demo_service demo_store) 3 4 (person ''carol'' Viewer) ''why?'' 5) = Inl ErrForbidden \<and>
   trail (snd (SemanticSearch (demo_service demo_store) 2 (person ''carol'' Viewer) ''db'' 5))
     = [(2, ''acme'', ''carol'', ''search'', ''semantic:db'')]"
proof -
  have "\<forall>q. sv_Search (demo_service demo_store) q \<noteq> Inl ErrForbidden"
    by (simp add: demo_service_def Search_closed_form)
  moreover have "trail (demo_service demo_store) = []"
    by (simp add: trail_def demo_service_def NewAudit_def)
  ultimately show ?thesis
    using queries_checked_and_audited [OF surjective_pairing surjective_pairing surjective_pairing,
        of "demo_service demo_store" 2 "person ''carol'' Viewer" "empty_query []" "''db''" 5 ascii_tables 4 "''why?''"]
      queries_checked_and_audited [OF surjective_pairing surjective_pairing surjective_pairing,
        of "demo_service demo_store" 3 "person ''carol'' Viewer" "empty_query []" "''why?''" 5 ascii_tables 4]
    by (simp add: person_def truncate_string_def)
qed

theorem references_resolve_witness:
  "\<exists>d k' v'. AddDoc (\<lambda>_. [1]) ''v'' (\<lambda>v it. v) (NewKB, ()) ''acme'' Runbook ''t'' ''c'' [] = (d, k', v') \<and>
     resolveSnippet (mem_service ascii_tables insertionSort (\<lambda>_. [1]) demo_store NewMemVector k' NewAudit 0) ''acme''
       (Ref (hd (entries demo_store))) = ''payment failed'' \<and>
     resolveSnippet (mem_service ascii_tables insertionSort (\<lambda>_. [1]) demo_store NewMemVector k' NewAudit 0) ''globex''
       (DocRef d) = []"
proof -
  obtain d k' v' where add: "AddDoc (\<lambda>_. [1]) ''v'' (\<lambda>v it. v) (NewKB, ()) ''acme'' Runbook ''t'' ''c'' [] = (d, k', v')"
    by (metis prod_cases3)
  have "kb_ok k'" "d \<in> docs_of k'" "doc_TenantID d = ''acme''"
    using AddDoc_effect [OF _ _ add] NewKB_ok by (simp_all add: kb_fits_def NewKB_def)
  moreover have "hd (entries demo_store) \<in> set (entries demo_store)" by (simp add: demo_store_facts(4))
  ultimately show ?thesis
    using add references_resolve [OF demo_store_facts(1,2), of k' "hd (entries demo_store)" d ascii_tables insertionSort
        "\<lambda>_. [1]" NewMemVector NewAudit 0 "''acme''"]
      references_resolve [OF demo_store_facts(1,2), of k' "hd (entries demo_store)" d ascii_tables insertionSort
        "\<lambda>_. [1]" NewMemVector NewAudit 0 "''globex''"]
    by (simp add: demo_store_facts(4) red_entry_def)
qed


end
