(* ===== verification/RateLimit.thy ===== *)
theory RateLimit
  imports LogModel
begin

text \<open>
  Package \<open>internal/ratelimit\<close>: a token bucket per key with lazy refill. The clock reading that
  \<open>Allow\<close> and \<open>Sweep\<close> take with \<open>time.Now\<close> is an argument.
\<close>

record bucket =
  tokens :: f64
  lastSeen :: instant

record limiter =
  rate :: f64
  burst :: f64
  ttl :: duration
  buckets :: "string \<rightharpoonup> bucket"

definition NewLimiter :: "f64 \<Rightarrow> int \<Rightarrow> limiter" where
  "NewLimiter ratePerSec b =
     \<lparr>rate = ratePerSec, burst = of_int b, ttl = 10 * 60 * 1000000000, buckets = Map.empty\<rparr>"

definition Allow :: "limiter \<Rightarrow> instant \<Rightarrow> string \<Rightarrow> bool \<times> limiter" where
  "Allow l now key =
     (case buckets l key of
        None \<Rightarrow>
          (True, l\<lparr>buckets := (buckets l)(key \<mapsto> \<lparr>tokens = burst l - 1, lastSeen = now\<rparr>)\<rparr>)
      | Some b \<Rightarrow>
          (let elapsed = seconds (time_sub now (lastSeen b));
               t = tokens b + elapsed * rate l;
               t = (if t > burst l then burst l else t)
           in if t \<ge> 1
              then (True, l\<lparr>buckets := (buckets l)(key \<mapsto> \<lparr>tokens = t - 1, lastSeen = now\<rparr>)\<rparr>)
              else (False, l\<lparr>buckets := (buckets l)(key \<mapsto> \<lparr>tokens = t, lastSeen = now\<rparr>)\<rparr>)))"

definition Sweep :: "limiter \<Rightarrow> instant \<Rightarrow> limiter" where
  "Sweep l now =
     (let cutoff = now - ttl l in
      l\<lparr>buckets := (\<lambda>k. case buckets l k of
                          None \<Rightarrow> None
                        | Some b \<Rightarrow> if lastSeen b < cutoff then None else Some b)\<rparr>)"

text \<open>\<open>StartSweeper\<close>: one \<open>Sweep\<close> per tick of the ticker, until the channel \<open>done\<close> closes.\<close>

datatype sweeper_event = SweepTick instant | SweepDone

fun StartSweeper :: "limiter \<Rightarrow> sweeper_event list \<Rightarrow> limiter" where
  "StartSweeper l [] = l"
| "StartSweeper l (SweepDone # es) = l"
| "StartSweeper l (SweepTick now # es) = StartSweeper (Sweep l now) es"

lemma Allow_params [simp]:
  "rate (snd (Allow l t k)) = rate l" "burst (snd (Allow l t k)) = burst l"
  "ttl (snd (Allow l t k)) = ttl l"
  by (simp_all add: Allow_def Let_def split: option.split)

lemma Allow_other [tenant_scope]: "j \<noteq> k \<Longrightarrow> buckets (snd (Allow l t k)) j = buckets l j"
  by (simp add: Allow_def Let_def split: option.split)

subsection \<open>Credit\<close>

text \<open>
  What a key may still spend at time \<open>t\<close>: its tokens after the refill that \<open>Allow\<close> would make,
  capped; a key without a bucket has the whole burst.
\<close>

definition credit :: "limiter \<Rightarrow> instant \<Rightarrow> string \<Rightarrow> f64" where
  "credit l t k =
     (case buckets l k of
        None \<Rightarrow> burst l
      | Some b \<Rightarrow> min (burst l) (tokens b + seconds (time_sub t (lastSeen b)) * rate l))"

definition bucket_ok :: "limiter \<Rightarrow> instant \<Rightarrow> string \<Rightarrow> bool" where
  "bucket_ok l t k \<longleftrightarrow>
     (\<forall>b. buckets l k = Some b \<longrightarrow> 0 \<le> tokens b \<and> tokens b \<le> burst l \<and> lastSeen b \<le> t)"

lemma credit_le_burst: "credit l t k \<le> burst l"
  by (simp add: credit_def split: option.split)

lemma Allow_charge:
  "fst (Allow l t k) \<Longrightarrow> credit (snd (Allow l t k)) t k = credit l t k - 1"
  by (auto simp: Allow_def credit_def Let_def min_def split: option.splits if_splits)

lemma Allow_deny:
  "\<not> fst (Allow l t k) \<Longrightarrow> credit (snd (Allow l t k)) t k = credit l t k"
  by (auto simp: Allow_def credit_def Let_def min_def split: option.splits if_splits)

lemma Allow_iff_credit:
  "1 \<le> burst l \<Longrightarrow> fst (Allow l t k) \<longleftrightarrow> 1 \<le> credit l t k"
  by (auto simp: Allow_def credit_def Let_def min_def split: option.splits)

lemma Allow_bucket_ok [preserves]:
  assumes "1 \<le> burst l" "0 \<le> rate l" "bucket_ok l t k"
  shows "bucket_ok (snd (Allow l t k)) t k"
proof (cases "buckets l k")
  case (Some b)
  with assms(3) have "0 \<le> tokens b" "lastSeen b \<le> t" by (auto simp: bucket_ok_def)
  then have "0 \<le> tokens b + seconds (time_sub t (lastSeen b)) * rate l"
    using assms(2) by (simp add: seconds_nonneg time_sub_nonneg)
  with assms Some show ?thesis by (auto simp: Allow_def bucket_ok_def Let_def)
qed (use assms in \<open>simp add: Allow_def bucket_ok_def\<close>)

lemma credit_nonneg:
  assumes "0 \<le> burst l" "0 \<le> rate l" "bucket_ok l t k"
  shows "0 \<le> credit l t k"
proof (cases "buckets l k")
  case (Some b)
  with assms have "0 \<le> tokens b + seconds (time_sub t (lastSeen b)) * rate l"
    by (auto simp: bucket_ok_def seconds_nonneg time_sub_nonneg)
  with Some assms(1) show ?thesis by (simp add: credit_def)
qed (use assms in \<open>simp add: credit_def\<close>)

lemma time_sub_shift: "time_sub t v \<le> time_sub u v + (t - u)" if "u \<le> t"
  using that by (auto simp: time_sub_def max_def min_def)

lemma credit_grows:
  assumes "0 \<le> rate l" "u \<le> t"
  shows "credit l t k \<le> credit l u k + rate l * seconds (t - u)"
proof (cases "buckets l k")
  case None
  then show ?thesis using assms by (simp add: credit_def seconds_nonneg)
next
  case (Some b)
  have "seconds (time_sub t (lastSeen b)) \<le> seconds (time_sub u (lastSeen b)) + seconds (t - u)"
    using time_sub_shift [OF assms(2)] by (simp add: seconds_mono flip: seconds_add)
  then have "seconds (time_sub t (lastSeen b)) * rate l
      \<le> seconds (time_sub u (lastSeen b)) * rate l + rate l * seconds (t - u)"
    using mult_right_mono [OF _ assms(1)] by (fastforce simp: algebra_simps)
  moreover have "0 \<le> rate l * seconds (t - u)" using assms by (simp add: seconds_nonneg)
  ultimately show ?thesis using Some by (simp add: credit_def min_def)
qed

subsection \<open>Runs of requests\<close>

text \<open>Requests are a key and the clock reading; the result counts those of \<open>k\<close> that passed.\<close>

fun allowed_count :: "limiter \<Rightarrow> (string \<times> instant) list \<Rightarrow> string \<Rightarrow> nat" where
  "allowed_count l [] k = 0"
| "allowed_count l ((j, t) # rs) k =
     (if j = k \<and> fst (Allow l t j) then 1 else 0) + allowed_count (snd (Allow l t j)) rs k"

lemma credit_Allow_other: "j \<noteq> k \<Longrightarrow> credit (snd (Allow l t j)) u k = credit l u k"
  by (simp add: credit_def tenant_scope split: option.split)

lemma bucket_ok_mono: "bucket_ok l t k \<Longrightarrow> t \<le> u \<Longrightarrow> bucket_ok l u k"
  by (fastforce simp: bucket_ok_def)

lemma allowed_count_credit:
  assumes "1 \<le> burst l" "0 \<le> rate l" "bucket_ok l t k"
    and "sorted (t # map snd rs)" "\<forall>r \<in> set rs. snd r \<le> u" "t \<le> u"
  shows "allowed_count l rs k \<le> credit l t k + rate l * seconds (u - t)"
  using assms
proof (induction rs arbitrary: l t)
  case Nil
  then show ?case using credit_nonneg [of l t k] by (simp add: seconds_nonneg)
next
  case (Cons r rs)
  obtain j v where r: "r = (j, v)" by fastforce
  let ?l = "snd (Allow l v j)"
  have tv: "t \<le> v" "v \<le> u" using Cons.prems(4,5) by (auto simp: r)
  have ok: "bucket_ok ?l v k"
  proof (cases "j = k")
    case True
    with Cons.prems(1-3) tv show ?thesis
      using Allow_bucket_ok bucket_ok_mono by blast
  next
    case False
    with bucket_ok_mono [OF Cons.prems(3) tv(1)] show ?thesis by (simp add: bucket_ok_def tenant_scope)
  qed
  have IH: "allowed_count ?l rs k \<le> credit ?l v k + rate l * seconds (u - v)"
    using Cons.IH [of ?l v] Cons.prems tv ok by (simp add: r)
  have charge: "(if j = k \<and> fst (Allow l v j) then 1 else 0) + credit ?l v k \<le> credit l v k"
    using Allow_charge [of l v k] Allow_deny [of l v k] credit_Allow_other [of j k l v v]
    by (cases "j = k") auto
  have "credit l v k \<le> credit l t k + rate l * seconds (v - t)"
    using Cons.prems(2) tv(1) by (rule credit_grows)
  moreover have "rate l * seconds (v - t) + rate l * seconds (u - v) = rate l * seconds (u - t)"
    by (simp flip: distrib_left seconds_add)
  moreover have "real (allowed_count l (r # rs) k)
      = (if j = k \<and> fst (Allow l v j) then 1 else 0) + real (allowed_count ?l rs k)"
    by (auto simp: r)
  ultimately show ?case using IH charge by linarith
qed



text \<open>
  C37. Sweeping is invisible where the refill over the time to live covers the burst (as with
  the default configuration): after a sweep a request of any tenant gets the same answer, and
  leaves the same bucket, as without it.
\<close>

theorem Sweep_transparent:
  assumes "burst l \<le> rate l * seconds (ttl l)" "1 \<le> burst l" "0 \<le> rate l" "ttl l < 2 ^ 63"
    and "bucket_ok l s k" "s \<le> t"
  shows "fst (Allow (Sweep l s) t k) = fst (Allow l t k) \<and>
         buckets (snd (Allow (Sweep l s) t k)) k = buckets (snd (Allow l t k)) k"
proof (cases "buckets l k")
  case (Some b)
  show ?thesis
  proof (cases "lastSeen b < s - ttl l")
    case True
    have "seconds (ttl l) \<le> seconds (time_sub t (lastSeen b))"
      using True assms(4,6) by (intro seconds_mono) (simp add: time_sub_def)
    then have "rate l * seconds (ttl l) \<le> seconds (time_sub t (lastSeen b)) * rate l"
      using assms(3) by (metis mult.commute mult_left_mono)
    moreover have "0 \<le> tokens b" using assms(5) Some by (simp add: bucket_ok_def)
    ultimately have "burst l \<le> tokens b + seconds (time_sub t (lastSeen b)) * rate l"
      using assms(1) by linarith
    with Some True assms(2) show ?thesis by (simp add: Allow_def Sweep_def Let_def)
  qed (use Some in \<open>simp add: Allow_def Sweep_def Let_def\<close>)
qed (simp add: Allow_def Sweep_def Let_def)

definition idle_limiter :: limiter where
  "idle_limiter = (NewLimiter 1000 2000)\<lparr>buckets := [''acme'' \<mapsto> \<lparr>tokens = 0, lastSeen = 0\<rparr>]\<rparr>"

theorem Sweep_transparent_witness:
  "fst (Allow (Sweep idle_limiter 700000000000) 700000000001 ''acme'')
   = fst (Allow idle_limiter 700000000001 ''acme'')"
  using Sweep_transparent [of idle_limiter 700000000000 "''acme''" 700000000001]
  by (simp add: idle_limiter_def NewLimiter_def seconds_def bucket_ok_def)

end
