(* ===== verification/Ingest.thy ===== *)
theory Ingest
  imports Buffer RateLimit Redaction
begin

text \<open>
  Package \<open>internal/ingest\<close>: the authenticator and the HTTP handler of the hot path. A request
  is its method, its Authorization header and its body (with the error that ends the reading,
  if any); a response is its status, the headers the handler sets itself and its body. Decoding
  JSON into entries is the parameter \<open>json_decoder\<close>; the clock readings are arguments. \<open>None\<close> as
  response is a panic (publishing into a closed channel).
\<close>

subsection \<open>Authentication\<close>

type_synonym authenticator = "string \<rightharpoonup> string"

definition NewAuthenticator :: authenticator where
  "NewAuthenticator = Map.empty"

definition hashToken :: "string \<Rightarrow> string" where
  "hashToken raw = hex_encode (Sum256 raw)"

definition AddToken :: "authenticator \<Rightarrow> string \<Rightarrow> string \<Rightarrow> authenticator" where
  "AddToken a rawToken tenantID = a(hashToken rawToken \<mapsto> tenantID)"

definition ConstantTimeCompare :: "string \<Rightarrow> string \<Rightarrow> int" where
  "ConstantTimeCompare x y = (if length x \<noteq> length y then 0 else if x = y then 1 else 0)"

definition Authenticate :: "authenticator \<Rightarrow> string \<Rightarrow> string option" where
  "Authenticate a rawToken =
     (if rawToken = [] then None
      else (let h = hashToken rawToken in
            case a h of
              None \<Rightarrow> None
            | Some tenant \<Rightarrow>
                if ConstantTimeCompare h (hashToken rawToken) \<noteq> 1 then None else Some tenant))"

lemma Authenticate_iff: "Authenticate a tok = Some t \<longleftrightarrow> tok \<noteq> [] \<and> a (hashToken tok) = Some t"
  by (auto simp: Authenticate_def ConstantTimeCompare_def Let_def split: option.splits)

lemma hashToken_eq_iff: "hashToken x = hashToken y \<longleftrightarrow> Sum256 x = Sum256 y"
  by (auto simp: hashToken_def dest: hex_encode_inj)

definition add_tokens :: "(string \<times> string) list \<Rightarrow> authenticator" where
  "add_tokens ps = foldl (\<lambda>a (raw, t). AddToken a raw t) NewAuthenticator ps"

lemma add_tokens_lookup:
  "foldl (\<lambda>a (raw, t). AddToken a raw t) a0 ps h = Some t \<Longrightarrow>
   a0 h = Some t \<or> (\<exists>raw. (raw, t) \<in> set ps \<and> hashToken raw = h)"
proof (induction ps arbitrary: a0)
  case (Cons p ps)
  obtain raw u where p: "p = (raw, u)" by fastforce
  from Cons.IH [of "AddToken a0 raw u"] Cons.prems show ?case
    by (auto simp: p AddToken_def split: if_splits)
qed simp

text \<open>
  A token authenticates only as the tenant it, or a token with the same SHA-256, was
  registered for: to be taken for a tenant without one of its tokens a client must find a
  second preimage. An empty token never authenticates.
\<close>

theorem Authenticate_registered:
  assumes "Authenticate (add_tokens ps) tok = Some t"
  shows "tok \<noteq> [] \<and> (\<exists>raw. (raw, t) \<in> set ps \<and> Sum256 raw = Sum256 tok)"
  using assms add_tokens_lookup [of NewAuthenticator ps "hashToken tok" t]
  by (auto simp: Authenticate_iff add_tokens_def NewAuthenticator_def hashToken_eq_iff)

theorem Authenticate_registered_witness:
  "\<exists>raw. (raw, ''acme'') \<in> set [(''dev-token'', ''acme'')] \<and> Sum256 raw = Sum256 ''dev-token''"
  using Authenticate_registered [of "[(''dev-token'', ''acme'')]" "''dev-token''" "''acme''"]
  by (simp add: Authenticate_iff add_tokens_def AddToken_def)

subsection \<open>Requests and responses\<close>

record http_request =
  rq_method :: string
  rq_authorization :: string
  rq_body :: string
  rq_body_error :: "string option"

record http_response =
  rs_status :: nat
  rs_headers :: "(string \<times> string) list"
  rs_body :: string

definition http_error :: "(string \<times> string) list \<Rightarrow> string \<Rightarrow> nat \<Rightarrow> http_response" where
  "http_error hs msg code = \<lparr>rs_status = code, rs_headers = hs, rs_body = msg @ [CHR 0x0A]\<rparr>"

definition bearerToken :: "http_request \<Rightarrow> string" where
  "bearerToken r =
     (if has_prefix (rq_authorization r) ''Bearer ''
      then trim_space (drop (length ''Bearer '') (rq_authorization r))
      else [])"

text \<open>Reading the whole body through \<open>http.MaxBytesReader\<close>: \<open>Inl\<close> is the error.\<close>

definition read_all :: "http_request \<Rightarrow> int \<Rightarrow> string + string" where
  "read_all r n =
     (if int (length (rq_body r)) > max 0 n then Inl ''http: request body too large''
      else (case rq_body_error r of Some e \<Rightarrow> Inl e | None \<Rightarrow> Inr (rq_body r)))"

record json_decoder =
  unmarshal_array :: "string \<Rightarrow> string + log_entry list"
  unmarshal_one :: "string \<Rightarrow> string + log_entry"

definition decodeEntries :: "json_decoder \<Rightarrow> string + string \<Rightarrow> string + log_entry list" where
  "decodeEntries jd body =
     (case body of
        Inl e \<Rightarrow> Inl e
      | Inr data \<Rightarrow>
          (case trim_space data of
             [] \<Rightarrow> Inl ''empty body''
           | c # cs \<Rightarrow>
               if c = CHR ''['' then unmarshal_array jd (c # cs)
               else (case unmarshal_one jd (c # cs) of Inl e \<Rightarrow> Inl e | Inr one \<Rightarrow> Inr [one])))"

subsection \<open>The handler\<close>

record ingest_handler =
  h_Auth :: authenticator
  h_Limiter :: limiter
  h_Redactor :: redactor
  h_Buffer :: buffer
  h_MaxBody :: int

text \<open>Step 5: tenant and time stamp, then redaction.\<close>

definition prepare :: "redactor \<Rightarrow> string \<Rightarrow> instant \<Rightarrow> log_entry \<Rightarrow> log_entry" where
  "prepare r tenantID now e =
     (let e1 = e\<lparr>TenantID := tenantID\<rparr>;
          e2 = (if Timestamp e1 = 0 then e1\<lparr>Timestamp := now\<rparr> else e1)
      in fst (Redact r e2))"

text \<open>The loop over the entries; \<open>now i\<close> is the clock when the \<open>i\<close>-th entry is stamped.\<close>

datatype loop_result = Finished nat nat | Invalid err | Panicked

fun ingest_loop ::
  "redactor \<Rightarrow> string \<Rightarrow> (nat \<Rightarrow> instant) \<Rightarrow> nat \<Rightarrow> log_entry list \<Rightarrow> nat \<times> nat \<Rightarrow> buffer
   \<Rightarrow> loop_result \<times> buffer" where
  "ingest_loop r t now i [] (acc, sh) b = (Finished acc sh, b)"
| "ingest_loop r t now i (e # es) (acc, sh) b =
     (case Validate e of
        Some err \<Rightarrow> (Invalid err, b)
      | None \<Rightarrow>
          (case Publish b (prepare r t (now i) e) of
             None \<Rightarrow> (Panicked, b)
           | Some (Some _, b') \<Rightarrow> ingest_loop r t now (Suc i) es (acc, sh + 1) b'
           | Some (None, b') \<Rightarrow> ingest_loop r t now (Suc i) es (acc + 1, sh) b'))"

definition accepted_body :: "nat \<Rightarrow> nat \<Rightarrow> string" where
  "accepted_body a s =
     ''{'' @ [CHR 0x22] @ ''accepted'' @ [CHR 0x22] @ '':'' @ format_uint a @ '','' @
     [CHR 0x22] @ ''shed'' @ [CHR 0x22] @ '':'' @ format_uint s @ ''}'' @ [CHR 0x0A]"

fun loop_response :: "loop_result \<Rightarrow> http_response option" where
  "loop_response Panicked = None"
| "loop_response (Invalid e) = Some (http_error [] (''bad request: '' @ err_text e) 400)"
| "loop_response (Finished a s) =
     (if a = 0 \<and> s > 0
      then Some (http_error [(''Retry-After'', ''1'')] ''overloaded: shedding load'' 503)
      else Some \<lparr>rs_status = 202, rs_headers = [(''Content-Type'', ''application/json'')],
                 rs_body = accepted_body a s\<rparr>)"

definition ServeHTTP ::
  "json_decoder \<Rightarrow> instant \<Rightarrow> (nat \<Rightarrow> instant) \<Rightarrow> ingest_handler \<Rightarrow> http_request
   \<Rightarrow> http_response option \<times> ingest_handler" where
  "ServeHTTP jd now stamps h r =
     (if rq_method r \<noteq> ''POST'' then (Some (http_error [] ''method not allowed'' 405), h)
      else (case Authenticate (h_Auth h) (bearerToken r) of
         None \<Rightarrow> (Some (http_error [] ''unauthorized'' 401), h)
       | Some tenantID \<Rightarrow>
           (let (ok, l) = Allow (h_Limiter h) now tenantID; h = h\<lparr>h_Limiter := l\<rparr> in
            if \<not> ok
            then (Some (http_error [(''Retry-After'', ''1'')] ''rate limit exceeded'' 429), h)
            else (case decodeEntries jd (read_all r (h_MaxBody h)) of
               Inl e \<Rightarrow> (Some (http_error [] (''bad request: '' @ e) 400), h)
             | Inr es \<Rightarrow>
                 (let (res, b) = ingest_loop (h_Redactor h) tenantID stamps 0 es (0, 0) (h_Buffer h)
                  in (loop_response res, h\<lparr>h_Buffer := b\<rparr>))))))"

subsection \<open>The loop\<close>

lemma prepare_fields:
  "TenantID (prepare r t now e) = t" "Redacted (prepare r t now e)"
  "Service (prepare r t now e) = Service e"
  "Message (prepare r t now e) = fst (redactString r (Message e))" "Level (prepare r t now e) = Level e"
  by (simp_all add: prepare_def Redact_def split_beta Let_def)

text \<open>What the loop puts into the buffer: prepared entries of the request, in order.\<close>

lemma ingest_loop_published:
  assumes "ingest_loop r t now i es (acc, sh) b = (res, b')"
  shows "\<exists>new. ch b' = ch b @ new \<and> ch_closed b' = ch_closed b \<and>
      (\<forall>x \<in> set new. \<exists>e \<in> set es. \<exists>j. Validate e = None \<and> x = prepare r t (now j) e) \<and>
      (\<forall>a s. res = Finished a s \<longrightarrow> a = acc + length new \<and> a + s = acc + sh + length es)"
  using assms
proof (induction es arbitrary: i acc sh b)
  case (Cons e es)
  show ?case
  proof (cases "Validate e")
    case (Some err)
    with Cons.prems show ?thesis by (intro exI [of _ "[]"]) auto
  next
    case valid: None
    show ?thesis
    proof (cases "Publish b (prepare r t (now i) e)")
      case None
      with valid Cons.prems show ?thesis by (intro exI [of _ "[]"]) auto
    next
      case (Some rb)
      obtain x b1 where rb: "Publish b (prepare r t (now i) e) = Some (x, b1)"
        using Some by (cases rb) auto
      then show ?thesis
      proof (cases rule: Publish_cases)
        case 1
        with Cons.prems valid rb have "ingest_loop r t now (Suc i) es (acc + 1, sh) b1 = (res, b')"
          by simp
        from Cons.IH [OF this] obtain new where new: "ch b' = ch b1 @ new" "ch_closed b' = ch_closed b1"
          "\<forall>x \<in> set new. \<exists>e \<in> set es. \<exists>j. Validate e = None \<and> x = prepare r t (now j) e"
          "\<forall>a s. res = Finished a s \<longrightarrow> a = acc + 1 + length new \<and> a + s = acc + 1 + sh + length es"
          by blast
        with 1 valid show ?thesis
          by (intro exI [of _ "prepare r t (now i) e # new"]) auto
      next
        case 2
        with Cons.prems valid rb have "ingest_loop r t now (Suc i) es (acc, sh + 1) b1 = (res, b')"
          by simp
        from Cons.IH [OF this] 2 obtain new where new: "ch b' = ch b @ new" "ch_closed b' = ch_closed b"
          "\<forall>x \<in> set new. \<exists>e \<in> set es. \<exists>j. Validate e = None \<and> x = prepare r t (now j) e"
          "\<forall>a s. res = Finished a s \<longrightarrow> a = acc + length new \<and> a + s = acc + (sh + 1) + length es"
          by auto
        then show ?thesis by (intro exI [of _ new]) auto
      qed
    qed
  qed
qed (intro exI [of _ "[]"], auto)

lemma ingest_loop_all_valid:
  assumes "list_all (\<lambda>e. Validate e = None) es" "\<not> ch_closed b" "length (ch b) + length es \<le> ch_cap b"
  shows "\<exists>b' j. ingest_loop r t now i (es @ fs) (acc, sh) b = ingest_loop r t now j fs (acc + length es, sh) b' \<and>
         length (ch b') = length (ch b) + length es \<and> \<not> ch_closed b' \<and> ch_cap b' = ch_cap b"
  using assms
proof (induction es arbitrary: i acc b)
  case (Cons e es)
  let ?b = "b\<lparr>ch := ch b @ [prepare r t (now i) e], accepted := accepted b + 1\<rparr>"
  have "Publish b (prepare r t (now i) e) = Some (None, ?b)"
    using Cons.prems by (simp add: Publish_def)
  with Cons.prems Cons.IH [of ?b "Suc i" "acc + 1"] show ?case by auto
qed auto

subsection \<open>What the handler guarantees\<close>

text \<open>The request that got through authentication, rate limit and decoding.\<close>

definition admitted ::
  "json_decoder \<Rightarrow> instant \<Rightarrow> ingest_handler \<Rightarrow> http_request \<Rightarrow> string \<Rightarrow> log_entry list \<Rightarrow> bool" where
  "admitted jd now h r t es \<longleftrightarrow>
     rq_method r = ''POST'' \<and> Authenticate (h_Auth h) (bearerToken r) = Some t \<and>
     fst (Allow (h_Limiter h) now t) \<and> decodeEntries jd (read_all r (h_MaxBody h)) = Inr es"

lemma ServeHTTP_admitted:
  "admitted jd now h r t es \<Longrightarrow>
   ServeHTTP jd now stamps h r =
     (case ingest_loop (h_Redactor h) t stamps 0 es (0, 0) (h_Buffer h) of
        (res, b) \<Rightarrow> (loop_response res,
                    h\<lparr>h_Limiter := snd (Allow (h_Limiter h) now t), h_Buffer := b\<rparr>))"
  by (simp add: ServeHTTP_def admitted_def split_beta Let_def)

lemma ServeHTTP_rejected:
  assumes "\<nexists>t es. admitted jd now h r t es"
  shows "h_Buffer (snd (ServeHTTP jd now stamps h r)) = h_Buffer h \<and>
         (\<exists>s. fst (ServeHTTP jd now stamps h r) = Some s \<and> rs_status s \<in> {400, 401, 405, 429})"
  using assms
  by (auto simp: ServeHTTP_def admitted_def split_beta Let_def http_error_def
      split: option.splits sum.splits)

text \<open>
  C4. Only safe entries reach the buffer: whatever the request and whatever its body claims,
  a request only appends to the queue, and each entry it appends is flagged as redacted, has
  a redacted message, carries the tenant that the bearer token authenticates as (never one from
  the body) and names a service.
\<close>

theorem ServeHTTP_publishes_safe:
  assumes "ServeHTTP jd now stamps h r = (resp, h')"
  shows "\<exists>new. ch (h_Buffer h') = ch (h_Buffer h) @ new \<and>
    (\<forall>x \<in> set new. Redacted x \<and> Authenticate (h_Auth h) (bearerToken r) = Some (TenantID x) \<and>
       Service x \<noteq> [] \<and> (\<exists>m. m \<noteq> [] \<and> Message x = fst (redactString (h_Redactor h) m)))"
proof (cases "\<exists>t es. admitted jd now h r t es")
  case True
  then obtain t es where a: "admitted jd now h r t es" by blast
  obtain res b where l: "ingest_loop (h_Redactor h) t stamps 0 es (0, 0) (h_Buffer h) = (res, b)"
    by fastforce
  with assms ServeHTTP_admitted [OF a] have b: "h_Buffer h' = b" by auto
  from ingest_loop_published [OF l] obtain new where new: "ch b = ch (h_Buffer h) @ new"
    "\<forall>x \<in> set new. \<exists>e \<in> set es. \<exists>j. Validate e = None \<and> x = prepare (h_Redactor h) t (stamps j) e"
    by blast
  have "Redacted x \<and> Authenticate (h_Auth h) (bearerToken r) = Some (TenantID x) \<and>
       Service x \<noteq> [] \<and> (\<exists>m. m \<noteq> [] \<and> Message x = fst (redactString (h_Redactor h) m))"
    if x: "x \<in> set new" for x
  proof -
    from new(2) x obtain e j where "Validate e = None" "x = prepare (h_Redactor h) t (stamps j) e"
      by blast
    with a show ?thesis by (auto simp: Validate_None prepare_fields admitted_def)
  qed
  with new(1) b show ?thesis by blast
next
  case False
  with ServeHTTP_rejected [of jd now h r stamps] assms show ?thesis by (intro exI [of _ "[]"]) simp
qed

text \<open>
  C34. The answer tells what happened: 202 means the body was decoded, and reports the numbers of
  entries accepted (exactly those now in the queue) and shed, which add up to all of them, not
  all shed; 503 means that there were entries and all were shed; and 401, 405 and 429 leave the
  buffer as it was.
\<close>

theorem ServeHTTP_status:
  assumes "ServeHTTP jd now stamps h r = (Some s, h')"
  shows "(rs_status s = 202 \<longrightarrow>
           (\<exists>es a k. decodeEntries jd (read_all r (h_MaxBody h)) = Inr es \<and> a + k = length es \<and>
              rs_body s = accepted_body a k \<and> (a = 0 \<longrightarrow> k = 0) \<and>
              length (ch (h_Buffer h')) = length (ch (h_Buffer h)) + a)) \<and>
         (rs_status s = 503 \<longrightarrow> ch (h_Buffer h') = ch (h_Buffer h) \<and>
           (\<exists>es. decodeEntries jd (read_all r (h_MaxBody h)) = Inr es \<and> es \<noteq> [])) \<and>
         (rs_status s \<in> {401, 405, 429} \<longrightarrow> h_Buffer h' = h_Buffer h)"
proof (cases "\<exists>t es. admitted jd now h r t es")
  case True
  then obtain t es where a: "admitted jd now h r t es" by blast
  obtain res b where l: "ingest_loop (h_Redactor h) t stamps 0 es (0, 0) (h_Buffer h) = (res, b)"
    by fastforce
  with assms ServeHTTP_admitted [OF a] have b: "h_Buffer h' = b" and s: "loop_response res = Some s"
    by auto
  from ingest_loop_published [OF l] obtain new where new: "ch b = ch (h_Buffer h) @ new"
    "\<forall>a s. res = Finished a s \<longrightarrow> a = length new \<and> a + s = length es"
    by auto
  have es: "decodeEntries jd (read_all r (h_MaxBody h)) = Inr es" using a by (simp add: admitted_def)
  show ?thesis
  proof (cases res)
    case (Finished n k)
    with new(2) have nk: "n = length new" "n + k = length es" by simp_all
    show ?thesis
    proof (cases "n = 0 \<and> 0 < k")
      case True
      with Finished s have "rs_status s = 503" by (auto simp: http_error_def)
      with True nk new(1) es b show ?thesis by auto
    next
      case False
      with Finished s have "rs_status s = 202" "rs_body s = accepted_body n k" by auto
      with False nk new(1) es b show ?thesis by auto
    qed
  qed (use s in \<open>auto simp: http_error_def\<close>)
next
  case False
  with ServeHTTP_rejected [of jd now h r stamps] assms show ?thesis by auto
qed

text \<open>
  C35. A request whose batch has an invalid entry behind valid ones answers 400 although the valid
  entries in front of it are already queued: the client is told "bad request", and a retry of
  the corrected batch stores them a second time. (With room in the buffer; the loop validates
  and publishes entry by entry.)
\<close>

theorem bad_request_after_publish:
  assumes "admitted jd now h r t (es @ bad # rest)" "list_all (\<lambda>e. Validate e = None) es"
    and "Validate bad = Some e" "\<not> ch_closed (h_Buffer h)"
    and "length (ch (h_Buffer h)) + length es \<le> ch_cap (h_Buffer h)"
  shows "fst (ServeHTTP jd now stamps h r) = Some (http_error [] (''bad request: '' @ err_text e) 400) \<and>
         length (ch (h_Buffer (snd (ServeHTTP jd now stamps h r)))) = length (ch (h_Buffer h)) + length es"
  using ServeHTTP_admitted [OF assms(1), of stamps] assms(3)
    ingest_loop_all_valid [OF assms(2,4,5), of "h_Redactor h" t stamps 0 "bad # rest" 0 0]
  by auto

text \<open>
  The rate limiter is charged once per request: an authenticated POST takes one token of its
  tenant whatever the number of entries in its body, and any other request takes none. So the
  configured rate limits requests, not events.
\<close>

theorem limiter_charged_per_request:
  "h_Limiter (snd (ServeHTTP jd now stamps h r)) =
     (if rq_method r = ''POST''
      then (case Authenticate (h_Auth h) (bearerToken r) of
              None \<Rightarrow> h_Limiter h
            | Some t \<Rightarrow> snd (Allow (h_Limiter h) now t))
      else h_Limiter h)"
  by (simp add: ServeHTTP_def split_beta Let_def split: option.split sum.split)

subsection \<open>A concrete request\<close>

definition demo_handler :: ingest_handler where
  "demo_handler =
     \<lparr>h_Auth = add_tokens [(''dev'', ''acme'')], h_Limiter = NewLimiter 10 5, h_Redactor = NewRedactor,
      h_Buffer = \<lparr>ch = [], ch_cap = 4, ch_closed = False, accepted = 0, shed = 0\<rparr>, h_MaxBody = 100\<rparr>"

definition web_entry :: "string \<Rightarrow> log_entry" where
  "web_entry m = zero_entry\<lparr>TenantID := ''globex'', Service := ''web'', Message := m\<rparr>"

definition demo_request :: http_request where
  "demo_request = \<lparr>rq_method = ''POST'', rq_authorization = ''Bearer dev'', rq_body = ''[]'',
                   rq_body_error = None\<rparr>"

text \<open>The decoder that reads every body as the given entries.\<close>

definition reads_as :: "log_entry list \<Rightarrow> json_decoder" where
  "reads_as es = \<lparr>unmarshal_array = \<lambda>_. Inr es, unmarshal_one = \<lambda>_. Inl ''unused''\<rparr>"

lemma demo_handler_simps [simp]:
  "h_MaxBody demo_handler = 100" "h_Limiter demo_handler = NewLimiter 10 5"
  "h_Auth demo_handler = add_tokens [(''dev'', ''acme'')]"
  "h_Buffer demo_handler = \<lparr>ch = [], ch_cap = 4, ch_closed = False, accepted = 0, shed = 0\<rparr>"
  by (simp_all add: demo_handler_def)

lemma demo_admitted: "admitted (reads_as es) 0 demo_handler demo_request ''acme'' es"
proof -
  have t: "trim_space ''[]'' = ''[]''" "trim_space ''dev'' = ''dev''"
    by (rule trim_space_inner; simp add: in_range_def)+
  then have r: "bearerToken demo_request = ''dev''" "rq_method demo_request = ''POST''"
    "read_all demo_request 100 = Inr ''[]''"
    by (simp_all add: demo_request_def bearerToken_def has_prefix_def read_all_def)
  have "fst (Allow (NewLimiter 10 5) 0 ''acme'')"
    by (simp add: Allow_def NewLimiter_def)
  moreover have "Authenticate (add_tokens [(''dev'', ''acme'')]) ''dev'' = Some ''acme''"
    by (simp add: Authenticate_iff add_tokens_def AddToken_def)
  moreover have "decodeEntries (reads_as es) (Inr ''[]'') = Inr es"
    by (simp add: decodeEntries_def t reads_as_def)
  ultimately show ?thesis
    unfolding admitted_def demo_handler_simps r by blast
qed

lemma demo_run:
  "fst (ServeHTTP (reads_as [web_entry ''m'']) 0 stamps demo_handler demo_request)
     = Some \<lparr>rs_status = 202, rs_headers = [(''Content-Type'', ''application/json'')],
             rs_body = accepted_body 1 0\<rparr>"
  "length (ch (h_Buffer (snd (ServeHTTP (reads_as [web_entry ''m'']) 0 stamps demo_handler demo_request)))) = 1"
proof -
  have "Validate (web_entry ''m'') = None" by (simp add: web_entry_def Validate_def)
  then show "fst (ServeHTTP (reads_as [web_entry ''m'']) 0 stamps demo_handler demo_request)
     = Some \<lparr>rs_status = 202, rs_headers = [(''Content-Type'', ''application/json'')],
             rs_body = accepted_body 1 0\<rparr>"
  "length (ch (h_Buffer (snd (ServeHTTP (reads_as [web_entry ''m'']) 0 stamps demo_handler demo_request)))) = 1"
    unfolding ServeHTTP_admitted [OF demo_admitted] by (simp_all add: Publish_def)
qed

theorem ServeHTTP_publishes_safe_witness:
  "\<exists>x. ch (h_Buffer (snd (ServeHTTP (reads_as [web_entry ''m'']) 0 (\<lambda>_. 5) demo_handler demo_request))) = [x] \<and>
       Redacted x \<and> TenantID x = ''acme''"
proof -
  have "Authenticate (h_Auth demo_handler) (bearerToken demo_request) = Some ''acme''"
    using demo_admitted by (simp add: admitted_def)
  moreover have "ch (h_Buffer demo_handler) = []" by simp
  ultimately show ?thesis
    using ServeHTTP_publishes_safe [OF surjective_pairing, of "reads_as [web_entry ''m'']" 0 "\<lambda>_. 5" demo_handler demo_request]
      demo_run(2) [of "\<lambda>_. 5"]
    by (auto simp: length_Suc_conv)
qed

theorem ServeHTTP_status_witness:
  "\<exists>s h' es a k. ServeHTTP (reads_as [web_entry ''m'']) 0 (\<lambda>_. 5) demo_handler demo_request = (Some s, h') \<and>
     rs_status s = 202 \<and> rs_body s = accepted_body a k \<and> a + k = 1"
proof -
  obtain s h' where run: "ServeHTTP (reads_as [web_entry ''m'']) 0 (\<lambda>_. 5) demo_handler demo_request = (Some s, h')"
    and s: "rs_status s = 202"
    using demo_run(1) [of "\<lambda>_. 5"]
    by (cases "ServeHTTP (reads_as [web_entry ''m'']) 0 (\<lambda>_. 5) demo_handler demo_request") auto
  moreover have "decodeEntries (reads_as [web_entry ''m'']) (read_all demo_request (h_MaxBody demo_handler)) = Inr [web_entry ''m'']"
    using demo_admitted by (simp add: admitted_def)
  ultimately show ?thesis using ServeHTTP_status [OF run] by fastforce
qed

theorem bad_request_after_publish_witness:
  "length (ch (h_Buffer (snd (ServeHTTP (reads_as [web_entry ''m'', zero_entry]) 0 (\<lambda>_. 5) demo_handler demo_request)))) = 1"
  using bad_request_after_publish [of "reads_as [web_entry ''m'', zero_entry]" 0 demo_handler demo_request "''acme''"
      "[web_entry ''m'']" zero_entry "[]" "ErrMissingField ''service''" "\<lambda>_. 5"]
    demo_admitted [of "[web_entry ''m'', zero_entry]"]
  by (simp add: demo_handler_def web_entry_def Validate_def zero_entry_def)

end
