(* ===== verification/QueryHandler.thy ===== *)
theory QueryHandler
  imports Query Ingest Anomaly
begin

text \<open>
  \<open>internal/query/handler.go\<close>: the HTTP surface of the query layer. Decoding the request bodies and
  encoding the results as JSON are the parameters \<open>query_decoder\<close> (given the bytes that can be read
  and the error that follows them, as the decoder reads from a limited stream) and
  \<open>query_encoder\<close>; the clock readings are arguments.
\<close>

record query_handler =
  qh_Svc :: service
  qh_Feed :: feed
  qh_Resolve :: "string \<Rightarrow> identity option"
  qh_latencies :: "(string \<times> f64) list"

text \<open>\<open>qh_latencies\<close> records the calls of the hook \<open>OnLatency\<close> (unset, it ignores them).\<close>

record search_body =
  sb_Service :: string
  sb_Level :: string
  sb_Contains :: string
  sb_Limit :: int

type_synonym body_stream = "string \<times> string option"

record query_decoder =
  dec_search :: "body_stream \<Rightarrow> string + search_body"
  dec_semantic :: "body_stream \<Rightarrow> string + string \<times> int"
  dec_why :: "body_stream \<Rightarrow> string + string \<times> int"

record query_encoder =
  enc_entries :: "stored_entry list \<Rightarrow> string"
  enc_hits :: "semantic_hit list \<Rightarrow> string"
  enc_answer :: "answer \<Rightarrow> string"
  enc_events :: "event list \<Rightarrow> string"

definition bearer :: "http_request \<Rightarrow> string" where
  "bearer r =
     (if has_prefix (rq_authorization r) ''Bearer ''
      then trim_space (drop (length ''Bearer '') (rq_authorization r))
      else [])"

definition auth :: "query_handler \<Rightarrow> http_request \<Rightarrow> http_response + identity" where
  "auth h r =
     (case qh_Resolve h (bearer r) of
        None \<Rightarrow> Inl (http_error [] ''unauthorized'' 401)
      | Some who \<Rightarrow> Inr who)"

text \<open>What can be read through \<open>http.MaxBytesReader\<close>.\<close>

definition max_bytes :: "http_request \<Rightarrow> nat \<Rightarrow> body_stream" where
  "max_bytes r n =
     (if length (rq_body r) > n then (take n (rq_body r), Some ''http: request body too large'')
      else (rq_body r, rq_body_error r))"

definition decode :: "(body_stream \<Rightarrow> string + 'b) \<Rightarrow> http_request \<Rightarrow> http_response + 'b" where
  "decode dec r =
     (if rq_method r \<noteq> ''POST'' then Inl (http_error [] ''method not allowed'' 405)
      else (case dec (max_bytes r (2 ^ 16)) of
              Inl e \<Rightarrow> Inl (http_error [] (''bad request: '' @ e) 400)
            | Inr b \<Rightarrow> Inr b))"

definition respond :: "('b \<Rightarrow> string) \<Rightarrow> err + 'b \<Rightarrow> http_response" where
  "respond enc res =
     (case res of
        Inl e \<Rightarrow> if e = ErrForbidden then http_error [] ''forbidden'' 403
                 else http_error [] ''internal error'' 500
      | Inr d \<Rightarrow> \<lparr>rs_status = 200, rs_headers = [(''Content-Type'', ''application/json'')],
                 rs_body = enc d\<rparr>)"

definition handleSearch ::
  "query_decoder \<Rightarrow> query_encoder \<Rightarrow> instant \<Rightarrow> query_handler \<Rightarrow> http_request \<Rightarrow> http_response \<times> query_handler" where
  "handleSearch dc ec now h r =
     (case auth h r of
        Inl resp \<Rightarrow> (resp, h)
      | Inr who \<Rightarrow>
          (case decode (dec_search dc) r of
             Inl resp \<Rightarrow> (resp, h)
           | Inr b \<Rightarrow>
               (let (res, s) = StructuredSearch (qh_Svc h) now who
                      \<lparr>q_TenantID = [], q_Service = sb_Service b, q_Level = sb_Level b,
                       q_Contains = sb_Contains b, q_Since = 0, q_Until = 0, q_Limit = sb_Limit b\<rparr>
                in (respond (enc_entries ec) res, h\<lparr>qh_Svc := s\<rparr>))))"

definition handleSemantic ::
  "query_decoder \<Rightarrow> query_encoder \<Rightarrow> instant \<Rightarrow> query_handler \<Rightarrow> http_request \<Rightarrow> http_response \<times> query_handler" where
  "handleSemantic dc ec now h r =
     (case auth h r of
        Inl resp \<Rightarrow> (resp, h)
      | Inr who \<Rightarrow>
          (case decode (dec_semantic dc) r of
             Inl resp \<Rightarrow> (resp, h)
           | Inr (q, k) \<Rightarrow>
               (let (res, s) = SemanticSearch (qh_Svc h) now who q k
                in (respond (enc_hits ec) res, h\<lparr>qh_Svc := s\<rparr>))))"

definition handleWhy ::
  "unicode_tables \<Rightarrow> query_decoder \<Rightarrow> query_encoder \<Rightarrow> instant \<Rightarrow> instant \<Rightarrow> query_handler \<Rightarrow> http_request
   \<Rightarrow> http_response \<times> query_handler" where
  "handleWhy u dc ec now now2 h r =
     (case auth h r of
        Inl resp \<Rightarrow> (resp, h)
      | Inr who \<Rightarrow>
          (case decode (dec_why dc) r of
             Inl resp \<Rightarrow> (resp, h)
           | Inr (q, k) \<Rightarrow>
               (let (res, s) = WhyDidFail u (qh_Svc h) now now2 who q k
                in (respond (enc_answer ec) res, h\<lparr>qh_Svc := s\<rparr>))))"

definition handleAnomalies ::
  "query_encoder \<Rightarrow> query_handler \<Rightarrow> http_request \<Rightarrow> http_response \<times> query_handler" where
  "handleAnomalies ec h r =
     (case auth h r of
        Inl resp \<Rightarrow> (resp, h)
      | Inr who \<Rightarrow>
          if \<not> Can (id_Role who) ActionAnomaly then (http_error [] ''forbidden'' 403, h)
          else (respond (enc_events ec) (Inr (Recent (qh_Feed h) (id_TenantID who) 50)), h))"

text \<open>\<open>Register\<close> and \<open>timed\<close>: the four routes, each reporting its latency when it is done.\<close>

datatype endpoint = SearchEP | SemanticEP | WhyEP | AnomaliesEP

definition route :: "string \<Rightarrow> endpoint option" where
  "route path =
     (if path = ''/v1/search'' then Some SearchEP
      else if path = ''/v1/semantic'' then Some SemanticEP
      else if path = ''/v1/why'' then Some WhyEP
      else if path = ''/v1/anomalies'' then Some AnomaliesEP
      else None)"

fun endpoint_name :: "endpoint \<Rightarrow> string" where
  "endpoint_name SearchEP = ''search''"
| "endpoint_name SemanticEP = ''semantic''"
| "endpoint_name WhyEP = ''why''"
| "endpoint_name AnomaliesEP = ''anomalies''"

fun endpoint_handler ::
  "unicode_tables \<Rightarrow> query_decoder \<Rightarrow> query_encoder \<Rightarrow> instant \<Rightarrow> instant \<Rightarrow> endpoint \<Rightarrow> query_handler
   \<Rightarrow> http_request \<Rightarrow> http_response \<times> query_handler" where
  "endpoint_handler u dc ec now now2 SearchEP = handleSearch dc ec now"
| "endpoint_handler u dc ec now now2 SemanticEP = handleSemantic dc ec now"
| "endpoint_handler u dc ec now now2 WhyEP = handleWhy u dc ec now now2"
| "endpoint_handler u dc ec now now2 AnomaliesEP = handleAnomalies ec"

text \<open>\<open>took\<close> is the duration \<open>time.Since\<close> measures, in nanoseconds.\<close>

definition timed ::
  "string \<Rightarrow> duration \<Rightarrow> (query_handler \<Rightarrow> http_request \<Rightarrow> http_response \<times> query_handler)
   \<Rightarrow> query_handler \<Rightarrow> http_request \<Rightarrow> http_response \<times> query_handler" where
  "timed name took fn h r =
     (case fn h r of
        (resp, h') \<Rightarrow> (resp, h'\<lparr>qh_latencies := qh_latencies h' @ [(name, of_int (took div 1000) / 1000)]\<rparr>))"

definition query_serve ::
  "unicode_tables \<Rightarrow> query_decoder \<Rightarrow> query_encoder \<Rightarrow> instant \<Rightarrow> instant \<Rightarrow> duration \<Rightarrow> endpoint
   \<Rightarrow> query_handler \<Rightarrow> http_request \<Rightarrow> http_response \<times> query_handler" where
  "query_serve u dc ec now now2 took ep =
     timed (endpoint_name ep) took (endpoint_handler u dc ec now now2 ep)"

subsection \<open>Access\<close>

fun required_action :: "endpoint \<Rightarrow> action" where
  "required_action SearchEP = ActionSearch"
| "required_action SemanticEP = ActionSearch"
| "required_action WhyEP = ActionRAG"
| "required_action AnomaliesEP = ActionAnomaly"

lemmas handler_defs = handleSearch_def handleSemantic_def handleWhy_def handleAnomalies_def auth_def
  decode_def respond_def http_error_def

lemma denied_unchanged:
  "\<not> Can (id_Role who) ActionSearch \<Longrightarrow> StructuredSearch s now who q = (Inl ErrForbidden, s)"
  "\<not> Can (id_Role who) ActionSearch \<Longrightarrow> SemanticSearch s now who tx k = (Inl ErrForbidden, s)"
  "\<not> Can (id_Role who) ActionRAG \<Longrightarrow> WhyDidFail u s now now2 who tx k = (Inl ErrForbidden, s)"
  by (simp_all add: StructuredSearch_def SemanticSearch_def WhyDidFail_def)

lemma endpoint_no_identity:
  "qh_Resolve h (bearer r) = None \<Longrightarrow>
   endpoint_handler u dc ec now now2 ep h r = (http_error [] ''unauthorized'' 401, h)"
  by (cases ep) (simp_all add: handler_defs)

lemma endpoint_denied:
  assumes "qh_Resolve h (bearer r) = Some who" "\<not> Can (id_Role who) (required_action ep)"
  shows "snd (endpoint_handler u dc ec now now2 ep h r) = h \<and>
         rs_status (fst (endpoint_handler u dc ec now now2 ep h r)) \<in> {400, 403, 405}"
  using assms by (cases ep) (auto simp: handler_defs denied_unchanged split: sum.split)

lemma endpoint_frame: "qh_Feed (snd (endpoint_handler u dc ec now now2 ep h r)) = qh_Feed h \<and>
    qh_Resolve (snd (endpoint_handler u dc ec now now2 ep h r)) = qh_Resolve h \<and>
    qh_latencies (snd (endpoint_handler u dc ec now now2 ep h r)) = qh_latencies h"
  by (cases ep) (auto simp: handler_defs split: sum.split option.split prod.split)

lemma audit_as_ok: "audit_ok (sv_Audit s) \<Longrightarrow> audit_ok (sv_Audit (audit_as s now who act r))"
  by (simp add: audit_as_def Append_ok)

lemma endpoint_audit_ok:
  assumes "audit_ok (sv_Audit (qh_Svc h))"
  shows "audit_ok (sv_Audit (qh_Svc (snd (endpoint_handler u dc ec now now2 ep h r))))"
  using assms
  by (cases ep) (auto simp: handler_defs StructuredSearch_def SemanticSearch_def WhyDidFail_def Let_def
      audit_as_ok split: sum.split option.split prod.split if_splits)

text \<open>
  C19. Nothing is answered without permission: a request without a known token gets 401, and one whose
  role lacks the capability of the endpoint an error (403, or 400 or 405 when its body or method
  is wrong); neither changes the service, so neither reads data nor writes the audit log. Only
  identities with the capability get a 200. No request changes the anomaly feed, and each reports
  exactly one latency.
\<close>

theorem endpoints_need_permission:
  assumes "query_serve u dc ec now now2 took ep h r = (resp, h')"
  shows "(qh_Resolve h (bearer r) = None \<longrightarrow> rs_status resp = 401 \<and> qh_Svc h' = qh_Svc h) \<and>
    (\<forall>who. qh_Resolve h (bearer r) = Some who \<and> \<not> Can (id_Role who) (required_action ep) \<longrightarrow>
       rs_status resp \<in> {400, 403, 405} \<and> qh_Svc h' = qh_Svc h) \<and>
    (rs_status resp = 200 \<longrightarrow>
       (\<exists>who. qh_Resolve h (bearer r) = Some who \<and> Can (id_Role who) (required_action ep))) \<and>
    qh_Feed h' = qh_Feed h \<and>
    qh_latencies h' = qh_latencies h @ [(endpoint_name ep, of_int (took div 1000) / 1000)]"
proof -
  let ?run = "endpoint_handler u dc ec now now2 ep h r"
  have r: "resp = fst ?run" "qh_Svc h' = qh_Svc (snd ?run)" "qh_Feed h' = qh_Feed (snd ?run)"
    "qh_latencies h' = qh_latencies h @ [(endpoint_name ep, of_int (took div 1000) / 1000)]"
    using assms endpoint_frame [of u dc ec now now2 ep h r] by (auto simp: query_serve_def timed_def split: prod.splits)
  have none: "qh_Resolve h (bearer r) = None \<Longrightarrow> rs_status (fst ?run) = 401 \<and> qh_Svc (snd ?run) = qh_Svc h"
    using endpoint_no_identity [of h r u dc ec now now2 ep] by (simp add: http_error_def)
  have denied: "rs_status (fst ?run) \<in> {400, 403, 405} \<and> qh_Svc (snd ?run) = qh_Svc h"
    if "qh_Resolve h (bearer r) = Some who" "\<not> Can (id_Role who) (required_action ep)" for who
    using endpoint_denied [OF that, of u dc ec now now2] by simp
  have "\<exists>who. qh_Resolve h (bearer r) = Some who \<and> Can (id_Role who) (required_action ep)"
    if ok: "rs_status (fst ?run) = 200"
  proof (cases "qh_Resolve h (bearer r)")
    case None
    with none ok show ?thesis by simp
  next
    case (Some who)
    with denied [of who] ok show ?thesis by auto
  qed
  with r none denied endpoint_frame [of u dc ec now now2 ep h r] show ?thesis by metis
qed

subsection \<open>Isolation of the HTTP surface\<close>

definition feed_of :: "string \<Rightarrow> feed \<Rightarrow> event list" where
  "feed_of t f = filter (\<lambda>e. ev_TenantID e = t) (f_events f)"

lemma Recent_feed_of: "Recent f t n = take (if n \<le> 0 then 50 else nat n) (rev (feed_of t f))"
  by (auto simp: Recent_def scan_back_spec feed_of_def rev_filter Let_def)

text \<open>
  C3. Tenant isolation end to end: two deployments whose log stores, indexes, knowledge bases and
  anomaly feeds agree on the data of a tenant give every request of an identity of that tenant,
  to any endpoint and with any body, the same response, and record the same audit trail for it,
  however they differ on other tenants.
\<close>

theorem http_non_interference:
  assumes "store_ok st" "store_fits st" "store_ok st'" "store_fits st'" "kb_ok kb" "kb_ok kb'"
    and "tenant_entries (id_TenantID who) st = tenant_entries (id_TenantID who) st'"
    and "tenant_docs (id_TenantID who) kb = tenant_docs (id_TenantID who) kb'"
    and "part v (id_TenantID who) = part v' (id_TenantID who)"
    and "feed_of (id_TenantID who) (qh_Feed h) = feed_of (id_TenantID who) (qh_Feed h')"
    and "qh_Svc h = mem_service u srt emb st v kb au ms" "qh_Svc h' = mem_service u srt emb st' v' kb' au ms"
    and "qh_Resolve h (bearer r) = Some who" "qh_Resolve h' (bearer r) = Some who"
  shows "fst (query_serve u dc ec now now2 took ep h r) = fst (query_serve u dc ec now now2 took ep h' r) \<and>
    sv_Audit (qh_Svc (snd (query_serve u dc ec now now2 took ep h r)))
      = sv_Audit (qh_Svc (snd (query_serve u dc ec now now2 took ep h' r)))"
proof -
  note same = query_non_interference [OF assms(1-9,11,12)]
  have feed: "Recent (qh_Feed h) (id_TenantID who) 50 = Recent (qh_Feed h') (id_TenantID who) 50"
    by (simp add: Recent_feed_of assms(10))
  have audit: "sv_Audit (qh_Svc h) = sv_Audit (qh_Svc h')" by (simp add: assms(11,12))
  have "fst (endpoint_handler u dc ec now now2 ep h r) = fst (endpoint_handler u dc ec now now2 ep h' r) \<and>
    sv_Audit (qh_Svc (snd (endpoint_handler u dc ec now now2 ep h r)))
      = sv_Audit (qh_Svc (snd (endpoint_handler u dc ec now now2 ep h' r)))"
    using same audit feed assms(13,14)
    by (cases ep) (auto simp: handleSearch_def handleSemantic_def handleWhy_def handleAnomalies_def auth_def
        split_beta split: sum.split)
  then show ?thesis by (simp add: query_serve_def timed_def split_beta)
qed

subsection \<open>The identities of main\<close>

definition identities :: "string \<rightharpoonup> identity" where
  "identities =
     [''acme-admin'' \<mapsto> \<lparr>Actor = ''alice'', id_TenantID = ''acme'', id_Role = Admin\<rparr>,
      ''acme-responder'' \<mapsto> \<lparr>Actor = ''bob'', id_TenantID = ''acme'', id_Role = Responder\<rparr>,
      ''acme-viewer'' \<mapsto> \<lparr>Actor = ''carol'', id_TenantID = ''acme'', id_Role = Viewer\<rparr>,
      ''globex-admin'' \<mapsto> \<lparr>Actor = ''dave'', id_TenantID = ''globex'', id_Role = Admin\<rparr>]"

definition demo_query_handler :: "mem_store \<Rightarrow> query_handler" where
  "demo_query_handler st =
     \<lparr>qh_Svc = demo_service st, qh_Feed = NewFeed 0, qh_Resolve = identities, qh_latencies = []\<rparr>"

definition demo_decoder :: query_decoder where
  "demo_decoder =
     \<lparr>dec_search = \<lambda>_. Inr \<lparr>sb_Service = [], sb_Level = [], sb_Contains = [], sb_Limit = 0\<rparr>,
      dec_semantic = \<lambda>_. Inr (''db'', 5), dec_why = \<lambda>_. Inr (''why?'', 5)\<rparr>"

definition demo_encoder :: query_encoder where
  "demo_encoder = \<lparr>enc_entries = \<lambda>es. concat (map Ref es), enc_hits = \<lambda>hs. concat (map sh_Ref hs),
                   enc_answer = an_Text, enc_events = \<lambda>_. ''events''\<rparr>"

definition viewer_request :: http_request where
  "viewer_request = \<lparr>rq_method = ''POST'', rq_authorization = ''Bearer acme-viewer'', rq_body = [],
                     rq_body_error = None\<rparr>"

lemma viewer_identity:
  "qh_Resolve (demo_query_handler st) (bearer viewer_request) = Some (person ''carol'' Viewer)"
proof -
  have "trim_space ''acme-viewer'' = ''acme-viewer''" by (rule trim_space_inner) (simp_all add: in_range_def)
  then show ?thesis
    by (simp add: demo_query_handler_def bearer_def viewer_request_def has_prefix_def identities_def person_def)
qed

theorem endpoints_need_permission_witness:
  "\<exists>resp h'. query_serve ascii_tables demo_decoder demo_encoder 1 2 5000 WhyEP (demo_query_handler demo_store) viewer_request
     = (resp, h') \<and> rs_status resp \<in> {400, 403, 405} \<and> qh_Svc h' = demo_service demo_store"
proof -
  obtain resp h' where run: "query_serve ascii_tables demo_decoder demo_encoder 1 2 5000 WhyEP
      (demo_query_handler demo_store) viewer_request = (resp, h')" by fastforce
  moreover have "\<not> Can (id_Role (person ''carol'' Viewer)) (required_action WhyEP)" by (simp add: person_def)
  moreover have "qh_Svc (demo_query_handler demo_store) = demo_service demo_store" by (simp add: demo_query_handler_def)
  ultimately show ?thesis
    using endpoints_need_permission [OF run] viewer_identity by auto
qed

theorem http_non_interference_witness:
  "fst (query_serve ascii_tables demo_decoder demo_encoder 1 2 5000 SearchEP (demo_query_handler demo_store) viewer_request)
   = fst (query_serve ascii_tables demo_decoder demo_encoder 1 2 5000 SearchEP (demo_query_handler demo_store2) viewer_request)"
proof -
  have svc: "qh_Svc (demo_query_handler st)
      = mem_service ascii_tables insertionSort (\<lambda>_. [1]) st demo_index NewKB NewAudit (3 / 20)" for st
    by (simp add: demo_query_handler_def demo_service_def)
  have "id_TenantID (person ''carol'' Viewer) = ''acme''" by (simp add: person_def)
  then have "tenant_entries (id_TenantID (person ''carol'' Viewer)) demo_store
      = tenant_entries (id_TenantID (person ''carol'' Viewer)) demo_store2"
    by (simp add: demo_store2_facts(3))
  then show ?thesis
    by (rule conjunct1 [OF http_non_interference [OF demo_store_facts(1,2) demo_store2_facts(1,2) NewKB_ok NewKB_ok
            _ refl refl _ svc svc viewer_identity viewer_identity]])
      (simp add: demo_query_handler_def)
qed

end
