(* ===== verification/System.thy ===== *)
theory System
  imports Config Metrics Pipeline EmbedWorker AnomalyWorker QueryHandler
begin

text \<open>
  \<open>cmd/ingest/main.go\<close>: the components put together. \<open>startup\<close> is \<open>main\<close> up to the point where the
  goroutines run; \<open>sys_step\<close> is one step of any of them, in any order. What does not lie under
  src/ or is left open by the language is the record \<open>platform\<close>: the Unicode tables, the sorting
  function of \<open>sort.Slice\<close>, and the JSON decoding and encoding of the query layer.
\<close>

record platform =
  pl_unicode :: unicode_tables
  pl_sort :: "(hit \<Rightarrow> hit \<Rightarrow> bool) \<Rightarrow> hit list \<Rightarrow> hit list"
  pl_decoder :: query_decoder
  pl_encoder :: query_encoder

text \<open>
  The state of the process. The vector store is in \<open>sy_embed\<close> (the worker's component \<open>ew_vec\<close>), the
  detector and the feed are in \<open>sy_anomaly\<close>, the buffer and the store in \<open>sy_pipe\<close>.
\<close>

record system =
  sy_config :: config
  sy_auth :: authenticator
  sy_limiter :: limiter
  sy_redactor :: redactor
  sy_pipe :: "mem_store pipeline"
  sy_embed :: "vector_store embed_worker"
  sy_anomaly :: anomaly_worker
  sy_kb :: kb_store
  sy_audit :: audit_log
  sy_latencies :: "(string \<times> f64) list"

definition main_embed :: "platform \<Rightarrow> string \<Rightarrow> f32 list" where
  "main_embed pl = embed_text (pl_unicode pl) (NewHash 256)"

definition main_version :: string where
  "main_version = Version (NewHash 256)"

definition main_auth :: authenticator where
  "main_auth = AddToken (AddToken NewAuthenticator ''dev-token'' ''acme'') ''globex-token'' ''globex''"

definition startup :: "(string \<Rightarrow> f64 option) \<Rightarrow> platform \<Rightarrow> environment \<Rightarrow> system option" where
  "startup parse_float pl E =
     (let cfg = Load parse_float E;
          (kb, vec) = seedKB (main_embed pl) main_version Upsert (NewKB, NewMemVector)
      in case main_start (BufferSize cfg) (BatchSize cfg) (BatchInterval cfg) of
           None \<Rightarrow> None
         | Some p \<Rightarrow>
             Some \<lparr>sy_config = cfg, sy_auth = main_auth,
                   sy_limiter = NewLimiter (RatePerTenant cfg) (BurstPerTenant cfg),
                   sy_redactor = NewRedactor, sy_pipe = p,
                   sy_embed = NewEmbed vec (200 * 1000000) 200,
                   sy_anomaly = NewAnomaly (NewDetector (1 / 4) 3 15) (NewFeed 1000) 1000000000,
                   sy_kb = kb, sy_audit = NewAudit, sy_latencies = []\<rparr>)"

text \<open>The parts of the state as the handlers see them.\<close>

definition sy_store :: "system \<Rightarrow> mem_store" where
  "sy_store s = w_store (p_writer (sy_pipe s))"

definition ingest_view :: "system \<Rightarrow> ingest_handler" where
  "ingest_view s =
     \<lparr>h_Auth = sy_auth s, h_Limiter = sy_limiter s, h_Redactor = sy_redactor s,
      h_Buffer = p_buf (sy_pipe s), h_MaxBody = MaxBodyBytes (sy_config s)\<rparr>"

definition main_service :: "platform \<Rightarrow> system \<Rightarrow> service" where
  "main_service pl s =
     mem_service (pl_unicode pl) (pl_sort pl) (main_embed pl) (sy_store s) (ew_vec (sy_embed s))
       (sy_kb s) (sy_audit s) (15 / 100)"

lemma main_service_reads [simp]:
  "sv_VecSearch (main_service pl s) = SearchVec (pl_sort pl) (ew_vec (sy_embed s))"
  "sv_Embed (main_service pl s) = main_embed pl"
  by (simp_all add: main_service_def)

definition query_view :: "platform \<Rightarrow> system \<Rightarrow> query_handler" where
  "query_view pl s =
     \<lparr>qh_Svc = main_service pl s, qh_Feed = aw_feed (sy_anomaly s), qh_Resolve = identities,
      qh_latencies = sy_latencies s\<rparr>"

subsection \<open>The steps of the process\<close>

text \<open>
  An ingest request takes its token at the limiter and then publishes its entries one by one, with
  anything in between: \<open>limited\<close> and \<open>published\<close> are these two operations. \<open>hot_path\<close> is a step of the
  writer, of the shutdown, or a rejected publish.
\<close>

definition published :: "system \<Rightarrow> log_entry \<Rightarrow> err option \<Rightarrow> buffer \<Rightarrow> system" where
  "published s x r b =
     s\<lparr>sy_pipe := (sy_pipe s)\<lparr>p_buf := b,
        p_accepted := p_accepted (sy_pipe s) @ (if r = None then [x] else [])\<rparr>\<rparr>"

inductive sys_step :: "platform \<Rightarrow> system \<Rightarrow> system \<Rightarrow> bool" for pl where
  limited: "Authenticate (sy_auth s) tok = Some t \<Longrightarrow>
     sys_step pl s (s\<lparr>sy_limiter := snd (Allow (sy_limiter s) now t)\<rparr>)"
| swept: "sys_step pl s (s\<lparr>sy_limiter := Sweep (sy_limiter s) now\<rparr>)"
| published: "Authenticate (sy_auth s) tok = Some t \<Longrightarrow> Validate e = None \<Longrightarrow>
     x = prepare (sy_redactor s) t now e \<Longrightarrow> Publish (p_buf (sy_pipe s)) x = Some (r, b) \<Longrightarrow>
     sys_step pl s (published s x r b)"
| hot_path: "pstep WriteBatch (sy_pipe s) p \<Longrightarrow> p_accepted p = p_accepted (sy_pipe s) \<Longrightarrow>
     sys_step pl s (s\<lparr>sy_pipe := p\<rparr>)"
| indexed: "sys_step pl s (s\<lparr>sy_embed :=
     embed_tick (main_embed pl) main_version Upsert now (Since (sy_store s)) (sy_embed s)\<rparr>)"
| lag_read: "sys_step pl s (s\<lparr>sy_embed := snd (Lag (Since (sy_store s)) (sy_embed s))\<rparr>)"
| detected: "map_order ord \<Longrightarrow>
     sys_step pl s (s\<lparr>sy_anomaly := anomaly_tick (Since (sy_store s)) ord nows (sy_anomaly s)\<rparr>)"
| queried: "query_serve (pl_unicode pl) (pl_decoder pl) (pl_encoder pl) now now2 took ep (query_view pl s) r
       = (resp, h) \<Longrightarrow>
     sys_step pl s (s\<lparr>sy_audit := sv_Audit (qh_Svc h), sy_latencies := qh_latencies h\<rparr>)"

inductive_cases sys_stepE: "sys_step pl s s'"

abbreviation sys_steps :: "platform \<Rightarrow> system \<Rightarrow> system \<Rightarrow> bool" where
  "sys_steps pl \<equiv> (sys_step pl)\<^sup>*\<^sup>*"

subsection \<open>Metrics\<close>

text \<open>The hooks that \<open>main\<close> installs in the worker; \<open>SetLag\<close> is not among them.\<close>

fun main_hook :: "'w registry \<Rightarrow> metric_call \<Rightarrow> 'w registry" where
  "main_hook r (OnEmbedded n) = AddCounter r ''sl_embedded_total'' (of_nat n)"
| "main_hook r OnDedup = Inc r ''sl_embed_dedup_total''"
| "main_hook r OnDLQ = Inc r ''sl_embed_dlq_total''"
| "main_hook r (SetLag n) = r"

definition main_gauges :: "system registry \<Rightarrow> system registry" where
  "main_gauges r = fold (\<lambda>(name, f) r. SetGauge r name f)
     [(''sl_buffer_depth'', \<lambda>s. real (Depth (p_buf (sy_pipe s)))),
      (''sl_buffer_accepted_total'', \<lambda>s. real (unat (Accepted (p_buf (sy_pipe s))))),
      (''sl_buffer_shed_total'', \<lambda>s. real (unat (Shed (p_buf (sy_pipe s))))),
      (''sl_store_written_total'', \<lambda>s. real (unat (Written (sy_store s)))),
      (''sl_vectors'', \<lambda>s. real (Len (ew_vec (sy_embed s)))),
      (''sl_anomaly_baselines'', \<lambda>s. real (Baselines (aw_det (sy_anomaly s)))),
      (''sl_embed_lag'', \<lambda>s. real (unat (fst (Lag (Since (sy_store s)) (sy_embed s))))),
      (''sl_embed_dlq_depth'', \<lambda>s. real (DLQLen (sy_embed s)))] r"

text \<open>The registry after the calls recorded in the state, and the page \<open>/metrics\<close>.\<close>

definition main_registry :: "system \<Rightarrow> system registry" where
  "main_registry s =
     foldl (\<lambda>r (ep, ms). ObserveLatency r ''sl_query_latency_ms'' ms)
       (((\<lambda>r. Inc r ''sl_anomaly_events_total'') ^^ aw_onEvent (sy_anomaly s))
          (foldl main_hook (main_gauges NewRegistry) (ew_m (sy_embed s))))
       (sy_latencies s)"

definition metrics_page :: "(f64 \<Rightarrow> string) \<Rightarrow> system \<Rightarrow> string" where
  "metrics_page fmt_g s = Render fmt_g s (main_registry s)"

subsection \<open>The invariant of the process\<close>

text \<open>An entry that a request with a token of its tenant has sent in, as the handler prepares it.\<close>

definition legit :: "log_entry \<Rightarrow> bool" where
  "legit x \<longleftrightarrow>
     (\<exists>tok e now. Authenticate main_auth tok = Some (TenantID x) \<and> Validate e = None \<and>
        x = prepare NewRedactor (TenantID x) now e)"

text \<open>An item of the index of tenant \<open>t\<close> that stands for something of that tenant.\<close>

definition grounded :: "platform \<Rightarrow> mem_store \<Rightarrow> kb_store \<Rightarrow> string \<Rightarrow> item \<Rightarrow> bool" where
  "grounded pl st kb t it \<longleftrightarrow>
     (\<exists>x \<in> set (entries st). TenantID (LogEntry x) = t \<and> it = log_item (main_embed pl) main_version x) \<or>
     (\<exists>d \<in> docs_of kb. doc_TenantID d = t \<and> it_Ref it = DocRef d \<and>
        it_Vec it = main_embed pl (doc_Title d @ [CHR 0x0A] @ doc_Content d))"

definition sys_ok :: "platform \<Rightarrow> system \<Rightarrow> bool" where
  "sys_ok pl s \<longleftrightarrow>
     sy_auth s = main_auth \<and> sy_redactor s = NewRedactor \<and>
     mem_sink.pipe_inv (sy_pipe s) \<and>
     mem_sink.taken (sy_pipe s) = filter Redacted (p_accepted (sy_pipe s)) \<and>
     list_all legit (p_accepted (sy_pipe s)) \<and> list_all Redacted (ch (p_buf (sy_pipe s))) \<and>
     index_ok (ew_vec (sy_embed s)) \<and> kb_ok (sy_kb s) \<and>
     (\<forall>t. list_all (grounded pl (sy_store s) (sy_kb s) t) (part (ew_vec (sy_embed s)) t)) \<and>
     detector_ok (aw_det (sy_anomaly s)) \<and> audit_ok (sy_audit s)"

lemma legit_facts:
  assumes "legit x"
  shows "Redacted x" "Service x \<noteq> []" "\<exists>m. m \<noteq> [] \<and> Message x = fst (redactString NewRedactor m)"
    "\<exists>tok. Authenticate main_auth tok = Some (TenantID x)" "NUL \<notin> set (TenantID x)"
    "TenantID x \<noteq> []"
proof -
  obtain tok e now where x: "Authenticate main_auth tok = Some (TenantID x)" "Validate e = None"
    "x = prepare NewRedactor (TenantID x) now e"
    using assms by (auto simp: legit_def)
  show "Redacted x" "Service x \<noteq> []" "\<exists>m. m \<noteq> [] \<and> Message x = fst (redactString NewRedactor m)"
    using x(2) prepare_fields(2-4) [of NewRedactor "TenantID x" now e, folded x(3)]
    by (auto simp: Validate_None)
  show "\<exists>tok. Authenticate main_auth tok = Some (TenantID x)" using x(1) by blast
  have "TenantID x \<in> {''acme'', ''globex''}"
    using x(1) by (auto simp: Authenticate_iff main_auth_def AddToken_def NewAuthenticator_def split: if_splits)
  then show "NUL \<notin> set (TenantID x)" "TenantID x \<noteq> []" by auto
qed

lemma sys_ok_store:
  assumes "sys_ok pl s"
  shows "store_ok (sy_store s)" "x \<in> set (entries (sy_store s)) \<Longrightarrow> legit (LogEntry x)"
    "\<forall>x \<in> set (entries (sy_store s)). NUL \<notin> set (TenantID (LogEntry x))"
proof -
  show "store_ok (sy_store s)" using assms by (simp add: sys_ok_def mem_sink.pipe_inv_def sy_store_def)
  have "set (abs_log (sy_store s)) \<subseteq> set (mem_sink.taken (sy_pipe s))"
    by (simp add: mem_sink.taken_def sy_store_def)
  then have "list_all legit (abs_log (sy_store s))"
    using assms by (auto simp: sys_ok_def list_all_iff)
  then show leg: "legit (LogEntry x)" if "x \<in> set (entries (sy_store s))" for x
    using that by (auto simp: abs_log_def list_all_iff)
  show "\<forall>x \<in> set (entries (sy_store s)). NUL \<notin> set (TenantID (LogEntry x))"
    using leg legit_facts(5) by blast
qed

lemma sys_ok_fits:
  assumes "sys_ok pl s" "length (p_accepted (sy_pipe s)) < 2 ^ 63"
  shows "store_fits (sy_store s)"
proof -
  have "abs_log (sy_store s) @ w_batch (p_writer (sy_pipe s)) @ filter Redacted (ch (p_buf (sy_pipe s)))
      = filter Redacted (p_accepted (sy_pipe s))"
    using assms(1) by (simp add: sys_ok_def mem_sink.taken_def sy_store_def)
  then have "length (entries (sy_store s)) \<le> length (filter Redacted (p_accepted (sy_pipe s)))"
    by (metis le_add1 length_abs_log length_append)
  also have "\<dots> \<le> length (p_accepted (sy_pipe s))" by (rule length_filter_le)
  finally show ?thesis using assms(2) by (simp add: store_fits_def)
qed

lemma sys_ok_hot_path:
  assumes "sys_ok pl s"
  shows "stored_log (sy_pipe s) @ w_batch (p_writer (sy_pipe s)) @ ch (p_buf (sy_pipe s)) = p_accepted (sy_pipe s)"
proof -
  have "list_all Redacted (p_accepted (sy_pipe s))" "list_all Redacted (ch (p_buf (sy_pipe s)))"
    using assms legit_facts(1) by (auto simp: sys_ok_def list_all_iff)
  then have "filter Redacted (p_accepted (sy_pipe s)) = p_accepted (sy_pipe s)"
    "filter Redacted (ch (p_buf (sy_pipe s))) = ch (p_buf (sy_pipe s))"
    by (simp_all add: filter_id_conv list_all_iff)
  with assms show ?thesis
    by (simp add: sys_ok_def mem_sink.taken_def stored_log_def)
qed

lemma published_pstep:
  assumes "Publish (p_buf p) x = Some (r, b)"
  shows "pstep WriteBatch p (p\<lparr>p_buf := b, p_accepted := p_accepted p @ (if r = None then [x] else [])\<rparr>)"
proof (cases r)
  case None
  with assms pstep.accept [of p x b WriteBatch] show ?thesis by simp
next
  case (Some e)
  with assms pstep.reject [of p x e b WriteBatch] show ?thesis by simp
qed

text \<open>Any step of the hot path whose accepted entries are legitimate keeps the invariant.\<close>

lemma pipe_step_ok:
  assumes "sys_ok pl s" "pstep WriteBatch (sy_pipe s) p" "p_accepted p = p_accepted (sy_pipe s) @ new"
    and "list_all legit new"
  shows "sys_ok pl (s\<lparr>sy_pipe := p\<rparr>)"
proof -
  let ?s = "s\<lparr>sy_pipe := p\<rparr>"
  have inv: "mem_sink.pipe_inv (sy_pipe s)" "mem_sink.taken (sy_pipe s) = filter Redacted (p_accepted (sy_pipe s))"
    using assms(1) by (simp_all add: sys_ok_def)
  from mem_sink.pstep_taken [OF assms(2) inv(1)] assms(3) inv(2)
  have "mem_sink.taken p = filter Redacted (p_accepted p)" by auto
  moreover obtain ys where ys: "entries (sy_store ?s) = entries (sy_store s) @ ys"
    using pstep_store_grows [OF assms(2)] by (auto simp: sy_store_def)
  then have "grounded pl (sy_store s) kb t it \<Longrightarrow> grounded pl (sy_store ?s) kb t it" for kb t it
    by (auto simp: grounded_def)
  moreover have "list_all Redacted (ch (p_buf p))"
    using pstep_queue [OF assms(2,3)] assms(1,4) legit_facts(1) by (auto simp: sys_ok_def list_all_iff)
  ultimately show ?thesis
    using assms(1,3,4) mem_sink.pstep_pipe_inv [OF assms(2) inv(1)]
    by (auto simp: sys_ok_def list_all_iff)
qed

text \<open>Every step of the process leaves the hot path alone or is a step of it.\<close>

lemma sys_step_pipe:
  assumes "sys_step pl s s'"
  shows "sy_pipe s' = sy_pipe s \<or> pstep WriteBatch (sy_pipe s) (sy_pipe s')"
  using assms
proof (cases rule: sys_step.cases)
  case (published tok t e x now r b)
  have "sy_pipe s' = (sy_pipe s)\<lparr>p_buf := b, p_accepted := p_accepted (sy_pipe s) @ (if r = None then [x] else [])\<rparr>"
    by (simp add: published(1) published_def)
  with published_pstep [OF published(5)] show ?thesis by argo
qed auto

lemma sys_steps_pipe: "sys_steps pl s s' \<Longrightarrow> main_steps (sy_pipe s) (sy_pipe s')"
  by (induction rule: rtranclp_induct) (auto dest: sys_step_pipe intro: rtranclp.rtrancl_into_rtrancl)

lemma anomaly_tick_ok:
  "detector_ok (aw_det w) \<Longrightarrow> detector_ok (aw_det (anomaly_tick since ord nows w))"
  by (auto simp: anomaly_tick_def observe_loop_run observe_all_ok split: sum.split prod.split)

lemma sys_step_ok:
  assumes "sys_step pl s s'" "sys_ok pl s"
  shows "sys_ok pl s'"
  using assms
proof (cases rule: sys_step.cases)
  case (published tok t e x now r b)
  have x: "TenantID x = t" using published(4) by (simp add: prepare_fields)
  then have "legit x" using published(2-4) assms(2) by (auto simp: legit_def sys_ok_def)
  then show ?thesis
    using pipe_step_ok [OF assms(2) published_pstep [OF published(5)], of "if r = None then [x] else []"] published(1)
    by (simp add: published_def)
next
  case (hot_path p)
  then show ?thesis using pipe_step_ok [OF assms(2) hot_path(2), of "[]"] by simp
next
  case (indexed now)
  have "index_ok (ew_vec (sy_embed s))" using assms(2) by (simp add: sys_ok_def)
  from embed_tick_index [OF this sys_ok_store(3) [OF assms(2)] refl, of "main_embed pl" main_version now]
  show ?thesis
    using assms(2) unfolding indexed sys_ok_def
    by (fastforce simp: list_all_iff sy_store_def grounded_def)
next
  case (lag_read)
  then show ?thesis using assms(2) by (simp add: sys_ok_def sy_store_def Lag_def Let_def)
next
  case (detected ord nows)
  then show ?thesis using assms(2) anomaly_tick_ok by (simp add: sys_ok_def sy_store_def)
next
  case (queried now now2 took ep r resp h)
  have "audit_ok (sv_Audit (qh_Svc (query_view pl s)))"
    using assms(2) by (simp add: query_view_def main_service_def sys_ok_def)
  from endpoint_audit_ok [OF this, of "pl_unicode pl" "pl_decoder pl" "pl_encoder pl" now now2 ep r]
  have "audit_ok (sv_Audit (qh_Svc h))"
    using queried(2) by (auto simp: query_serve_def timed_def split: prod.splits)
  then show ?thesis using queried(1) assms(2) by (simp add: sys_ok_def sy_store_def)
qed (simp_all add: sys_ok_def sy_store_def)

text \<open>Adding a document keeps the knowledge base and the index sound.\<close>

definition kb_sound :: "platform \<Rightarrow> mem_store \<Rightarrow> kb_store \<times> vector_store \<Rightarrow> bool" where
  "kb_sound pl st kv \<longleftrightarrow>
     kb_ok (fst kv) \<and> index_ok (snd kv) \<and> (\<forall>t. list_all (grounded pl st (fst kv) t) (part (snd kv) t))"

lemma AddDoc_sound:
  assumes "kb_sound pl st kv" "kb_fits (fst kv)" "NUL \<notin> set t"
  shows "kb_sound pl st (snd (AddDoc (main_embed pl) ver Upsert kv t kind title content tags)) \<and>
    length (kb_docs (fst (snd (AddDoc (main_embed pl) ver Upsert kv t kind title content tags)))) = length (kb_docs (fst kv)) + 1"
proof -
  obtain d k' v' where add: "AddDoc (main_embed pl) ver Upsert kv t kind title content tags = (d, k', v')" by (metis prod_cases3)
  let ?it = "\<lparr>it_TenantID = t, it_Ref = DocRef d, it_SourceType = kind,
              it_Vec = main_embed pl (title @ [CHR 0x0A] @ content), it_Version = ver\<rparr>"
  from assms(1) have ok: "kb_ok (fst kv)" "index_ok (snd kv)" by (simp_all add: kb_sound_def)
  note e = AddDoc_effect [OF ok(1) assms(2) add]
  have nul: "NUL \<notin> set (it_TenantID ?it)" using assms(3) by simp
  have sub: "x \<in> set (part (snd kv) t') \<or> t' = t \<and> x = ?it" if "x \<in> set (part v' t')" for x t'
    using ok(2) nul that e by (cases rule: Upsert_cases [of "snd kv" ?it]) (auto split: if_splits)
  have docs: "docs_of k' = insert d (docs_of (fst kv))" "doc_TenantID d = t" "doc_Title d = title" "doc_Content d = content"
    using e by blast+
  have new: "grounded pl st k' t ?it" using docs by (simp add: grounded_def)
  have old: "grounded pl st k' t' it" if "it \<in> set (part (snd kv) t')" for t' it
  proof -
    have "grounded pl st (fst kv) t' it" using that assms(1) by (auto simp: kb_sound_def list_all_iff)
    then show ?thesis using docs(1) by (auto simp: grounded_def)
  qed
  have "grounded pl st k' t' it" if "it \<in> set (part v' t')" for t' it
    using sub [OF that] new old by blast
  moreover have "index_ok v'" using Upsert_ok [OF ok(2) nul] e by simp
  ultimately show ?thesis using add e by (simp add: kb_sound_def list_all_iff)
qed

lemma seedKB_sound: "kb_sound pl st (seedKB (main_embed pl) main_version Upsert (NewKB, NewMemVector))"
proof -
  have start: "kb_sound pl st (NewKB, NewMemVector)" "kb_fits NewKB"
    by (simp_all add: kb_sound_def NewKB_ok NewMemVector_ok kb_fits_def)
      (simp_all add: NewMemVector_def part_def NewKB_def)
  define kv where "kv = snd (AddDoc (main_embed pl) main_version Upsert (NewKB, NewMemVector) ''acme'' Runbook
     ''Checkout 5xx spike runbook''
     (''When checkout returns 5xx: check payment gateway timeout, DB connection pool saturation, '' @
      ''and recent deploys. Roll back first, then investigate. Common cause: pool exhausted under load.'')
     [''checkout'', ''5xx''])"
  have "kb_sound pl st kv \<and> length (kb_docs (fst kv)) = length (kb_docs (fst (NewKB, NewMemVector))) + 1"
    unfolding kv_def using start by (intro AddDoc_sound) auto
  then have "kb_sound pl st kv" "kb_fits (fst kv)" by (simp_all add: kb_fits_def NewKB_def)
  then show ?thesis
    unfolding seedKB_def Let_def kv_def [symmetric] by (intro conjunct1 [OF AddDoc_sound]) auto
qed

text \<open>The index is the work of the worker alone: it has absorbed exactly what lies up to its checkpoint.\<close>

abbreviation indexed_upto :: "platform \<Rightarrow> vector_store \<Rightarrow> system \<Rightarrow> bool" where
  "indexed_upto pl v s \<equiv>
     mem_indexing.caught (main_embed pl) main_version 0 ({}, v) (sy_embed s) (sy_store s)"

definition sys_indexed :: "platform \<Rightarrow> vector_store \<Rightarrow> system \<Rightarrow> bool" where
  "sys_indexed pl v s \<longleftrightarrow> (store_fits (sy_store s) \<longrightarrow> indexed_upto pl v s)"

lemma sys_step_indexed:
  assumes "sys_step pl s s'" "sys_ok pl s" "sys_indexed pl v s"
  shows "sys_indexed pl v s'"
  unfolding sys_indexed_def
proof
  assume fits: "store_fits (sy_store s')"
  have ok: "store_ok (sy_store s') \<and> store_fits (sy_store s')"
    using sys_ok_store(1) [OF sys_step_ok [OF assms(1,2)]] fits ..
  from assms(1) show "indexed_upto pl v s'"
  proof (cases rule: sys_step.cases)
    case (hot_path p)
    then obtain ys where ys: "entries (sy_store s') = entries (sy_store s) @ ys"
      using pstep_store_grows [OF hot_path(2)] by (auto simp: sy_store_def)
    then have "store_fits (sy_store s)" using fits by (simp add: store_fits_def)
    then have "indexed_upto pl v s" using assms(3) by (simp add: sys_indexed_def)
    from mem_indexing.caught_grows [OF this ok ys] show ?thesis using hot_path(1) by simp
  next
    case (indexed now)
    then have same: "sy_store s' = sy_store s" by (simp add: sy_store_def)
    then have "indexed_upto pl v s" using assms(3) fits by (simp add: sys_indexed_def)
    from mem_indexing.caught_tick [OF this ok [unfolded same], of now] show ?thesis
      by (simp add: indexed sy_store_def)
  next
    case (published tok t e x now r b)
    then show ?thesis using assms(3) fits by (simp add: sys_indexed_def published_def sy_store_def)
  qed (use assms(3) fits in \<open>simp_all add: sys_indexed_def sy_store_def Lag_def Let_def
         mem_indexing.caught_def EmbedWorker.upto_def\<close>)
qed

lemma main_start_empty: "main_start n k d = Some p \<Longrightarrow> ch (p_buf p) = []"
  by (auto simp: main_start_def NewBuffer_def pipeline_start_def split: option.splits if_splits)

lemma startup_open: "startup parse_float pl E = Some s0 \<Longrightarrow> \<not> ch_closed (p_buf (sy_pipe s0)) \<and> w_phase (p_writer (sy_pipe s0)) = Running"
  by (auto simp: startup_def main_start_def NewBuffer_def writer_start_def pipeline_start_def Let_def
      split: option.splits if_splits prod.splits)

lemma startup_ok:
  assumes "startup parse_float pl E = Some s0"
    and "v = snd (seedKB (main_embed pl) main_version Upsert (NewKB, NewMemVector))"
  shows "sys_ok pl s0 \<and> sys_indexed pl v s0"
proof -
  obtain kb where kv: "seedKB (main_embed pl) main_version Upsert (NewKB, NewMemVector) = (kb, v)"
    using assms(2) by (metis prod.collapse)
  let ?c = "Load parse_float E"
  obtain p where p: "main_start (BufferSize ?c) (BatchSize ?c) (BatchInterval ?c) = Some p"
    using assms(1) by (auto simp: startup_def kv Let_def split: option.splits)
  have s0: "sy_auth s0 = main_auth" "sy_redactor s0 = NewRedactor" "sy_pipe s0 = p" "sy_kb s0 = kb" "sy_audit s0 = NewAudit"
    "ew_vec (sy_embed s0) = v" "ew_lastID (sy_embed s0) = 0" "ew_seen (sy_embed s0) = {}"
    "aw_det (sy_anomaly s0) = NewDetector (1 / 4) 3 15"
    using assms(1) p by (auto simp: startup_def kv NewEmbed_def NewAnomaly_def Let_def)
  have "sys_ok pl s0"
    using main_start_inv [OF p] main_start_empty [OF p] seedKB_sound [of pl "sy_store s0"]
    by (simp add: sys_ok_def s0 kv kb_sound_def NewDetector_ok NewAudit_ok)
  moreover have "indexed_upto pl v s0"
    using mem_indexing.caught_start [of "main_embed pl" main_version "sy_embed s0" "sy_store s0"] by (simp add: s0)
  ultimately show ?thesis by (simp add: sys_indexed_def)
qed

lemma steps_ok:
  assumes "sys_steps pl s s'" "sys_ok pl s" "sys_indexed pl v s"
  shows "sys_ok pl s' \<and> sys_indexed pl v s'"
  using assms(1)
proof (induction rule: rtranclp_induct)
  case (step t u)
  then show ?case using sys_step_ok sys_step_indexed by blast
qed (use assms in simp)

lemmas reachable_ok = conjunct1 [OF steps_ok [OF _ conjunct1 [OF startup_ok [OF _ refl]] conjunct2 [OF startup_ok [OF _ refl]]]]
lemmas reachable_indexed = conjunct2 [OF steps_ok [OF _ conjunct1 [OF startup_ok [OF _ refl]] conjunct2 [OF startup_ok [OF _ refl]]]]

text \<open>Runs of the writer as runs of the process.\<close>

lemma pipe_run:
  "(writer_move WriteBatch)\<^sup>*\<^sup>* (sy_pipe s) p \<Longrightarrow> sys_steps pl s (s\<lparr>sy_pipe := p\<rparr>)"
proof (induction rule: rtranclp_induct)
  case (step p p')
  have "sys_step pl (s\<lparr>sy_pipe := p\<rparr>) (s\<lparr>sy_pipe := p\<rparr>\<lparr>sy_pipe := p'\<rparr>)"
    using step.hyps(2) by (intro sys_step.hot_path) (auto simp: writer_move_def)
  with step.IH show ?case by simp
qed simp

subsection \<open>A concrete run\<close>

definition demo_platform :: platform where
  "demo_platform = \<lparr>pl_unicode = ascii_tables, pl_sort = insertionSort, pl_decoder = demo_decoder,
                    pl_encoder = demo_encoder\<rparr>"

text \<open>The process started with no variable set, with a request of tenant globex stored.\<close>

definition sent_entry :: log_entry where
  "sent_entry = prepare NewRedactor ''globex'' 5 (web_entry ''m'')"

lemma sent_entry_facts: "Redacted sent_entry" "TenantID sent_entry = ''globex''"
  by (simp_all add: sent_entry_def prepare_fields)

lemma default_startup:
  "\<exists>s0 p w. startup parse_float demo_platform Map.empty = Some s0 \<and> sy_pipe s0 = p \<and> p_writer p = w \<and>
     p_buf p = \<lparr>ch = [], ch_cap = 10000, ch_closed = False, accepted = 0, shed = 0\<rparr> \<and> p_accepted p = [] \<and>
     w = \<lparr>w_store = NewMem, w_size = 500, w_interval = 1000000000, w_batch = [], w_phase = Running\<rparr>"
proof -
  have "BufferSize (Load parse_float Map.empty) = 10000" "BatchSize (Load parse_float Map.empty) = 500"
    "BatchInterval (Load parse_float Map.empty) = 1000000000"
    by (simp_all add: Load_def envInt_def envDur_def)
  then show ?thesis
    by (auto simp: startup_def main_start_def NewBuffer_def writer_start_def pipeline_start_def Let_def
        split: prod.split)
qed

lemma demo_run_exists:
  "\<exists>s0 s. startup parse_float demo_platform Map.empty = Some s0 \<and> sys_steps demo_platform s0 s \<and>
     p_accepted (sy_pipe s) = [sent_entry] \<and> entries (sy_store s) = [\<lparr>ID = 1, LogEntry = sent_entry\<rparr>] \<and>
     w_phase (p_writer (sy_pipe s)) = Running"
proof -
  from default_startup [of parse_float] obtain s0 where s0: "startup parse_float demo_platform Map.empty = Some s0"
    "p_buf (sy_pipe s0) = \<lparr>ch = [], ch_cap = 10000, ch_closed = False, accepted = 0, shed = 0\<rparr>"
    "p_accepted (sy_pipe s0) = []"
    "p_writer (sy_pipe s0) = \<lparr>w_store = NewMem, w_size = 500, w_interval = 1000000000, w_batch = [], w_phase = Running\<rparr>"
    by metis
  have fixed: "sy_auth s0 = main_auth" "sy_redactor s0 = NewRedactor"
    using startup_ok [OF s0(1) refl] by (simp_all add: sys_ok_def)
  have auth: "Authenticate (sy_auth s0) ''globex-token'' = Some ''globex''"
    by (simp add: fixed main_auth_def AddToken_def Authenticate_iff)
  have valid: "Validate (web_entry ''m'') = None" by (simp add: web_entry_def Validate_def)
  obtain b where pub: "Publish (p_buf (sy_pipe s0)) sent_entry = Some (None, b)" "ch b = [sent_entry]"
    by (simp add: s0(2) Publish_def)
  let ?s1 = "published s0 sent_entry None b"
  have one: "sys_step demo_platform s0 ?s1"
    by (rule sys_step.published [OF auth valid _ pub(1)]) (simp add: fixed sent_entry_def)
  let ?p1 = "sy_pipe ?s1"
  let ?p2 = "?p1\<lparr>p_buf := b\<lparr>ch := []\<rparr>, p_writer := on_entry WriteBatch (p_writer ?p1) sent_entry\<rparr>"
  let ?p3 = "?p2\<lparr>p_writer := flush WriteBatch (p_writer ?p2)\<rparr>"
  have w1: "p_writer ?p1 = p_writer (sy_pipe s0)" by (simp add: published_def)
  have "pstep WriteBatch ?p1 ?p2"
    by (rule pstep.recv_entry) (simp_all add: published_def s0(4) receive_def pub(2))
  then have two: "sys_step demo_platform ?s1 (?s1\<lparr>sy_pipe := ?p2\<rparr>)" by (intro sys_step.hot_path) simp_all
  have "pstep WriteBatch ?p2 ?p3"
    by (rule pstep.tick) (simp add: published_def s0(4))
  then have three: "sys_step demo_platform (?s1\<lparr>sy_pipe := ?p2\<rparr>) (?s1\<lparr>sy_pipe := ?p2\<rparr>\<lparr>sy_pipe := ?p3\<rparr>)"
    by (intro sys_step.hot_path) simp_all
  have w2: "p_writer ?p2 = (p_writer (sy_pipe s0))\<lparr>w_batch := [sent_entry]\<rparr>"
    by (simp add: w1 s0(4) on_entry_def appendGuarded_def sent_entry_facts Let_def)
  have "entries (fst (WriteBatch NewMem [sent_entry])) = [\<lparr>ID = 1, LogEntry = sent_entry\<rparr>]"
    by (simp add: WriteBatch_def NewMem_def sent_entry_facts)
  then have "entries (w_store (p_writer ?p3)) = [\<lparr>ID = 1, LogEntry = sent_entry\<rparr>]"
    "w_phase (p_writer ?p3) = Running"
    unfolding w2 by (simp_all add: w2 s0(4) flush_def split_beta)
  moreover have "p_accepted ?p3 = [sent_entry]" by (simp add: published_def s0(3))
  moreover have "sys_steps demo_platform s0 (?s1\<lparr>sy_pipe := ?p2\<rparr>\<lparr>sy_pipe := ?p3\<rparr>)"
    using one two three by (meson converse_rtranclp_into_rtranclp r_into_rtranclp)
  ultimately show ?thesis using s0(1) by (intro exI [of _ s0] exI [of _ "?s1\<lparr>sy_pipe := ?p2\<rparr>\<lparr>sy_pipe := ?p3\<rparr>"]) (simp add: sy_store_def)
qed

end
