(* ===== verification/Requests.thy ===== *)
theory Requests
  imports System
begin

text \<open>
  The HTTP surface of \<open>main\<close>: the multiplexer with its seven routes, and the proof that serving a
  request in one go is a run of the fine-grained steps of \<open>System\<close>. The patterns end in no slash, so
  the multiplexer matches the (clean) path of the request exactly and answers 404 otherwise.
\<close>

subsection \<open>An ingest request is a run\<close>

lemma ingest_loop_run:
  assumes "ingest_loop (sy_redactor s) t stamps i es (acc, sh) (p_buf (sy_pipe s)) = (res, b)"
    and "Authenticate (sy_auth s) tok = Some t"
  shows "\<exists>new. ch b = ch (p_buf (sy_pipe s)) @ new \<and>
    sys_steps pl s (s\<lparr>sy_pipe := (sy_pipe s)\<lparr>p_buf := b, p_accepted := p_accepted (sy_pipe s) @ new\<rparr>\<rparr>)"
  using assms
proof (induction es arbitrary: i acc sh s)
  case (Cons e es)
  let ?x = "prepare (sy_redactor s) t (stamps i) e"
  show ?case
  proof (cases "Validate e = None \<and> Publish (p_buf (sy_pipe s)) ?x \<noteq> None")
    case True
    then obtain r b1 where pub: "Publish (p_buf (sy_pipe s)) ?x = Some (r, b1)" by auto
    let ?s = "published s ?x r b1"
    have step: "sys_step pl s ?s"
      using True pub Cons.prems(2) by (intro sys_step.published [where x = ?x]) auto
    obtain acc' sh' where rest: "ingest_loop (sy_redactor ?s) t stamps (Suc i) es (acc', sh') (p_buf (sy_pipe ?s)) = (res, b)"
      using Cons.prems(1) True pub by (cases r) (auto simp: published_def)
    have "Authenticate (sy_auth ?s) tok = Some t" using Cons.prems(2) by (simp add: published_def)
    from Cons.IH [OF rest this] obtain new where
      new: "ch b = ch (p_buf (sy_pipe ?s)) @ new"
      "sys_steps pl ?s (?s\<lparr>sy_pipe := (sy_pipe ?s)\<lparr>p_buf := b, p_accepted := p_accepted (sy_pipe ?s) @ new\<rparr>\<rparr>)" by blast
    have queued: "ch b1 = ch (p_buf (sy_pipe s)) @ (if r = None then [?x] else [])"
      using pub by (auto elim!: Publish_cases)
    from converse_rtranclp_into_rtranclp [of "sys_step pl", OF step new(2)] new(1) queued
    show ?thesis by (intro exI [of _ "(if r = None then [?x] else []) @ new"]) (simp add: published_def)
  next
    case False
    then have "b = p_buf (sy_pipe s)" using Cons.prems(1)
      by (cases "Validate e"; cases "Publish (p_buf (sy_pipe s)) ?x") auto
    then show ?thesis by (intro exI [of _ "[]"]) simp
  qed
qed (intro exI [of _ "[]"], auto)

lemma ingest_run:
  assumes "ServeHTTP jd now stamps (ingest_view s) r = (resp, h)"
  shows "\<exists>new. ch (h_Buffer h) = ch (p_buf (sy_pipe s)) @ new \<and> sys_steps pl s (s\<lparr>sy_limiter := h_Limiter h,
           sy_pipe := (sy_pipe s)\<lparr>p_buf := h_Buffer h, p_accepted := p_accepted (sy_pipe s) @ new\<rparr>\<rparr>)"
proof (cases "rq_method r = ''POST'' \<and> Authenticate (sy_auth s) (bearerToken r) \<noteq> None")
  case False
  then have "h = ingest_view s" using assms by (auto simp: ServeHTTP_def ingest_view_def split: if_splits)
  then show ?thesis by (intro exI [of _ "[]"]) (simp add: ingest_view_def)
next
  case True
  then obtain t where t: "rq_method r = ''POST''" "Authenticate (sy_auth s) (bearerToken r) = Some t" by auto
  define s1 where "s1 = s\<lparr>sy_limiter := snd (Allow (sy_limiter s) now t)\<rparr>"
  have one: "sys_step pl s s1" unfolding s1_def by (rule sys_step.limited [OF t(2)])
  show ?thesis
  proof (cases "\<exists>es. admitted jd now (ingest_view s) r t es")
    case True
    then obtain es where "admitted jd now (ingest_view s) r t es" ..
    from ServeHTTP_admitted [OF this, of stamps] assms obtain res b where
      l: "ingest_loop (sy_redactor s1) t stamps 0 es (0, 0) (p_buf (sy_pipe s1)) = (res, b)"
      and h: "h_Limiter h = snd (Allow (sy_limiter s) now t)" "h_Buffer h = b"
      by (auto simp: ingest_view_def s1_def split: prod.splits)
    from ingest_loop_run [OF l, of "bearerToken r" pl] t(2) obtain new where
      new: "ch b = ch (p_buf (sy_pipe s1)) @ new"
      "sys_steps pl s1 (s1\<lparr>sy_pipe := (sy_pipe s1)\<lparr>p_buf := b, p_accepted := p_accepted (sy_pipe s1) @ new\<rparr>\<rparr>)"
      by (auto simp: s1_def)
    from converse_rtranclp_into_rtranclp [of "sys_step pl", OF one new(2)] new(1) h
    show ?thesis by (intro exI [of _ new]) (simp add: s1_def)
  next
    case False
    then have "h = (ingest_view s)\<lparr>h_Limiter := snd (Allow (sy_limiter s) now t)\<rparr>"
      using assms t by (auto simp: ServeHTTP_def ingest_view_def admitted_def Let_def split: if_splits prod.splits sum.splits)
    then show ?thesis using one by (intro exI [of _ "[]"]) (simp add: ingest_view_def s1_def r_into_rtranclp)
  qed
qed

subsection \<open>The multiplexer\<close>

text \<open>The three handlers; what \<open>Publish\<close> has accepted is recorded from what the request has queued.\<close>

definition serve_ingest ::
  "json_decoder \<Rightarrow> instant \<Rightarrow> (nat \<Rightarrow> instant) \<Rightarrow> http_request \<Rightarrow> system \<Rightarrow> http_response option \<times> system" where
  "serve_ingest jd now stamps r s =
     (case ServeHTTP jd now stamps (ingest_view s) r of
        (resp, h) \<Rightarrow>
          (resp, s\<lparr>sy_limiter := h_Limiter h,
                   sy_pipe := (sy_pipe s)\<lparr>p_buf := h_Buffer h,
                     p_accepted := p_accepted (sy_pipe s) @ drop (length (ch (p_buf (sy_pipe s)))) (ch (h_Buffer h))\<rparr>\<rparr>))"

definition serve_query ::
  "platform \<Rightarrow> instant \<Rightarrow> instant \<Rightarrow> duration \<Rightarrow> endpoint \<Rightarrow> http_request \<Rightarrow> system \<Rightarrow> http_response \<times> system" where
  "serve_query pl now now2 took ep r s =
     (case query_serve (pl_unicode pl) (pl_decoder pl) (pl_encoder pl) now now2 took ep (query_view pl s) r of
        (resp, h) \<Rightarrow> (resp, s\<lparr>sy_audit := sv_Audit (qh_Svc h), sy_latencies := qh_latencies h\<rparr>))"

definition serve_metrics :: "(f64 \<Rightarrow> string) \<Rightarrow> system \<Rightarrow> http_response \<times> system" where
  "serve_metrics fmt_g s =
     (\<lparr>rs_status = 200, rs_headers = [(''Content-Type'', ''text/plain; version=0.0.4'')], rs_body = metrics_page fmt_g s\<rparr>,
      s\<lparr>sy_embed := snd (Lag (Since (sy_store s)) (sy_embed s))\<rparr>)"

definition main_serve ::
  "(f64 \<Rightarrow> string) \<Rightarrow> platform \<Rightarrow> json_decoder \<Rightarrow> instant \<Rightarrow> instant \<Rightarrow> duration \<Rightarrow> (nat \<Rightarrow> instant)
   \<Rightarrow> string \<Rightarrow> http_request \<Rightarrow> system \<Rightarrow> http_response option \<times> system" where
  "main_serve fmt_g pl jd now now2 took stamps path r s =
     (if path = ''/v1/ingest'' then serve_ingest jd now stamps r s
      else if path = ''/healthz'' then (Some \<lparr>rs_status = 200, rs_headers = [], rs_body = []\<rparr>, s)
      else if path = ''/metrics'' then apfst Some (serve_metrics fmt_g s)
      else (case route path of
              Some ep \<Rightarrow> apfst Some (serve_query pl now now2 took ep r s)
            | None \<Rightarrow> (Some (http_error [] ''404 page not found'' 404), s)))"

lemma serve_ingest_run:
  assumes "serve_ingest jd now stamps r s = (resp, s')"
  shows "sys_steps pl s s'"
proof -
  obtain h where run: "ServeHTTP jd now stamps (ingest_view s) r = (resp, h)"
    using assms by (auto simp: serve_ingest_def split: prod.splits)
  with ingest_run [OF run, of pl] assms show ?thesis by (auto simp: serve_ingest_def)
qed

lemma ingest_loop_open:
  "\<not> ch_closed b \<Longrightarrow> fst (ingest_loop rd t stamps i es (a, k) b) \<noteq> Panicked"
proof (induction es arbitrary: i a k b)
  case (Cons e es)
  show ?case
  proof (cases "Validate e")
    case None
    obtain r b' where pub: "Publish b (prepare rd t (stamps i) e) = Some (r, b')"
      using Cons.prems by (cases "Publish b (prepare rd t (stamps i) e)") (auto simp: Publish_def split: if_splits)
    then have "\<not> ch_closed b'" using Cons.prems by (auto elim!: Publish_cases)
    with Cons.IH None pub show ?thesis by (cases r) simp_all
  qed simp
qed simp

lemma serve_ingest_panics:
  assumes "serve_ingest jd now stamps r s = (None, s')"
  shows "ch_closed (p_buf (sy_pipe s))"
proof -
  have none: "fst (ServeHTTP jd now stamps (ingest_view s) r) = None"
    using assms by (auto simp: serve_ingest_def split: prod.splits)
  then obtain t es where "admitted jd now (ingest_view s) r t es"
    using ServeHTTP_rejected [of jd now "ingest_view s" r stamps] by auto
  from none [unfolded ServeHTTP_admitted [OF this]]
  have "loop_response (fst (ingest_loop (h_Redactor (ingest_view s)) t stamps 0 es (0, 0) (h_Buffer (ingest_view s)))) = None"
    by (auto split: prod.splits)
  then have "fst (ingest_loop (h_Redactor (ingest_view s)) t stamps 0 es (0, 0) (h_Buffer (ingest_view s))) = Panicked"
    by (auto elim!: loop_response.elims split: if_splits)
  then have "fst (ingest_loop (sy_redactor s) t stamps 0 es (0, 0) (p_buf (sy_pipe s))) = Panicked"
    by (simp add: ingest_view_def)
  then show ?thesis using ingest_loop_open by blast
qed

lemma serve_query_step: "sys_step pl s (snd (serve_query pl now now2 took ep r s))"
  using sys_step.queried [OF surjective_pairing] by (simp add: serve_query_def split_beta)

lemma serve_metrics_step: "sys_step pl s (snd (serve_metrics fmt_g s))"
  unfolding serve_metrics_def using sys_step.lag_read by simp

lemma serve_query_pipe [simp]: "sy_pipe (snd (serve_query pl now now2 took ep r s)) = sy_pipe s"
  by (simp add: serve_query_def split_beta)

lemma serve_metrics_pipe [simp]: "sy_pipe (snd (serve_metrics fmt_g s)) = sy_pipe s"
  by (simp add: serve_metrics_def)



end
