(* ===== verification/Lifecycle.thy ===== *)
theory Lifecycle
  imports Requests
begin

text \<open>
  The life of the process, from the lifecycle part of \<open>main\<close> in \<open>cmd/ingest/main.go\<close>: the goroutines
  it spawns, the requests in flight, the signal, and the sequence of the shutdown with its two
  time limits, which may fire at any time. A panic in a handler is recovered by package net/http
  and only ends the request; \<open>log.Fatalf\<close> ends the process.
\<close>

text \<open>
  A request in flight: an ingest request after decoding, with the tenant of its token and the
  entries that its loop still has to publish, or a query before it is answered.
\<close>

datatype in_flight = Ingesting string "log_entry list" | Querying endpoint http_request

text \<open>
  Where \<open>main\<close> is: waiting for the signal, in \<open>srv.Shutdown\<close>, before \<open>buf.Close()\<close>, before
  \<open>close(sweeperDone)\<close>, in the final select, returned (cleanly or by the time limit), or gone by
  \<open>log.Fatalf\<close>.
\<close>

datatype main_phase = Serving | StoppingHTTP | ClosingBuffer | ClosingSweeper | Waiting | Returned bool | Fatal

record proc =
  pr_sys :: system
  pr_main :: main_phase
  pr_accepting :: bool
  pr_inflight :: "in_flight list"
  pr_embed_done :: bool
  pr_anomaly_done :: bool
  pr_sweeper_done :: bool
  pr_sweeperDone_closed :: bool
  pr_timed_out :: bool
  pr_panics :: nat

text \<open>\<open>pr_timed_out\<close> and \<open>pr_panics\<close> only record that \<open>srv.Shutdown\<close> gave up and how many handlers panicked.\<close>

definition launch :: "system \<Rightarrow> proc" where
  "launch s = \<lparr>pr_sys = s, pr_main = Serving, pr_accepting = True, pr_inflight = [], pr_embed_done = False,
               pr_anomaly_done = False, pr_sweeper_done = False, pr_sweeperDone_closed = False,
               pr_timed_out = False, pr_panics = 0\<rparr>"

definition alive :: "proc \<Rightarrow> bool" where
  "alive p \<longleftrightarrow> (case pr_main p of Returned _ \<Rightarrow> False | Fatal \<Rightarrow> False | _ \<Rightarrow> True)"

abbreviation pr_pipe :: "proc \<Rightarrow> mem_store pipeline" where
  "pr_pipe p \<equiv> sy_pipe (pr_sys p)"

abbreviation set_pipe :: "proc \<Rightarrow> mem_store pipeline \<Rightarrow> proc" where
  "set_pipe p q \<equiv> p\<lparr>pr_sys := (pr_sys p)\<lparr>sy_pipe := q\<rparr>\<rparr>"

text \<open>
  One step of the life of the process. The requests: an ingest request passes authentication, limiter
  and decoding, or is refused; then it publishes entry by entry and is answered, or ends at an invalid
  entry or by a panic; a query waits and is answered; the metrics page is read. The goroutines: the
  writer moves, the workers tick and see the cancelled context (the embedding worker after a last
  tick), the sweeper ticks and sees its channel closed. And \<open>main\<close>: the signal cancels the context,
  \<open>srv.Shutdown\<close> stops accepting and waits for the requests in flight or gives up, then the two
  channels are closed, then \<open>wg.Wait()\<close> or the second time limit lets it return.
\<close>

inductive life_step :: "platform \<Rightarrow> json_decoder \<Rightarrow> proc \<Rightarrow> proc \<Rightarrow> bool" for pl jd where
  \<comment> \<open>requests\<close>
  ingest_admitted: "alive p \<Longrightarrow> pr_accepting p \<Longrightarrow> admitted jd now (ingest_view (pr_sys p)) r t es \<Longrightarrow>
     life_step pl jd p (p\<lparr>pr_sys := (pr_sys p)\<lparr>sy_limiter := snd (Allow (sy_limiter (pr_sys p)) now t)\<rparr>,
                          pr_inflight := pr_inflight p @ [Ingesting t es]\<rparr>)"
| ingest_refused: "alive p \<Longrightarrow> pr_accepting p \<Longrightarrow> \<nexists>t es. admitted jd now (ingest_view (pr_sys p)) r t es \<Longrightarrow>
     ServeHTTP jd now stamps (ingest_view (pr_sys p)) r = (resp, h) \<Longrightarrow>
     life_step pl jd p (p\<lparr>pr_sys := (pr_sys p)\<lparr>sy_limiter := h_Limiter h\<rparr>\<rparr>)"
| entry_published: "alive p \<Longrightarrow> pr_inflight p = xs @ Ingesting t (e # es) # ys \<Longrightarrow> Validate e = None \<Longrightarrow>
     x = prepare (sy_redactor (pr_sys p)) t now e \<Longrightarrow> Publish (p_buf (pr_pipe p)) x = Some (r, b) \<Longrightarrow>
     life_step pl jd p (p\<lparr>pr_sys := published (pr_sys p) x r b, pr_inflight := xs @ Ingesting t es # ys\<rparr>)"
| publish_panics: "alive p \<Longrightarrow> pr_inflight p = xs @ Ingesting t (e # es) # ys \<Longrightarrow> Validate e = None \<Longrightarrow>
     Publish (p_buf (pr_pipe p)) (prepare (sy_redactor (pr_sys p)) t now e) = None \<Longrightarrow>
     life_step pl jd p (p\<lparr>pr_inflight := xs @ ys, pr_panics := pr_panics p + 1\<rparr>)"
| entry_invalid: "alive p \<Longrightarrow> pr_inflight p = xs @ Ingesting t (e # es) # ys \<Longrightarrow> Validate e \<noteq> None \<Longrightarrow>
     life_step pl jd p (p\<lparr>pr_inflight := xs @ ys\<rparr>)"
| ingest_answered: "alive p \<Longrightarrow> pr_inflight p = xs @ Ingesting t [] # ys \<Longrightarrow>
     life_step pl jd p (p\<lparr>pr_inflight := xs @ ys\<rparr>)"
| query_arrives: "alive p \<Longrightarrow> pr_accepting p \<Longrightarrow>
     life_step pl jd p (p\<lparr>pr_inflight := pr_inflight p @ [Querying ep r]\<rparr>)"
| query_answered: "alive p \<Longrightarrow> pr_inflight p = xs @ Querying ep r # ys \<Longrightarrow>
     life_step pl jd p (p\<lparr>pr_sys := snd (serve_query pl now now2 took ep r (pr_sys p)), pr_inflight := xs @ ys\<rparr>)"
| metrics_read: "alive p \<Longrightarrow> pr_accepting p \<Longrightarrow>
     life_step pl jd p (p\<lparr>pr_sys := snd (serve_metrics fmt_g (pr_sys p))\<rparr>)"
  \<comment> \<open>goroutines\<close>
| writer_runs: "alive p \<Longrightarrow> writer_move WriteBatch (pr_pipe p) q \<Longrightarrow> life_step pl jd p (set_pipe p q)"
| embed_ticks: "alive p \<Longrightarrow> \<not> pr_embed_done p \<Longrightarrow>
     life_step pl jd p (p\<lparr>pr_sys := (pr_sys p)\<lparr>sy_embed :=
       embed_tick (main_embed pl) main_version Upsert now (Since (sy_store (pr_sys p))) (sy_embed (pr_sys p))\<rparr>\<rparr>)"
| embed_ends: "alive p \<Longrightarrow> \<not> pr_embed_done p \<Longrightarrow> p_cancelled (pr_pipe p) \<Longrightarrow>
     life_step pl jd p (p\<lparr>pr_sys := (pr_sys p)\<lparr>sy_embed :=
       embed_tick (main_embed pl) main_version Upsert now (Since (sy_store (pr_sys p))) (sy_embed (pr_sys p))\<rparr>,
       pr_embed_done := True\<rparr>)"
| anomaly_ticks: "alive p \<Longrightarrow> \<not> pr_anomaly_done p \<Longrightarrow> map_order ord \<Longrightarrow>
     life_step pl jd p (p\<lparr>pr_sys := (pr_sys p)\<lparr>sy_anomaly :=
       anomaly_tick (Since (sy_store (pr_sys p))) ord nows (sy_anomaly (pr_sys p))\<rparr>\<rparr>)"
| anomaly_ends: "alive p \<Longrightarrow> p_cancelled (pr_pipe p) \<Longrightarrow> life_step pl jd p (p\<lparr>pr_anomaly_done := True\<rparr>)"
| sweeper_ticks: "alive p \<Longrightarrow> \<not> pr_sweeper_done p \<Longrightarrow>
     life_step pl jd p (p\<lparr>pr_sys := (pr_sys p)\<lparr>sy_limiter := Sweep (sy_limiter (pr_sys p)) now\<rparr>\<rparr>)"
| sweeper_ends: "alive p \<Longrightarrow> pr_sweeperDone_closed p \<Longrightarrow> life_step pl jd p (p\<lparr>pr_sweeper_done := True\<rparr>)"
  \<comment> \<open>main\<close>
| signal: "alive p \<Longrightarrow> life_step pl jd p (set_pipe p ((pr_pipe p)\<lparr>p_cancelled := True\<rparr>))"
| shutdown_starts: "pr_main p = Serving \<Longrightarrow> p_cancelled (pr_pipe p) \<Longrightarrow>
     life_step pl jd p (p\<lparr>pr_main := StoppingHTTP, pr_accepting := False\<rparr>)"
| http_stopped: "pr_main p = StoppingHTTP \<Longrightarrow> pr_inflight p = [] \<Longrightarrow>
     life_step pl jd p (p\<lparr>pr_main := ClosingBuffer\<rparr>)"
| http_timeout: "pr_main p = StoppingHTTP \<Longrightarrow>
     life_step pl jd p (p\<lparr>pr_main := ClosingBuffer, pr_timed_out := True\<rparr>)"
| buffer_closed: "pr_main p = ClosingBuffer \<Longrightarrow> CloseBuffer (p_buf (pr_pipe p)) = Some b \<Longrightarrow>
     life_step pl jd p (set_pipe (p\<lparr>pr_main := ClosingSweeper\<rparr>) ((pr_pipe p)\<lparr>p_buf := b\<rparr>))"
| sweeper_stopped: "pr_main p = ClosingSweeper \<Longrightarrow>
     life_step pl jd p (p\<lparr>pr_main := Waiting, pr_sweeperDone_closed := True\<rparr>)"
| exits_clean: "pr_main p = Waiting \<Longrightarrow> w_phase (p_writer (pr_pipe p)) = Exited \<Longrightarrow> pr_embed_done p \<Longrightarrow>
     pr_anomaly_done p \<Longrightarrow> pr_sweeper_done p \<Longrightarrow> life_step pl jd p (p\<lparr>pr_main := Returned True\<rparr>)"
| exits_forced: "pr_main p = Waiting \<Longrightarrow> life_step pl jd p (p\<lparr>pr_main := Returned False\<rparr>)"
| server_fails: "alive p \<Longrightarrow> pr_accepting p \<Longrightarrow> life_step pl jd p (p\<lparr>pr_main := Fatal\<rparr>)"

inductive_cases life_stepE: "life_step pl jd p q"

abbreviation life_steps :: "platform \<Rightarrow> json_decoder \<Rightarrow> proc \<Rightarrow> proc \<Rightarrow> bool" where
  "life_steps pl jd \<equiv> (life_step pl jd)\<^sup>*\<^sup>*"

subsection \<open>The steps of the life are steps of the process model\<close>

lemma sys_step_fixed: "sys_step pl s s' \<Longrightarrow> sy_auth s' = sy_auth s \<and> sy_redactor s' = sy_redactor s"
  by (cases rule: sys_step.cases) (auto simp: published_def)

definition known_tenants :: "proc \<Rightarrow> bool" where
  "known_tenants p \<longleftrightarrow>
     (\<forall>t es. Ingesting t es \<in> set (pr_inflight p) \<longrightarrow> (\<exists>tok. Authenticate (sy_auth (pr_sys p)) tok = Some t))"

lemma life_step_simulates:
  assumes "life_step pl jd p p'" "known_tenants p"
  shows "(pr_sys p' = pr_sys p \<or> sys_step pl (pr_sys p) (pr_sys p')) \<and> known_tenants p'"
proof -
  have keep: "known_tenants p'" if "pr_sys p' = pr_sys p \<or> sys_step pl (pr_sys p) (pr_sys p')"
    "\<forall>t es. Ingesting t es \<in> set (pr_inflight p') \<longrightarrow>
       (\<exists>es'. Ingesting t es' \<in> set (pr_inflight p)) \<or> (\<exists>tok. Authenticate (sy_auth (pr_sys p)) tok = Some t)"
    using that assms(2) sys_step_fixed [of pl "pr_sys p" "pr_sys p'"] unfolding known_tenants_def by metis
  from assms(1) show ?thesis
  proof (cases rule: life_step.cases)
    case (ingest_admitted now r t es)
    then have "Authenticate (sy_auth (pr_sys p)) (bearerToken r) = Some t" by (simp add: admitted_def ingest_view_def)
    then show ?thesis using keep ingest_admitted(1) sys_step.limited [of "pr_sys p" "bearerToken r" t pl now] by auto
  next
    case (ingest_refused now r stamps resp h)
    have "h_Limiter h = sy_limiter (pr_sys p) \<or>
       (\<exists>t. Authenticate (sy_auth (pr_sys p)) (bearerToken r) = Some t \<and> h_Limiter h = snd (Allow (sy_limiter (pr_sys p)) now t))"
      using ingest_refused(5) by (auto simp: ServeHTTP_def ingest_view_def Let_def split: if_splits option.splits sum.splits prod.splits)
    then have "pr_sys p' = pr_sys p \<or> sys_step pl (pr_sys p) (pr_sys p')"
      using ingest_refused(1) sys_step.limited by auto
    then show ?thesis using keep ingest_refused(1) by auto
  next
    case (entry_published xs t e es ys x now r b)
    then obtain tok where "Authenticate (sy_auth (pr_sys p)) tok = Some t" using assms(2) by (auto simp: known_tenants_def)
    from sys_step.published [OF this entry_published(4,5,6), of pl] show ?thesis
      using keep entry_published(1,3) by auto
  next
    case (query_answered xs ep r ys now now2 took)
    from serve_query_step [of pl "pr_sys p" now now2 took ep r] show ?thesis using keep query_answered(1,3) by auto
  next
    case (metrics_read fmt_g)
    from serve_metrics_step [of pl "pr_sys p" fmt_g] show ?thesis using keep metrics_read(1) by auto
  next
    case (writer_runs q)
    then show ?thesis using keep sys_step.hot_path [of "pr_sys p" q pl] by (auto simp: writer_move_def)
  next
    case (embed_ticks now)
    then show ?thesis using keep sys_step.indexed [of pl "pr_sys p" now] by auto
  next
    case (embed_ends now)
    then show ?thesis using keep sys_step.indexed [of pl "pr_sys p" now] by auto
  next
    case (anomaly_ticks ord nows)
    then show ?thesis using keep sys_step.detected [of ord pl "pr_sys p" nows] by auto
  next
    case (sweeper_ticks now)
    then show ?thesis using keep sys_step.swept [of pl "pr_sys p" now] by auto
  next
    case signal
    then show ?thesis using keep sys_step.hot_path [of "pr_sys p" "(pr_pipe p)\<lparr>p_cancelled := True\<rparr>" pl] pstep.cancel by auto
  next
    case (buffer_closed b)
    then show ?thesis using keep sys_step.hot_path [of "pr_sys p" "(pr_pipe p)\<lparr>p_buf := b\<rparr>" pl]
        pstep.close [of "pr_pipe p" b WriteBatch] by auto
  qed (use keep in auto)
qed

subsection \<open>The order of the shutdown\<close>

fun stage :: "main_phase \<Rightarrow> nat" where
  "stage Serving = 0"
| "stage StoppingHTTP = 1"
| "stage ClosingBuffer = 2"
| "stage ClosingSweeper = 3"
| "stage Waiting = 4"
| "stage (Returned _) = 5"
| "stage Fatal = 0"

lemma alive_cases:
  assumes "alive p"
  obtains "pr_main p = Serving" | "pr_main p = StoppingHTTP" | "pr_main p = ClosingBuffer"
    | "pr_main p = ClosingSweeper" | "pr_main p = Waiting"
  using assms by (cases "pr_main p") (auto simp: alive_def)

definition ordered :: "proc \<Rightarrow> bool" where
  "ordered p \<longleftrightarrow>
     pr_accepting p = (stage (pr_main p) = 0) \<and>
     ch_closed (p_buf (pr_pipe p)) = (3 \<le> stage (pr_main p)) \<and>
     pr_sweeperDone_closed p = (4 \<le> stage (pr_main p)) \<and>
     (1 \<le> stage (pr_main p) \<longrightarrow> p_cancelled (pr_pipe p)) \<and>
     (2 \<le> stage (pr_main p) \<longrightarrow> pr_timed_out p \<or> pr_inflight p = []) \<and>
     (0 < pr_panics p \<longrightarrow> pr_timed_out p) \<and>
     (pr_main p = Returned True \<longrightarrow> w_phase (p_writer (pr_pipe p)) = Exited \<and> pr_embed_done p \<and>
        pr_anomaly_done p \<and> pr_sweeper_done p)"

lemma alive_not_returned: "alive p \<Longrightarrow> pr_main p \<noteq> Returned b"
  by (auto simp: alive_def)

lemma ordered_step:
  assumes "life_step pl jd p p'" "ordered p"
  shows "ordered p'"
  using assms(1)
proof (cases rule: life_step.cases)
  case (entry_published xs t e es ys x now r b)
  then have "pr_timed_out p \<or> stage (pr_main p) \<le> 1" using assms(2) by (auto simp: ordered_def)
  then show ?thesis
    using assms(2) Publish_keeps_open [OF entry_published(6)] alive_not_returned [OF entry_published(2)]
    by (auto simp: entry_published(1) ordered_def published_def)
next
  case (publish_panics xs t e es ys now)
  then have "3 \<le> stage (pr_main p)" "pr_inflight p \<noteq> []" using assms(2) by (auto simp: ordered_def Publish_None_iff)
  then show ?thesis
    using assms(2) alive_not_returned [OF publish_panics(2)] by (auto simp: publish_panics(1) ordered_def)
next
  case (writer_runs q)
  then show ?thesis
    using assms(2) alive_not_returned [OF writer_runs(2)] by (simp add: ordered_def writer_move_def)
next
  case (buffer_closed b)
  then show ?thesis using assms(2) by (auto simp: ordered_def CloseBuffer_def split: if_splits)
qed (use assms(2) alive_not_returned in \<open>simp_all add: ordered_def\<close>)

text \<open>What holds of the process at every moment of its life.\<close>

definition life_ok :: "platform \<Rightarrow> vector_store \<Rightarrow> proc \<Rightarrow> bool" where
  "life_ok pl v p \<longleftrightarrow> sys_ok pl (pr_sys p) \<and> sys_indexed pl v (pr_sys p) \<and> known_tenants p \<and> ordered p"

lemma life_step_ok:
  assumes "life_step pl jd p p'" "life_ok pl v p"
  shows "life_ok pl v p'"
  using assms life_step_simulates [OF assms(1)] ordered_step [OF assms(1)]
    sys_step_ok [of pl "pr_sys p" "pr_sys p'"] sys_step_indexed [of pl "pr_sys p" "pr_sys p'" v]
  unfolding life_ok_def by metis

lemma life_steps_ok: "life_steps pl jd p p' \<Longrightarrow> life_ok pl v p \<Longrightarrow> life_ok pl v p'"
  by (induction rule: rtranclp_induct) (auto intro: life_step_ok)

lemma life_steps_simulate:
  assumes "life_steps pl jd p p'" "life_ok pl v p"
  shows "sys_steps pl (pr_sys p) (pr_sys p')"
  using assms(1)
proof (induction rule: rtranclp_induct)
  case (step q r)
  have "known_tenants q" using life_steps_ok [OF step.hyps(1) assms(2)] by (simp add: life_ok_def)
  from life_step_simulates [OF step.hyps(2) this] step.IH show ?case
    by (auto intro: rtranclp.rtrancl_into_rtrancl)
qed simp

lemma launch_fields [simp]:
  "pr_sys (launch s) = s" "pr_main (launch s) = Serving" "pr_inflight (launch s) = []" "pr_panics (launch s) = 0"
  "pr_accepting (launch s)" "\<not> pr_timed_out (launch s)" "alive (launch s)"
  by (simp_all add: launch_def alive_def)

lemma launch_ok:
  assumes "startup parse_float pl E = Some s0"
    and "v = snd (seedKB (main_embed pl) main_version Upsert (NewKB, NewMemVector))"
  shows "life_ok pl v (launch s0)"
proof -
  have "ordered (launch s0)" "known_tenants (launch s0)"
    using startup_open [OF assms(1)] by (simp_all add: ordered_def known_tenants_def) (simp add: launch_def)
  with startup_ok [OF assms] show ?thesis by (simp add: life_ok_def)
qed

lemma reachable_life_ok:
  "startup parse_float pl E = Some s0 \<Longrightarrow> life_steps pl jd (launch s0) p \<Longrightarrow>
     life_ok pl (snd (seedKB (main_embed pl) main_version Upsert (NewKB, NewMemVector))) p"
  using life_steps_ok [OF _ launch_ok [OF _ refl]] by blast

subsection \<open>What the shutdown guarantees\<close>


lemma clean_exit:
  assumes ok: "life_ok pl v p" and "w_phase (p_writer (pr_pipe p)) \<noteq> Exited" "life_steps pl jd p q" "pr_main q = Returned True"
  shows "(\<exists>zs. stored_log (pr_pipe q) = p_accepted (pr_pipe p) @ zs) \<and>
    p_accepted (pr_pipe q) = stored_log (pr_pipe q) @ ch (p_buf (pr_pipe q)) \<and>
    pr_embed_done q \<and> pr_anomaly_done q \<and> pr_sweeper_done q"
proof -
  note ok' = life_steps_ok [OF assms(3) ok]
  have sys: "sys_ok pl (pr_sys p)" "sys_ok pl (pr_sys q)" using ok ok' by (simp_all add: life_ok_def)
  have ended: "w_phase (p_writer (pr_pipe q)) = Exited" "pr_embed_done q" "pr_anomaly_done q" "pr_sweeper_done q"
    using ok' assms(4) by (simp_all add: life_ok_def ordered_def)
  have "main_steps (pr_pipe p) (pr_pipe q)" using sys_steps_pipe [OF life_steps_simulate [OF assms(3) ok]] .
  from mem_sink.accepted_before_exit [OF this _ _ assms(2) ended(1)] sys(1)
  have "\<exists>zs. stored_log (pr_pipe q) = filter Redacted (p_accepted (pr_pipe p)) @ zs"
    by (simp add: sys_ok_def stored_log_def)
  moreover have "filter Redacted (p_accepted (pr_pipe p)) = p_accepted (pr_pipe p)"
    using sys(1) legit_facts(1) by (auto simp: sys_ok_def list_all_iff filter_id_conv)
  moreover have "w_batch (p_writer (pr_pipe q)) = []"
    using sys(2) ended(1) by (simp add: sys_ok_def mem_sink.pipe_inv_def)
  ultimately show ?thesis using sys_ok_hot_path [OF sys(2)] ended by simp
qed

text \<open>
  C13. A clean exit loses nothing that was accepted before the writer returned: if \<open>main\<close> returns after
  \<open>wg.Wait()\<close>, the store holds, in order, everything accepted up to any moment at which the writer
  had not yet returned; what it does not hold, was accepted later and is still queued, and the
  workers and the sweeper have ended.
\<close>

theorem clean_exit_keeps_accepted:
  assumes "startup parse_float pl E = Some s0" "life_steps pl jd (launch s0) p"
    and "w_phase (p_writer (pr_pipe p)) \<noteq> Exited" "life_steps pl jd p q" "pr_main q = Returned True"
  shows "(\<exists>zs. stored_log (pr_pipe q) = p_accepted (pr_pipe p) @ zs) \<and>
    p_accepted (pr_pipe q) = stored_log (pr_pipe q) @ ch (p_buf (pr_pipe q)) \<and>
    pr_embed_done q \<and> pr_anomaly_done q \<and> pr_sweeper_done q"
  by (rule clean_exit [OF reachable_life_ok [OF assms(1,2)] assms(3-5)])

subsection \<open>The shutdown completes\<close>

text \<open>A run that leaves alone what only \<open>main\<close>, a time limit or a panic changes.\<close>

definition same_control :: "proc \<Rightarrow> proc \<Rightarrow> bool" where
  "same_control p q \<longleftrightarrow> pr_main q = pr_main p \<and> pr_accepting q = pr_accepting p \<and>
     pr_sweeperDone_closed q = pr_sweeperDone_closed p \<and> pr_timed_out q = pr_timed_out p \<and>
     pr_panics q = pr_panics p \<and> p_cancelled (pr_pipe q) = p_cancelled (pr_pipe p) \<and>
     ch_closed (p_buf (pr_pipe q)) = ch_closed (p_buf (pr_pipe p))"

lemma same_control_refl [simp]: "same_control p p"
  by (simp add: same_control_def)

lemma same_control_trans: "same_control p q \<Longrightarrow> same_control q r \<Longrightarrow> same_control p r"
  by (simp add: same_control_def)

lemma same_control_alive: "same_control p q \<Longrightarrow> alive q = alive p"
  by (simp add: same_control_def alive_def)

text \<open>Each request in flight can be brought to its end.\<close>

fun work :: "in_flight \<Rightarrow> nat" where
  "work (Ingesting t es) = Suc (length es)"
| "work (Querying ep r) = 1"

lemma request_moves:
  assumes "alive p" "pr_inflight p = f # fs" "\<not> ch_closed (p_buf (pr_pipe p))"
  shows "\<exists>q. life_step pl jd p q \<and> same_control p q \<and> w_phase (p_writer (pr_pipe q)) = w_phase (p_writer (pr_pipe p)) \<and>
    sum_list (map work (pr_inflight q)) < sum_list (map work (pr_inflight p))"
proof (cases f)
  case (Querying ep r)
  with life_step.query_answered [OF assms(1), of "[]" ep r fs pl jd 0 0 0] assms(2) show ?thesis
    by (auto simp: same_control_def intro!: exI)
next
  case (Ingesting t es)
  show ?thesis
  proof (cases es)
    case Nil
    with life_step.ingest_answered [OF assms(1), of "[]" t fs pl jd] assms(2) Ingesting show ?thesis
      by (auto simp: same_control_def intro!: exI)
  next
    case (Cons e rest)
    show ?thesis
    proof (cases "Validate e")
      case (Some err)
      with life_step.entry_invalid [OF assms(1), of "[]" t e rest fs pl jd] assms(2) Ingesting Cons show ?thesis
        by (auto simp: same_control_def intro!: exI)
    next
      case None
      let ?x = "prepare (sy_redactor (pr_sys p)) t 0 e"
      obtain r b where pub: "Publish (p_buf (pr_pipe p)) ?x = Some (r, b)"
        using assms(3) Publish_None_iff [of "p_buf (pr_pipe p)" ?x] by fastforce
      let ?q = "p\<lparr>pr_sys := published (pr_sys p) ?x r b, pr_inflight := [] @ Ingesting t rest # fs\<rparr>"
      have "life_step pl jd p ?q"
        using assms(2) Ingesting Cons by (intro life_step.entry_published [OF assms(1) _ None refl pub]) simp
      moreover have "same_control p ?q" "w_phase (p_writer (pr_pipe ?q)) = w_phase (p_writer (pr_pipe p))"
        using Publish_keeps_open [OF pub] by (simp_all add: same_control_def published_def)
      moreover have "sum_list (map work (pr_inflight ?q)) < sum_list (map work (pr_inflight p))"
        using assms(2) Ingesting Cons by simp
      ultimately show ?thesis by blast
    qed
  qed
qed

lemma requests_finish:
  assumes "alive p" "\<not> ch_closed (p_buf (pr_pipe p))"
  shows "\<exists>q. life_steps pl jd p q \<and> same_control p q \<and> w_phase (p_writer (pr_pipe q)) = w_phase (p_writer (pr_pipe p)) \<and>
    pr_inflight q = []"
  using assms
proof (induction "sum_list (map work (pr_inflight p))" arbitrary: p rule: less_induct)
  case less
  show ?case
  proof (cases "pr_inflight p")
    case Nil
    then show ?thesis by (intro exI [of _ p]) simp
  next
    case (Cons f fs)
    from request_moves [OF less.prems(1) Cons less.prems(2)] obtain q where
      q: "life_step pl jd p q" "same_control p q" "w_phase (p_writer (pr_pipe q)) = w_phase (p_writer (pr_pipe p))"
      "sum_list (map work (pr_inflight q)) < sum_list (map work (pr_inflight p))" by blast
    have alive: "alive q" using same_control_alive [OF q(2)] less.prems(1) by simp
    have "\<not> ch_closed (p_buf (pr_pipe q))" using q(2) less.prems(2) by (simp add: same_control_def)
    from less.hyps [OF q(4) alive this] obtain q' where
      q': "life_steps pl jd q q'" "same_control q q'" and
      fin: "w_phase (p_writer (pr_pipe q')) = w_phase (p_writer (pr_pipe q))" "pr_inflight q' = []" by blast
    have "life_steps pl jd p q'" using q(1) q'(1) by (rule converse_rtranclp_into_rtranclp)
    moreover have "same_control p q'" using q(2) q'(2) by (rule same_control_trans)
    ultimately show ?thesis using fin q(3) by (intro exI [of _ q']) simp
  qed
qed

text \<open>The writer's own steps are steps of the process.\<close>

lemma writer_run:
  "(writer_move WriteBatch)\<^sup>*\<^sup>* (pr_pipe p) q \<Longrightarrow> alive p \<Longrightarrow> life_steps pl jd p (set_pipe p q)"
proof (induction rule: rtranclp_induct)
  case (step q q')
  have "life_step pl jd (set_pipe p q) (set_pipe (set_pipe p q) q')"
    using step by (intro life_step.writer_runs) (simp_all add: alive_def)
  with step show ?case by (simp add: rtranclp.rtrancl_into_rtrancl)
qed simp

lemma writer_ends:
  assumes "mem_sink.pipe_inv s" "p_cancelled s"
  shows "\<exists>s'. (writer_move WriteBatch)\<^sup>*\<^sup>* s s' \<and> w_phase (p_writer s') = Exited \<and>
    (w_phase (p_writer s) \<noteq> Exited \<longrightarrow> ch (p_buf s') = [])"
proof (cases "w_phase (p_writer s)")
  case Draining
  from mem_sink.drain_completes [OF assms(1) this] show ?thesis by blast
next
  case Running
  let ?s = "s\<lparr>p_writer := on_cancelled (p_writer s)\<rparr>"
  have step: "pstep WriteBatch s ?s" using Running assms(2) by (rule pstep.see_cancelled)
  then have "writer_move WriteBatch s ?s" by (simp add: writer_move_def)
  moreover from mem_sink.drain_completes [OF mem_sink.pstep_pipe_inv [OF step assms(1)]]
  obtain s' where "(writer_move WriteBatch)\<^sup>*\<^sup>* ?s s'" "w_phase (p_writer s') = Exited" "ch (p_buf s') = []"
    by (auto simp: on_cancelled_def)
  ultimately show ?thesis by (meson converse_rtranclp_into_rtranclp)
qed (intro exI [of _ s], simp)

definition calm :: "proc \<Rightarrow> proc \<Rightarrow> bool" where
  "calm p q \<longleftrightarrow> pr_panics q = pr_panics p \<and> pr_timed_out q = pr_timed_out p \<and>
     w_phase (p_writer (pr_pipe q)) = w_phase (p_writer (pr_pipe p))"

definition reaches_waiting :: "platform \<Rightarrow> json_decoder \<Rightarrow> proc \<Rightarrow> bool" where
  "reaches_waiting pl jd p \<longleftrightarrow> (\<exists>q. life_steps pl jd p q \<and> pr_main q = Waiting \<and> calm p q)"

lemma waiting_after: "life_steps pl jd p q \<Longrightarrow> calm p q \<Longrightarrow> reaches_waiting pl jd q \<Longrightarrow> reaches_waiting pl jd p"
  unfolding reaches_waiting_def calm_def by (metis rtranclp_trans)

lemma closing_sweeper_waits: "pr_main p = ClosingSweeper \<Longrightarrow> reaches_waiting pl jd p"
  using r_into_rtranclp [of "life_step pl jd", OF life_step.sweeper_stopped [of p]]
  by (auto simp: reaches_waiting_def calm_def intro!: exI [of _ "p\<lparr>pr_main := Waiting, pr_sweeperDone_closed := True\<rparr>"])

lemma closing_buffer_waits:
  assumes "pr_main p = ClosingBuffer" "\<not> ch_closed (p_buf (pr_pipe p))"
  shows "reaches_waiting pl jd p"
proof -
  have "CloseBuffer (p_buf (pr_pipe p)) = Some ((p_buf (pr_pipe p))\<lparr>ch_closed := True\<rparr>)"
    using assms(2) by (simp add: CloseBuffer_def)
  from life_step.buffer_closed [OF assms(1) this, of pl jd] show ?thesis
    by (rule waiting_after [OF r_into_rtranclp [of "life_step pl jd"]]) (simp_all add: calm_def closing_sweeper_waits)
qed

lemma stopping_waits:
  assumes "pr_main p = StoppingHTTP" "\<not> ch_closed (p_buf (pr_pipe p))"
  shows "reaches_waiting pl jd p"
proof -
  have "alive p" using assms(1) by (simp add: alive_def)
  from requests_finish [OF this assms(2)] obtain q where
    q: "life_steps pl jd p q" "same_control p q" "w_phase (p_writer (pr_pipe q)) = w_phase (p_writer (pr_pipe p))"
      "pr_inflight q = []" by blast
  have c: "calm p q" using q(2,3) by (simp add: calm_def same_control_def)
  have main: "pr_main q = StoppingHTTP" "\<not> ch_closed (p_buf (pr_pipe q))" using q(2) assms by (simp_all add: same_control_def)
  from life_step.http_stopped [OF main(1) q(4), of pl jd]
  have "reaches_waiting pl jd q"
    by (rule waiting_after [OF r_into_rtranclp [of "life_step pl jd"]])
      (use main(2) in \<open>simp_all add: calm_def closing_buffer_waits\<close>)
  with waiting_after [OF q(1) c] show ?thesis .
qed

lemma serving_waits:
  assumes "pr_main p = Serving" "\<not> ch_closed (p_buf (pr_pipe p))"
  shows "reaches_waiting pl jd p"
proof -
  let ?p = "set_pipe p ((pr_pipe p)\<lparr>p_cancelled := True\<rparr>)"
  have "alive p" using assms(1) by (simp add: alive_def)
  then have one: "life_step pl jd p ?p" by (rule life_step.signal)
  have two: "life_step pl jd ?p (?p\<lparr>pr_main := StoppingHTTP, pr_accepting := False\<rparr>)"
    by (rule life_step.shutdown_starts) (simp_all add: assms(1))
  have "reaches_waiting pl jd ?p"
    by (rule waiting_after [OF r_into_rtranclp [of "life_step pl jd", OF two]])
      (use assms(2) in \<open>simp_all add: calm_def stopping_waits\<close>)
  then show ?thesis
    by (rule waiting_after [OF r_into_rtranclp [of "life_step pl jd", OF one], rotated]) (simp add: calm_def)
qed

lemma alive_waits:
  assumes "life_ok pl v p" "alive p"
  shows "reaches_waiting pl jd p"
  using assms(2)
proof (cases rule: alive_cases)
  case 5
  then show ?thesis by (auto simp: reaches_waiting_def calm_def)
qed (use assms(1) in \<open>auto simp: life_ok_def ordered_def intro: serving_waits stopping_waits closing_buffer_waits
       closing_sweeper_waits\<close>)

lemma goroutines_end:
  assumes "pr_main p = Waiting" "p_cancelled (pr_pipe p)" "pr_sweeperDone_closed p"
  shows "\<exists>q. life_steps pl jd p q \<and> pr_main q = Waiting \<and> pr_embed_done q \<and> pr_anomaly_done q \<and> pr_sweeper_done q \<and>
    pr_panics q = pr_panics p \<and> pr_timed_out q = pr_timed_out p \<and> pr_pipe q = pr_pipe p"
proof -
  have alive: "alive p" using assms(1) by (simp add: alive_def)
  have "\<exists>q1. life_steps pl jd p q1 \<and> pr_main q1 = Waiting \<and> pr_embed_done q1 \<and> pr_sweeperDone_closed q1 \<and>
      pr_panics q1 = pr_panics p \<and> pr_timed_out q1 = pr_timed_out p \<and> pr_pipe q1 = pr_pipe p"
  proof (cases "pr_embed_done p")
    case False
    from life_step.embed_ends [OF alive this assms(2), of pl jd 0] assms show ?thesis
      by (intro exI conjI) (erule r_into_rtranclp, simp_all)
  qed (use assms in \<open>auto intro!: exI [of _ p]\<close>)
  then obtain q1 where q1: "life_steps pl jd p q1" "pr_main q1 = Waiting" "pr_embed_done q1" "pr_sweeperDone_closed q1"
    "pr_panics q1 = pr_panics p" "pr_timed_out q1 = pr_timed_out p" "pr_pipe q1 = pr_pipe p" by blast
  let ?q2 = "q1\<lparr>pr_anomaly_done := True\<rparr>"
  have "life_step pl jd q1 ?q2" using q1 assms by (intro life_step.anomaly_ends) (simp_all add: alive_def)
  moreover have "life_step pl jd ?q2 (?q2\<lparr>pr_sweeper_done := True\<rparr>)"
    using q1 by (intro life_step.sweeper_ends) (simp_all add: alive_def)
  ultimately have "life_steps pl jd p (?q2\<lparr>pr_sweeper_done := True\<rparr>)"
    using q1(1) by (meson rtranclp.rtrancl_into_rtrancl)
  with q1 show ?thesis by (intro exI [of _ "?q2\<lparr>pr_sweeper_done := True\<rparr>"]) simp
qed

lemma waiting_returns:
  assumes "life_ok pl v p" "pr_main p = Waiting"
  shows "\<exists>q. life_steps pl jd p q \<and> pr_main q = Returned True \<and> pr_panics q = pr_panics p \<and>
    pr_timed_out q = pr_timed_out p \<and>
    (w_phase (p_writer (pr_pipe p)) \<noteq> Exited \<longrightarrow> ch (p_buf (pr_pipe q)) = [])"
proof -
  have ok: "mem_sink.pipe_inv (pr_pipe p)" "p_cancelled (pr_pipe p)" "pr_sweeperDone_closed p"
    using assms by (simp_all add: life_ok_def sys_ok_def ordered_def)
  from writer_ends [OF ok(1,2)] obtain s where
    s: "(writer_move WriteBatch)\<^sup>*\<^sup>* (pr_pipe p) s" "w_phase (p_writer s) = Exited"
      "w_phase (p_writer (pr_pipe p)) \<noteq> Exited \<longrightarrow> ch (p_buf s) = []" by blast
  have run: "life_steps pl jd p (set_pipe p s)" using writer_run [OF s(1)] assms(2) by (simp add: alive_def)
  have "\<exists>q. life_steps pl jd (set_pipe p s) q \<and> pr_main q = Waiting \<and> pr_embed_done q \<and> pr_anomaly_done q \<and>
      pr_sweeper_done q \<and> pr_panics q = pr_panics (set_pipe p s) \<and> pr_timed_out q = pr_timed_out (set_pipe p s) \<and>
      pr_pipe q = pr_pipe (set_pipe p s)"
    by (rule goroutines_end) (use writer_moves_keep [OF s(1)] assms(2) ok in simp_all)
  then obtain q where q: "life_steps pl jd (set_pipe p s) q" "pr_main q = Waiting" "pr_embed_done q" "pr_anomaly_done q"
      "pr_sweeper_done q" and same: "pr_panics q = pr_panics p" "pr_timed_out q = pr_timed_out p" "pr_pipe q = s" by auto
  have "life_step pl jd q (q\<lparr>pr_main := Returned True\<rparr>)" using q s(2) same by (intro life_step.exits_clean) simp_all
  then have "life_steps pl jd p (q\<lparr>pr_main := Returned True\<rparr>)"
    using run q(1) by (meson rtranclp.rtrancl_into_rtrancl rtranclp_trans)
  with same s(3) show ?thesis by (intro exI [of _ "q\<lparr>pr_main := Returned True\<rparr>"]) simp
qed

lemma shutdown_run:
  assumes ok: "life_ok pl v p" and alive: "alive p"
  shows "\<exists>q. life_steps pl jd p q \<and> pr_main q = Returned True \<and> pr_panics q = pr_panics p \<and>
    pr_timed_out q = pr_timed_out p \<and>
    (w_phase (p_writer (pr_pipe p)) \<noteq> Exited \<longrightarrow>
       stored_log (pr_pipe q) = p_accepted (pr_pipe q) \<and>
       (\<exists>new. p_accepted (pr_pipe q) = p_accepted (pr_pipe p) @ new))"
proof -
  from alive_waits [OF ok alive, of jd] obtain p1 where
    p1: "life_steps pl jd p p1" "pr_main p1 = Waiting" "calm p p1" by (auto simp: reaches_waiting_def)
  note ok1 = life_steps_ok [OF p1(1) ok]
  from waiting_returns [OF ok1 p1(2), of jd] obtain q where
    q: "life_steps pl jd p1 q" "pr_main q = Returned True" "pr_panics q = pr_panics p1"
      "pr_timed_out q = pr_timed_out p1"
      "w_phase (p_writer (pr_pipe p1)) \<noteq> Exited \<longrightarrow> ch (p_buf (pr_pipe q)) = []" by blast
  have run: "life_steps pl jd p q" using p1(1) q(1) by (rule rtranclp_trans)
  have "stored_log (pr_pipe q) = p_accepted (pr_pipe q) \<and> (\<exists>new. p_accepted (pr_pipe q) = p_accepted (pr_pipe p) @ new)"
    if "w_phase (p_writer (pr_pipe p)) \<noteq> Exited"
    using clean_exit [OF ok that run q(2)] q(5) p1(3) that by (auto simp: calm_def)
  with run q(2-4) p1(3) show ?thesis by (intro exI [of _ q]) (simp add: calm_def)
qed

text \<open>
  C12. The shutdown can always complete: from every state of the running process, whatever is in flight
  or queued and whoever waits, there is a run in which \<open>main\<close> returns after all goroutines have
  ended, without a further panic or time limit; and if the writer had not returned yet, then the
  store ends up with everything that was ever accepted.
\<close>

theorem shutdown_completes:
  assumes "startup parse_float pl E = Some s0" "life_steps pl jd (launch s0) p" "alive p"
  shows "\<exists>q. life_steps pl jd p q \<and> pr_main q = Returned True \<and> pr_panics q = pr_panics p \<and>
    pr_timed_out q = pr_timed_out p \<and>
    (w_phase (p_writer (pr_pipe p)) \<noteq> Exited \<longrightarrow>
       stored_log (pr_pipe q) = p_accepted (pr_pipe q) \<and>
       (\<exists>new. p_accepted (pr_pipe q) = p_accepted (pr_pipe p) @ new))"
  by (rule shutdown_run [OF reachable_life_ok [OF assms(1,2)] assms(3)])

text \<open>
  The life of the process refines its steps: along every run of the lifecycle, from the launch to the
  return of \<open>main\<close>, the state is one that \<open>sys_step\<close> reaches, so all theorems about reachable states
  hold during start-up, service and shutdown.
\<close>

theorem lifecycle_refines:
  assumes "startup parse_float pl E = Some s0" "life_steps pl jd (launch s0) p"
  shows "sys_steps pl s0 (pr_sys p)"
  using life_steps_simulate [OF assms(2) launch_ok [OF assms(1) refl]] by simp

subsection \<open>A request that is too slow\<close>

lemma stopping_panics:
  assumes "pr_main p = StoppingHTTP" "\<not> ch_closed (p_buf (pr_pipe p))"
    and "Ingesting t (e # es) \<in> set (pr_inflight p)" "Validate e = None"
  shows "\<exists>q. life_steps pl jd p q \<and> pr_panics q = pr_panics p + 1 \<and> p_accepted (pr_pipe q) = p_accepted (pr_pipe p)"
proof -
  obtain xs ys where f: "pr_inflight p = xs @ Ingesting t (e # es) # ys" using assms(3) by (meson split_list)
  let ?p1 = "p\<lparr>pr_main := ClosingBuffer, pr_timed_out := True\<rparr>"
  let ?p2 = "set_pipe (?p1\<lparr>pr_main := ClosingSweeper\<rparr>) ((pr_pipe ?p1)\<lparr>p_buf := (p_buf (pr_pipe p))\<lparr>ch_closed := True\<rparr>\<rparr>)"
  let ?p3 = "?p2\<lparr>pr_inflight := xs @ ys, pr_panics := pr_panics ?p2 + 1\<rparr>"
  have one: "life_step pl jd p ?p1" using assms(1) by (rule life_step.http_timeout)
  have two: "life_step pl jd ?p1 ?p2" using assms(2) by (intro life_step.buffer_closed) (simp_all add: CloseBuffer_def)
  have three: "life_step pl jd ?p2 ?p3"
    by (rule life_step.publish_panics [where xs = xs and t = t and e = e and es = es and ys = ys and now = 0]) (simp_all add: f assms(4) alive_def Publish_None_iff)
  have "life_steps pl jd p ?p3" using one two three by (meson converse_rtranclp_into_rtranclp r_into_rtranclp)
  then show ?thesis by (intro exI [of _ ?p3]) simp
qed

text \<open>
  C32. The shutdown closes the channel under handlers that are still running: whenever a request has
  a valid entry left to publish before the channel is closed, the shutdown can run into its limit
  so that this request panics, and its entry is not accepted.
\<close>

theorem slow_request_panics:
  assumes "startup parse_float pl E = Some s0" "life_steps pl jd (launch s0) p"
    and "pr_main p = Serving \<or> pr_main p = StoppingHTTP"
    and "Ingesting t (e # es) \<in> set (pr_inflight p)" "Validate e = None"
  shows "\<exists>q. life_steps pl jd p q \<and> pr_panics q = pr_panics p + 1 \<and> p_accepted (pr_pipe q) = p_accepted (pr_pipe p)"
proof -
  have opened: "\<not> ch_closed (p_buf (pr_pipe p))"
    using reachable_life_ok [OF assms(1,2)] assms(3) by (auto simp: life_ok_def ordered_def)
  show ?thesis
  proof (cases "pr_main p = Serving")
    case True
    let ?p1 = "set_pipe p ((pr_pipe p)\<lparr>p_cancelled := True\<rparr>)"
    let ?p2 = "?p1\<lparr>pr_main := StoppingHTTP, pr_accepting := False\<rparr>"
    have one: "life_step pl jd p ?p1" using True by (intro life_step.signal) (simp add: alive_def)
    have two: "life_step pl jd ?p1 ?p2" by (rule life_step.shutdown_starts) (simp_all add: True)
    have "\<exists>q. life_steps pl jd ?p2 q \<and> pr_panics q = pr_panics ?p2 + 1 \<and> p_accepted (pr_pipe q) = p_accepted (pr_pipe ?p2)"
      by (rule stopping_panics [OF _ _ _ assms(5)]) (use opened assms(4) in simp_all)
    then obtain q where q: "life_steps pl jd ?p2 q" "pr_panics q = pr_panics p + 1" "p_accepted (pr_pipe q) = p_accepted (pr_pipe p)"
      by auto
    have "life_steps pl jd p q"
      using one two q(1) by (meson converse_rtranclp_into_rtranclp)
    with q show ?thesis by blast
  next
    case False
    with stopping_panics [OF _ opened assms(4,5)] assms(3) show ?thesis by blast
  qed
qed

subsection \<open>A concrete life\<close>

text \<open>A request of tenant globex with two entries, of which the first has been published.\<close>

definition globex_request :: http_request where
  "globex_request = \<lparr>rq_method = ''POST'', rq_authorization = ''Bearer globex-token'', rq_body = ''[]'',
                     rq_body_error = None\<rparr>"

lemma globex_admitted:
  assumes "startup parse_float pl Map.empty = Some s0"
  shows "admitted (reads_as es) 0 (ingest_view s0) globex_request ''globex'' es"
proof -
  have t: "trim_space ''[]'' = ''[]''" "trim_space ''globex-token'' = ''globex-token''"
    by (rule trim_space_inner; simp add: in_range_def)+
  have s0: "sy_limiter s0 = NewLimiter (RatePerTenant (Load parse_float Map.empty)) (BurstPerTenant (Load parse_float Map.empty))"
    "sy_auth s0 = main_auth" "MaxBodyBytes (sy_config s0) = 2 ^ 20"
    using assms by (auto simp: startup_def Let_def split: option.splits prod.splits) (simp add: Load_def envInt_def)
  have "bearerToken globex_request = ''globex-token''" "read_all globex_request (MaxBodyBytes (sy_config s0)) = Inr ''[]''"
    by (simp_all add: globex_request_def bearerToken_def has_prefix_def read_all_def t s0)
  moreover have "decodeEntries (reads_as es) (Inr ''[]'') = Inr es"
    by (simp add: decodeEntries_def t reads_as_def)
  moreover have "Authenticate main_auth ''globex-token'' = Some ''globex''"
    by (simp add: main_auth_def AddToken_def Authenticate_iff)
  moreover have "fst (Allow (sy_limiter s0) 0 ''globex'')" by (simp add: s0 Allow_def NewLimiter_def)
  ultimately show ?thesis by (simp add: admitted_def ingest_view_def s0 globex_request_def)
qed

lemma demo_life_exists:
  "\<exists>s0 p. startup parse_float demo_platform Map.empty = Some s0 \<and>
     life_steps demo_platform (reads_as [web_entry ''m'', web_entry ''m'']) (launch s0) p \<and>
     pr_main p = Serving \<and> pr_inflight p = [Ingesting ''globex'' [web_entry ''m'']] \<and> pr_panics p = 0 \<and>
     p_accepted (pr_pipe p) = [sent_entry] \<and> w_phase (p_writer (pr_pipe p)) = Running"
proof -
  from default_startup [of parse_float] obtain s0 where s0: "startup parse_float demo_platform Map.empty = Some s0"
    "p_buf (sy_pipe s0) = \<lparr>ch = [], ch_cap = 10000, ch_closed = False, accepted = 0, shed = 0\<rparr>"
    "p_accepted (sy_pipe s0) = []" "w_phase (p_writer (sy_pipe s0)) = Running" by force
  let ?es = "[web_entry ''m'', web_entry ''m'']"
  let ?s1 = "s0\<lparr>sy_limiter := snd (Allow (sy_limiter s0) 0 ''globex'')\<rparr>"
  let ?p1 = "(launch s0)\<lparr>pr_sys := ?s1, pr_inflight := [] @ [Ingesting ''globex'' ?es]\<rparr>"
  have one: "life_step demo_platform (reads_as ?es) (launch s0) ?p1"
    using life_step.ingest_admitted [of "launch s0" "reads_as ?es" 0 globex_request "''globex''" ?es demo_platform]
      globex_admitted [OF s0(1)] by simp
  have fixed: "sy_redactor s0 = NewRedactor" using startup_ok [OF s0(1) refl] by (simp add: sys_ok_def)
  obtain b where pub: "Publish (p_buf (sy_pipe s0)) sent_entry = Some (None, b)"
    by (simp add: s0(2) Publish_def)
  let ?p2 = "?p1\<lparr>pr_sys := published (pr_sys ?p1) sent_entry None b, pr_inflight := [] @ Ingesting ''globex'' [web_entry ''m''] # []\<rparr>"
  have two: "life_step demo_platform (reads_as ?es) ?p1 ?p2"
    by (rule life_step.entry_published [where now = 5])
      (use pub in \<open>simp_all add: fixed sent_entry_def web_entry_def Validate_def alive_def launch_def\<close>)
  have "life_steps demo_platform (reads_as ?es) (launch s0) ?p2" using one two by (meson converse_rtranclp_into_rtranclp r_into_rtranclp)
  with s0 show ?thesis by (intro exI [of _ s0] exI [of _ ?p2]) (simp add: published_def)
qed


theorem clean_exit_keeps_accepted_witness:
  "\<exists>s0 q zs. startup (\<lambda>_. None) demo_platform Map.empty = Some s0 \<and>
     life_steps demo_platform (reads_as [web_entry ''m'', web_entry ''m'']) (launch s0) q \<and>
     pr_main q = Returned True \<and> stored_log (pr_pipe q) = sent_entry # zs"
proof -
  from demo_life_exists obtain s0 p where run: "startup (\<lambda>_. None) demo_platform Map.empty = Some s0"
    "life_steps demo_platform (reads_as [web_entry ''m'', web_entry ''m'']) (launch s0) p" "pr_main p = Serving"
    "p_accepted (pr_pipe p) = [sent_entry]" "w_phase (p_writer (pr_pipe p)) = Running" by blast
  have "alive p" using run(3) by (simp add: alive_def)
  from shutdown_run [OF reachable_life_ok [OF run(1,2)] this] obtain q where
    q: "life_steps demo_platform (reads_as [web_entry ''m'', web_entry ''m'']) p q" "pr_main q = Returned True" by blast
  have "w_phase (p_writer (pr_pipe p)) \<noteq> Exited" using run(5) by simp
  from clean_exit_keeps_accepted [OF run(1,2) this q] run(4) obtain zs where "stored_log (pr_pipe q) = sent_entry # zs" by auto
  with run(1) q(2) rtranclp_trans [OF run(2) q(1)] show ?thesis by blast
qed

theorem shutdown_completes_witness:
  "\<exists>s0 q. startup (\<lambda>_. None) demo_platform Map.empty = Some s0 \<and>
     life_steps demo_platform (reads_as [web_entry ''m'', web_entry ''m'']) (launch s0) q \<and>
     pr_main q = Returned True \<and> pr_panics q = 0 \<and> sent_entry \<in> set (stored_log (pr_pipe q))"
proof -
  from demo_life_exists obtain s0 p where run: "startup (\<lambda>_. None) demo_platform Map.empty = Some s0"
    "life_steps demo_platform (reads_as [web_entry ''m'', web_entry ''m'']) (launch s0) p" "pr_main p = Serving"
    "p_accepted (pr_pipe p) = [sent_entry]" "w_phase (p_writer (pr_pipe p)) = Running" "pr_panics p = 0" by blast
  have "alive p" using run(3) by (simp add: alive_def)
  from shutdown_completes [OF run(1,2) this] run(4-6) obtain q where
    q: "life_steps demo_platform (reads_as [web_entry ''m'', web_entry ''m'']) p q" "pr_main q = Returned True"
      "pr_panics q = 0" "sent_entry \<in> set (stored_log (pr_pipe q))" by auto
  with run(1) rtranclp_trans [OF run(2) q(1)] show ?thesis by blast
qed

theorem lifecycle_refines_witness:
  "\<exists>s0. \<exists>p :: proc. startup (\<lambda>_. None) demo_platform Map.empty = Some s0 \<and> sys_steps demo_platform s0 (pr_sys p) \<and>
     pr_inflight p = [Ingesting ''globex'' [web_entry ''m'']]"
proof -
  from demo_life_exists obtain s0 p where run: "startup (\<lambda>_. None) demo_platform Map.empty = Some s0"
    "life_steps demo_platform (reads_as [web_entry ''m'', web_entry ''m'']) (launch s0) p"
    "pr_inflight p = [Ingesting ''globex'' [web_entry ''m'']]" by blast
  with lifecycle_refines [OF run(1,2)] show ?thesis by (intro exI [of _ s0] exI [of _ p]) simp
qed

theorem slow_request_panics_witness:
  "\<exists>s0 q. startup (\<lambda>_. None) demo_platform Map.empty = Some s0 \<and>
     life_steps demo_platform (reads_as [web_entry ''m'', web_entry ''m'']) (launch s0) q \<and>
     pr_panics q = 1 \<and> p_accepted (pr_pipe q) = [sent_entry]"
proof -
  from demo_life_exists obtain s0 p where run: "startup (\<lambda>_. None) demo_platform Map.empty = Some s0"
    "life_steps demo_platform (reads_as [web_entry ''m'', web_entry ''m'']) (launch s0) p" "pr_main p = Serving"
    "pr_inflight p = [Ingesting ''globex'' [web_entry ''m'']]" "pr_panics p = 0" "p_accepted (pr_pipe p) = [sent_entry]" by blast
  have "Validate (web_entry ''m'') = None" by (simp add: web_entry_def Validate_def)
  from slow_request_panics [OF run(1,2) disjI1 [OF run(3)] _ this, of "''globex''" "[]"] run(4-6) obtain q where
    q: "life_steps demo_platform (reads_as [web_entry ''m'', web_entry ''m'']) p q" "pr_panics q = 1"
      "p_accepted (pr_pipe q) = [sent_entry]" by auto
  with run(1) rtranclp_trans [OF run(2) q(1)] show ?thesis by blast
qed

end
