(* ===== verification/Bounds.thy ===== *)
theory Bounds
  imports System
begin

text \<open>
  What bounds the state of the process, from the sizes that \<open>main\<close> passes to the constructors: the
  channel, the batch, the feed, the buckets of the limiter, the vectors of the index.
\<close>

definition tenants :: "string set" where
  "tenants = {''acme'', ''globex''}"

lemma main_auth_tenants: "Authenticate main_auth tok = Some t \<Longrightarrow> t \<in> tenants"
  by (auto simp: Authenticate_iff main_auth_def AddToken_def NewAuthenticator_def tenants_def split: if_splits)

subsection \<open>The limiter\<close>

definition limiter_bounded :: "config \<Rightarrow> limiter \<Rightarrow> bool" where
  "limiter_bounded cfg l \<longleftrightarrow> rate l = RatePerTenant cfg \<and> burst l = of_int (BurstPerTenant cfg) \<and>
     dom (buckets l) \<subseteq> tenants \<and> (\<forall>k b. buckets l k = Some b \<longrightarrow> tokens b \<le> burst l)"

lemma NewLimiter_bounded: "limiter_bounded cfg (NewLimiter (RatePerTenant cfg) (BurstPerTenant cfg))"
  by (simp add: limiter_bounded_def NewLimiter_def)

lemma Allow_tokens: "buckets (snd (Allow l now k)) k = Some b \<Longrightarrow> tokens b \<le> burst l"
  by (auto simp: Allow_def Let_def split: option.splits if_splits)

lemma Allow_bounded:
  assumes "limiter_bounded cfg l" "k \<in> tenants"
  shows "limiter_bounded cfg (snd (Allow l now k))"
proof -
  have "dom (buckets (snd (Allow l now k))) \<subseteq> tenants"
    using assms by (auto simp: limiter_bounded_def Allow_def Let_def split: option.splits if_splits)
  moreover have "tokens b \<le> burst l" if "buckets (snd (Allow l now k)) j = Some b" for j b
    using that assms(1) Allow_tokens [of l now k b] Allow_other [of j k l now] by (cases "j = k") (auto simp: limiter_bounded_def)
  ultimately show ?thesis using assms(1) by (simp add: limiter_bounded_def)
qed

lemma Sweep_bounded: "limiter_bounded cfg l \<Longrightarrow> limiter_bounded cfg (Sweep l now)"
  by (auto simp: limiter_bounded_def Sweep_def Let_def split: option.splits if_splits)

subsection \<open>The hot path\<close>

definition pipe_bounded :: "config \<Rightarrow> mem_store pipeline \<Rightarrow> bool" where
  "pipe_bounded cfg p \<longleftrightarrow> ch_cap (p_buf p) = nat (BufferSize cfg) \<and> w_size (p_writer p) = BatchSize cfg"

lemma writer_size [simp]:
  "w_size (flush wr w) = w_size w" "w_size (on_entry wr w e) = w_size w" "w_size (on_finish wr w) = w_size w"
  "w_size (on_cancelled w) = w_size w"
  by (simp_all add: flush_def on_entry_def on_finish_def on_cancelled_def Let_def split: prod.split)

lemma pstep_bounded: "pstep wr p p' \<Longrightarrow> ch_cap (p_buf p') = ch_cap (p_buf p) \<and> w_size (p_writer p') = w_size (p_writer p)"
  by (cases rule: pstep.cases) (auto simp: receive_iffs CloseBuffer_def elim!: Publish_cases split: if_splits)

subsection \<open>The feed\<close>

definition feed_bounded :: "feed \<Rightarrow> bool" where
  "feed_bounded f \<longleftrightarrow> f_cap f = 1000 \<and> FeedLen f \<le> 1000"

lemma Push_bounded: "feed_bounded f \<Longrightarrow> feed_bounded (Push f e)"
  by (auto simp: feed_bounded_def FeedLen_def Push_def Let_def)

lemma observe_loop_bounded: "feed_bounded (aw_feed w) \<Longrightarrow> feed_bounded (aw_feed (observe_loop nows i counts ks w))"
  by (induction ks arbitrary: w i) (auto simp: Push_bounded split: prod.split option.split)

lemma anomaly_tick_bounded: "feed_bounded (aw_feed w) \<Longrightarrow> feed_bounded (aw_feed (anomaly_tick since ord nows w))"
  by (auto simp: anomaly_tick_def observe_loop_bounded split: sum.split prod.split)

subsection \<open>The whole process\<close>

definition sys_bounded :: "config \<Rightarrow> system \<Rightarrow> bool" where
  "sys_bounded cfg s \<longleftrightarrow> sy_config s = cfg \<and> limiter_bounded cfg (sy_limiter s) \<and> pipe_bounded cfg (sy_pipe s) \<and>
     feed_bounded (aw_feed (sy_anomaly s))"

lemma sys_step_bounded:
  assumes "sys_step pl s s'" "sys_ok pl s" "sys_bounded cfg s"
  shows "sys_bounded cfg s'"
proof -
  have pipe: "pipe_bounded cfg (sy_pipe s')"
    using sys_step_pipe [OF assms(1)] pstep_bounded [of WriteBatch "sy_pipe s" "sy_pipe s'"] assms(3)
    by (auto simp: sys_bounded_def pipe_bounded_def)
  from assms(1) show ?thesis
  proof (cases rule: sys_step.cases)
    case (limited tok t now)
    then have "t \<in> tenants" using assms(2) main_auth_tenants by (auto simp: sys_ok_def)
    then show ?thesis using assms(3) limited(1) by (simp add: sys_bounded_def Allow_bounded)
  next
    case (published tok t e x now r b)
    then show ?thesis using assms(3) pipe by (simp add: sys_bounded_def published_def)
  qed (use assms(3) pipe in \<open>simp_all add: sys_bounded_def Sweep_bounded anomaly_tick_bounded\<close>)
qed

lemma startup_bounded:
  assumes "startup parse_float pl E = Some s0"
  shows "sys_bounded (Load parse_float E) s0"
  using assms
  by (auto simp: startup_def sys_bounded_def NewLimiter_bounded pipe_bounded_def feed_bounded_def NewFeed_def
      NewAnomaly_def FeedLen_def main_start_def NewBuffer_def writer_start_def pipeline_start_def Let_def
      split: option.splits if_splits prod.splits)

lemma steps_bounded:
  assumes "sys_steps pl s0 s" "startup parse_float pl E = Some s0"
  shows "sys_bounded (Load parse_float E) s"
  using assms(1)
proof (induction rule: rtranclp_induct)
  case (step t u)
  have "sys_ok pl t" by (rule reachable_ok [OF step.hyps(1) assms(2) assms(2)])
  with step show ?case by (blast intro: sys_step_bounded)
qed (rule startup_bounded [OF assms(2)])

text \<open>The vectors of the index come from the embedder.\<close>

lemma grounded_vector:
  "grounded pl st kb t it \<Longrightarrow> length (it_Vec it) = 256 \<and> unit_or_zero (it_Vec it)"
  unfolding grounded_def main_embed_def log_item_def
  using hash_embedder.embed_length hash_embedder.embed_unit by auto



end
