(* ===== verification/Reports.thy ===== *)
theory Reports
  imports Requests Bounds
begin

text \<open>
  What the process tells about itself, in every reachable state: the events of the anomaly feed are
  grounded in the stored log, and the counters and gauges of \<open>/metrics\<close> are exact.
\<close>

subsection \<open>The events of the feed\<close>

lemma observe_all_alerts:
  "e \<in> set (fst (observe_all d os)) \<Longrightarrow>
   (\<exists>now. (now, ev_TenantID e, ev_Service e, ev_Signal e, ev_Value e) \<in> set os) \<and> d_zThres d \<le> \<bar>ev_Score e\<bar>"
proof (induction d os rule: observe_all.induct)
  case (2 d now t s g v os)
  show ?case
  proof (cases "e \<in> set (fst (observe_all (snd (Observe d now t s g v)) os))")
    case True
    with "2.IH"(1) show ?thesis by auto
  next
    case False
    with "2.prems" have "fst (Observe d now t s g v) = Some e" by (auto split: option.splits)
    then show ?thesis by (auto simp: Observe_step alarm_def split: option.splits if_splits)
  qed
qed simp

text \<open>An event that counts the errors of a stretch of the log.\<close>

definition event_grounded :: "stored_entry list \<Rightarrow> event \<Rightarrow> bool" where
  "event_grounded es0 e \<longleftrightarrow> ev_Signal e = ''error_volume'' \<and> 3 \<le> \<bar>ev_Score e\<bar> \<and>
     (\<exists>xs es ys. es0 = xs @ es @ ys \<and> (ev_TenantID e, ev_Service e) \<in> key_of ` set es \<and>
        ev_Value e = real (error_count es (ev_TenantID e, ev_Service e)))"

lemma event_grounded_grows: "event_grounded es0 e \<Longrightarrow> event_grounded (es0 @ zs) e"
  unfolding event_grounded_def by (metis append.assoc)

lemma Push_events: "set (f_events (Push f e)) \<subseteq> insert e (set (f_events f))"
  by (auto simp: Push_def Let_def dest: in_set_dropD)

lemma pushes_events: "set (f_events (foldl Push f es)) \<subseteq> set (f_events f) \<union> set es"
  using Push_events by (induction es arbitrary: f) fastforce+

lemma Push_len: "feed_bounded f \<Longrightarrow> FeedLen f = min 1000 n \<Longrightarrow> FeedLen (Push f e) = min 1000 (n + 1)"
  by (auto simp: feed_bounded_def FeedLen_def Push_def Let_def)

lemma pushes_len: "feed_bounded f \<Longrightarrow> FeedLen f = min 1000 n \<Longrightarrow> FeedLen (foldl Push f es) = min 1000 (n + length es)"
proof (induction es arbitrary: f n)
  case (Cons e es)
  from Cons.IH [OF Push_bounded Push_len, OF Cons.prems(1) Cons.prems] show ?case by simp
qed simp

text \<open>A tick reads the next stretch of the log and pushes the events of its counts.\<close>

lemma anomaly_tick_cases:
  assumes "store_ok s" "store_fits s" "map_order ord"
  obtains "anomaly_tick (Since s) ord nows w = w"
  | xs es ys evs w' where "entries s = xs @ es @ ys" "w' = anomaly_tick (Since s) ord nows w"
      "aw_feed w' = foldl Push (aw_feed w) evs" "aw_onEvent w' = aw_onEvent w + length evs"
      "d_zThres (aw_det w') = d_zThres (aw_det w)"
      "\<forall>e \<in> set evs. ev_Signal e = ''error_volume'' \<and> d_zThres (aw_det w) \<le> \<bar>ev_Score e\<bar> \<and>
         (ev_TenantID e, ev_Service e) \<in> key_of ` set es \<and>
         ev_Value e = real (error_count es (ev_TenantID e, ev_Service e))"
  using assms
proof (cases rule: anomaly_tick_window [where nows = nows and w = w])
  case idle
  then show ?thesis using that(1) by blast
next
  case (window es ks obs)
  have src: "store_ok s \<and> store_fits s" using assms(1,2) ..
  let ?seen = "takeWhile (\<lambda>x. \<not> aw_lastID w < ID x) (entries s)" and ?evs = "fst (observe_all (aw_det w) obs)"
  have whole: "entries s = ?seen @ es @ filter (\<lambda>x. ID (last es) < ID x) (entries s)"
    using takeWhile_dropWhile_id [of "\<lambda>x. \<not> aw_lastID w < ID x" "entries s"] window(3)
    unfolding mem_source.behind_suffix [OF mem_source.ids_ascend [OF src]] by simp
  show ?thesis
  proof (rule that(2) [OF whole refl, of ?evs]; (intro ballI)?)
    fix e assume "e \<in> set ?evs"
    from observe_all_alerts [OF this] obtain now where
      "(now, ev_TenantID e, ev_Service e, ev_Signal e, ev_Value e) \<in> set obs" "d_zThres (aw_det w) \<le> \<bar>ev_Score e\<bar>"
      by blast
    with window_obs_keys window(5,6) show "ev_Signal e = ''error_volume'' \<and> d_zThres (aw_det w) \<le> \<bar>ev_Score e\<bar> \<and>
       (ev_TenantID e, ev_Service e) \<in> key_of ` set es \<and> ev_Value e = real (error_count es (ev_TenantID e, ev_Service e))"
      by blast
  qed (simp_all add: window(7))
qed

definition feed_grounded :: "system \<Rightarrow> bool" where
  "feed_grounded s \<longleftrightarrow> d_zThres (aw_det (sy_anomaly s)) = 3 \<and>
     FeedLen (aw_feed (sy_anomaly s)) = min 1000 (aw_onEvent (sy_anomaly s)) \<and>
     (\<forall>e \<in> set (f_events (aw_feed (sy_anomaly s))). event_grounded (entries (sy_store s)) e)"

lemma feed_grounded_tick:
  assumes "store_ok st" "store_fits st" "map_order ord" "feed_bounded (aw_feed w)"
    and "d_zThres (aw_det w) = 3" "FeedLen (aw_feed w) = min 1000 (aw_onEvent w)"
    and "\<forall>e \<in> set (f_events (aw_feed w)). event_grounded (entries st) e" "w' = anomaly_tick (Since st) ord nows w"
  shows "d_zThres (aw_det w') = 3 \<and> FeedLen (aw_feed w') = min 1000 (aw_onEvent w') \<and>
    (\<forall>e \<in> set (f_events (aw_feed w')). event_grounded (entries st) e)"
  using assms(1-3)
proof (cases rule: anomaly_tick_cases [where nows = nows and w = w])
  case 1
  with assms(5-8) show ?thesis by simp
next
  case (2 xs es ys evs w1)
  have "event_grounded (entries st) e" if "e \<in> set evs" for e
    using 2(1,6) that assms(5) unfolding event_grounded_def by metis
  then have "\<forall>e \<in> set (f_events (aw_feed w')). event_grounded (entries st) e"
    using pushes_events [of "aw_feed w" evs] assms(7,8) 2(2,3) by auto
  moreover have "FeedLen (aw_feed w') = min 1000 (aw_onEvent w')"
    using pushes_len [OF assms(4,6), of evs] 2(2-4) assms(8) by simp
  ultimately show ?thesis using 2(2,5) assms(5,8) by simp
qed

subsection \<open>Counters of the hot path\<close>

lemma pstep_accepted:
  assumes "pstep wr p p'" "accepted (p_buf p) = of_nat (length (p_accepted p))"
  shows "accepted (p_buf p') = of_nat (length (p_accepted p'))"
  using assms
  by (cases rule: pstep.cases) (auto simp: receive_iffs CloseBuffer_def add.commute elim!: Publish_cases split: if_splits)

subsection \<open>The invariant\<close>

abbreviation processed_upto :: "system \<Rightarrow> stored_entry list" where
  "processed_upto s \<equiv> EmbedWorker.upto 0 (sy_embed s) (entries (sy_store s))"

definition reports_ok :: "system \<Rightarrow> bool" where
  "reports_ok s \<longleftrightarrow> accepted (p_buf (sy_pipe s)) = of_nat (length (p_accepted (sy_pipe s))) \<and>
     worker_counts (sy_embed s) \<and>
     (store_fits (sy_store s) \<longrightarrow>
        feed_grounded s \<and> embedded_total (ew_m (sy_embed s)) = length (processed_upto s))"

lemma step_store_grows: "sys_step pl s s' \<Longrightarrow> \<exists>ys. entries (sy_store s') = entries (sy_store s) @ ys"
  unfolding sy_store_def using sys_step_pipe [of pl s s'] pstep_store_grows by fastforce

lemma reports_step:
  assumes "sys_step pl s s'" "sys_ok pl s" "sys_indexed pl v s" "feed_bounded (aw_feed (sy_anomaly s))" "reports_ok s"
  shows "reports_ok s'"
proof -
  obtain ys where ys: "entries (sy_store s') = entries (sy_store s) @ ys" using step_store_grows [OF assms(1)] ..
  have acc: "accepted (p_buf (sy_pipe s')) = of_nat (length (p_accepted (sy_pipe s')))"
    using sys_step_pipe [OF assms(1)] pstep_accepted assms(5) by (auto simp: reports_ok_def)
  have fits: "store_fits (sy_store s)" if "store_fits (sy_store s')"
    using that by (simp add: store_fits_def ys)
  have store: "store_ok (sy_store s)" "store_ok (sy_store s')"
    using sys_ok_store(1) assms(2) sys_step_ok [OF assms(1,2)] by blast+
  have worker: "worker_counts (sy_embed s)" using assms(5) by (simp add: reports_ok_def)
  have before: "feed_grounded s" "embedded_total (ew_m (sy_embed s)) = length (processed_upto s)" "indexed_upto pl v s"
    if "store_fits (sy_store s')" using fits [OF that] assms(3,5) by (simp_all add: reports_ok_def sys_indexed_def)
  have feed: "feed_grounded s'" if "aw_det (sy_anomaly s') = aw_det (sy_anomaly s)" "aw_feed (sy_anomaly s') = aw_feed (sy_anomaly s)"
    "aw_onEvent (sy_anomaly s') = aw_onEvent (sy_anomaly s)" "store_fits (sy_store s')"
    using before(1) [OF that(4)] that(1-3) event_grounded_grows by (auto simp: feed_grounded_def ys)
  have emb: "embedded_total (ew_m (sy_embed s)) = length (EmbedWorker.upto 0 (sy_embed s) (entries (sy_store s')))"
    if "store_fits (sy_store s')"
    using before(2) [OF that] mem_indexing.upto_grows [OF before(3) [OF that] conjI [OF store(2) that] ys] by simp
  have quiet: "reports_ok s'" if "sy_embed s' = sy_embed s" "sy_anomaly s' = sy_anomaly s"
    using acc worker feed emb that by (simp add: reports_ok_def)
  from assms(1) show ?thesis
  proof (cases rule: sys_step.cases)
    case (published tok t e x now r b)
    then show ?thesis by (intro quiet) (simp_all add: published_def)
  next
    case (indexed now)
    let ?w = "embed_tick (main_embed pl) main_version Upsert now (Since (sy_store s)) (sy_embed s)"
    have s': "sy_embed s' = ?w" "sy_anomaly s' = sy_anomaly s" "sy_store s' = sy_store s"
      using indexed by (simp_all add: sy_store_def)
    note counts = embed_tick_counts [OF worker, of "main_embed pl" main_version Upsert now "Since (sy_store s)"]
    have "embedded_total (ew_m ?w) = length (EmbedWorker.upto 0 ?w (entries (sy_store s)))" if f: "store_fits (sy_store s')"
    proof -
      have src: "store_ok (sy_store s) \<and> store_fits (sy_store s)" using store(1) fits [OF f] ..
      have "0 \<le> ew_lastID (sy_embed s)" by simp
      from mem_indexing.upto_tick [OF src this, of "main_embed pl" main_version now] counts before(2) [OF f] show ?thesis
        by (auto split: sum.split)
    qed
    with counts acc feed s' show ?thesis by (simp add: reports_ok_def)
  next
    case lag_read
    have "sy_embed s' = snd (Lag (Since (sy_store s)) (sy_embed s))" "sy_anomaly s' = sy_anomaly s" using lag_read by simp_all
    moreover have "EmbedWorker.upto 0 (snd (Lag (Since (sy_store s)) (sy_embed s))) es = EmbedWorker.upto 0 (sy_embed s) es" for es
      by (simp add: EmbedWorker.upto_def Lag_def Let_def)
    ultimately show ?thesis using acc feed emb Lag_counts [OF worker] by (simp add: reports_ok_def)
  next
    case (detected ord nows)
    have s': "sy_anomaly s' = anomaly_tick (Since (sy_store s)) ord nows (sy_anomaly s)" "sy_embed s' = sy_embed s"
      "sy_store s' = sy_store s" using detected by (simp_all add: sy_store_def)
    have "feed_grounded s'" if f: "store_fits (sy_store s')"
      using feed_grounded_tick [OF store(1) fits [OF f] detected(2) assms(4) _ _ _ s'(1)] before(1) [OF f]
      by (simp add: feed_grounded_def s'(3))
    with acc worker emb s' show ?thesis by (simp add: reports_ok_def)
  qed (rule quiet, simp, simp)+
qed

lemma startup_reports:
  assumes "startup parse_float pl E = Some s0"
  shows "reports_ok s0"
proof -
  have "worker_counts (sy_embed s0)" "ew_lastID (sy_embed s0) = 0" "ew_m (sy_embed s0) = []"
    "d_zThres (aw_det (sy_anomaly s0)) = 3" "aw_feed (sy_anomaly s0) = NewFeed 1000" "aw_onEvent (sy_anomaly s0) = 0"
    "accepted (p_buf (sy_pipe s0)) = 0" "p_accepted (sy_pipe s0) = []"
    using assms by (auto simp: startup_def NewEmbed_def NewAnomaly_def NewDetector_def worker_counts_def tally_def
        main_start_def NewBuffer_def pipeline_start_def Let_def split: option.splits if_splits prod.splits)
  then show ?thesis
    by (simp add: reports_ok_def feed_grounded_def NewFeed_def FeedLen_def EmbedWorker.upto_def not_less flip: not_le)
qed

lemma steps_reports:
  assumes "sys_steps pl s0 s" "startup parse_float pl E = Some s0"
  shows "reports_ok s"
  using assms(1)
proof (induction rule: rtranclp_induct)
  case (step t u)
  have "sys_ok pl t" by (rule reachable_ok [OF step.hyps(1) assms(2,2)])
  moreover have "sys_indexed pl (snd (seedKB (main_embed pl) main_version Upsert (NewKB, NewMemVector))) t"
    by (rule reachable_indexed [OF step.hyps(1) assms(2,2)])
  moreover have "feed_bounded (aw_feed (sy_anomaly t))"
    using steps_bounded [OF step.hyps(1) assms(2)] by (simp add: sys_bounded_def)
  ultimately show ?case using step by (blast intro: reports_step)
qed (rule startup_reports [OF assms(2)])


subsection \<open>The metrics page\<close>

lemma counter_hooks:
  "counter (foldl main_hook r m) name = counter r name +
     (if name = ''sl_embedded_total'' then of_nat (embedded_total m)
      else if name = ''sl_embed_dedup_total'' then of_nat (dedup_total m)
      else if name = ''sl_embed_dlq_total'' then of_nat (dlq_total m) else 0)"
proof (induction m rule: rev_induct)
  case (snoc c m)
  then show ?case by (cases c) (simp_all add: counter_Add Inc_def)
qed simp

lemma counter_events:
  "counter (((\<lambda>r. Inc r ev) ^^ n) r) name = counter r name + (if name = ev then of_nat n else 0)"
  by (induction n) (simp_all add: Inc_def counter_Add)

lemma counter_latencies: "counter (foldl (\<lambda>r (ep, ms). ObserveLatency r h ms) r ls) name = counter r name"
  by (induction ls arbitrary: r) (auto simp: counter_def ObserveLatency_def)

lemma counter_gauges: "counter (main_gauges NewRegistry) name = 0"
  by (simp add: main_gauges_def counter_def SetGauge_def NewRegistry_def)

lemma hist_latencies:
  "hist_of (foldl (\<lambda>r (ep, ms). ObserveLatency r h ms) r ls) h = foldl hist_observe (hist_of r h) (map snd ls)"
  by (induction ls arbitrary: r) (auto simp: hist_of_def ObserveLatency_def update_conv')

lemma hist_hooks: "rg_hist (foldl main_hook r m) = rg_hist r"
proof (induction m rule: rev_induct)
  case (snoc c m)
  then show ?case by (cases c) (simp_all add: AddCounter_def Inc_def)
qed simp

lemma hist_events: "rg_hist (((\<lambda>r. Inc r ev) ^^ n) r) = rg_hist r"
  by (induction n) (simp_all add: Inc_def AddCounter_def)

lemma hist_total: "hg_total (foldl hist_observe h vs) = hg_total h + of_nat (length vs)"
  by (induction vs arbitrary: h) simp_all

lemma main_registry_reads:
  "counter (main_registry s) ''sl_embedded_total'' = of_nat (embedded_total (ew_m (sy_embed s)))"
  "counter (main_registry s) ''sl_embed_dedup_total'' = of_nat (dedup_total (ew_m (sy_embed s)))"
  "counter (main_registry s) ''sl_embed_dlq_total'' = of_nat (dlq_total (ew_m (sy_embed s)))"
  "counter (main_registry s) ''sl_anomaly_events_total'' = of_nat (aw_onEvent (sy_anomaly s))"
  "hg_total (hist_of (main_registry s) ''sl_query_latency_ms'') = of_nat (length (sy_latencies s))"
proof -
  have "hg_total (hist_of (main_gauges NewRegistry) ''sl_query_latency_ms'') = 0"
    by (simp add: main_gauges_def hist_of_def SetGauge_def NewRegistry_def newHistogram_zero)
  then show "counter (main_registry s) ''sl_embedded_total'' = of_nat (embedded_total (ew_m (sy_embed s)))"
    "counter (main_registry s) ''sl_embed_dedup_total'' = of_nat (dedup_total (ew_m (sy_embed s)))"
    "counter (main_registry s) ''sl_embed_dlq_total'' = of_nat (dlq_total (ew_m (sy_embed s)))"
    "counter (main_registry s) ''sl_anomaly_events_total'' = of_nat (aw_onEvent (sy_anomaly s))"
    "hg_total (hist_of (main_registry s) ''sl_query_latency_ms'') = of_nat (length (sy_latencies s))"
    unfolding main_registry_def counter_latencies counter_events counter_hooks counter_gauges hist_latencies
    by (simp_all add: hist_total hist_of_def hist_events hist_hooks)
qed

lemma processed_is_upto:
  assumes "sys_ok pl s" "store_fits (sy_store s)"
  shows "processed_upto s = filter (\<lambda>x. ID x \<le> Checkpoint (sy_embed s)) (entries (sy_store s))"
  using mem_source.ids_positive [OF conjI [OF sys_ok_store(1) [OF assms(1)] assms(2)]]
  by (auto simp: EmbedWorker.upto_def Checkpoint_def intro!: filter_cong)



end
