(* ===== verification/AlertRun.thy ===== *)
theory AlertRun
  imports Reports
begin

text \<open>
  A run of the process that raises an alert: fifteen windows of one entry without an error each, then
  one with an error. It shows that the statements about the feed speak of something.
\<close>

text \<open>Sending one entry and storing it, then a tick of the anomaly worker.\<close>

definition resting :: "system \<Rightarrow> bool" where
  "resting s \<longleftrightarrow> \<not> ch_closed (p_buf (sy_pipe s)) \<and> ch (p_buf (sy_pipe s)) = [] \<and> w_batch (p_writer (sy_pipe s)) = [] \<and>
     w_phase (p_writer (sy_pipe s)) = Running"

lemma send_one:
  assumes "startup parse_float pl Map.empty = Some s0" "sys_steps pl s0 s" "resting s" "Validate e = None"
  shows "\<exists>p. sys_steps pl s0 (s\<lparr>sy_pipe := p\<rparr>) \<and> resting (s\<lparr>sy_pipe := p\<rparr>) \<and>
    p_accepted p = p_accepted (sy_pipe s) @ [prepare NewRedactor ''globex'' 5 e] \<and>
    abs_log (w_store (p_writer p)) = p_accepted p"
proof -
  have ok: "sys_ok pl s" by (rule reachable_ok [OF assms(2,1,1)])
  then have fixed: "sy_auth s = main_auth" "sy_redactor s = NewRedactor" by (simp_all add: sys_ok_def)
  have "ch_cap (p_buf (sy_pipe s)) = 10000"
    using steps_bounded [OF assms(2,1)] by (simp add: sys_bounded_def pipe_bounded_def Load_def envInt_def)
  let ?x = "prepare NewRedactor ''globex'' 5 e"
  obtain b where pub: "Publish (p_buf (sy_pipe s)) ?x = Some (None, b)"
    using assms(3) \<open>ch_cap (p_buf (sy_pipe s)) = 10000\<close> by (simp add: resting_def Publish_def)
  let ?s1 = "published s ?x None b"
  have "Authenticate (sy_auth s) ''globex-token'' = Some ''globex''"
    by (simp add: fixed main_auth_def AddToken_def Authenticate_iff)
  from sys_step.published [OF this assms(4) _ pub] have one: "sys_steps pl s0 ?s1"
    using assms(2) by (simp add: fixed rtranclp.rtrancl_into_rtrancl)
  have ok1: "sys_ok pl ?s1" by (rule reachable_ok [OF one assms(1,1)])
  have run: "w_phase (p_writer (sy_pipe ?s1)) = Running" using assms(3) by (simp add: resting_def published_def)
  have "mem_sink.pipe_inv (sy_pipe ?s1)" using ok1 by (simp add: sys_ok_def)
  from mem_sink.running_stores_all [OF this run] obtain p where
    moves: "(writer_move WriteBatch)\<^sup>*\<^sup>* (sy_pipe ?s1) p" and
    p: "ch (p_buf p) = []" "w_batch (p_writer p) = []" "w_phase (p_writer p) = Running" by blast
  have s2: "?s1\<lparr>sy_pipe := p\<rparr> = s\<lparr>sy_pipe := p\<rparr>" by (simp add: published_def)
  have two: "sys_steps pl s0 (s\<lparr>sy_pipe := p\<rparr>)" using rtranclp_trans [OF one pipe_run [OF moves]] unfolding s2 .
  have keep: "p_accepted p = p_accepted (sy_pipe s) @ [?x]" "\<not> ch_closed (p_buf p)"
    using writer_moves_keep [OF moves] Publish_keeps_open [OF pub] assms(3) by (simp_all add: published_def resting_def)
  have "stored_log p = p_accepted p"
    using sys_ok_hot_path [OF reachable_ok [OF two assms(1,1)]] p by simp
  with two keep p show ?thesis by (intro exI [of _ p]) (simp add: resting_def stored_log_def)
qed

lemma new_entry_window:
  assumes "store_ok st" "abs_log st = xs @ [x]" "length xs < 2 ^ 62"
  shows "Since st (of_nat (length xs)) 100000 = Inr [\<lparr>ID = of_nat (Suc (length xs)), LogEntry = x\<rparr>]"
proof -
  let ?y = "\<lparr>ID = of_nat (Suc (length xs)), LogEntry = x\<rparr>"
  have len: "length (entries st) = Suc (length xs)" using assms(2) by (simp flip: length_abs_log)
  then have fits: "store_fits st" using assms(3) by (simp add: store_fits_def)
  have es: "entries st = with_ids xs @ [?y]" using assms(1,2) by (simp add: store_ok_def with_ids_append1)
  have small: "unat (of_nat n :: u64) = n" if "n \<le> Suc (length xs)" for n
    using that assms(3) by (simp add: unat_of_nat)
  have "ID y \<le> of_nat (length xs)" if y: "y \<in> set (with_ids xs)" for y
  proof -
    obtain i where "i < length xs" "ID y = of_nat (Suc i)" using y by (auto simp: with_ids_def)
    then show ?thesis using small [of "Suc i"] small [of "length xs"] by (simp add: word_le_nat_alt del: of_nat_Suc)
  qed
  then have "filter (\<lambda>y. of_nat (length xs) < ID y) (with_ids xs) = []" by (auto simp: filter_empty_conv not_less)
  moreover have "(of_nat (length xs) :: u64) < of_nat (Suc (length xs))"
    using small [of "Suc (length xs)"] small [of "length xs"] by (simp add: word_less_nat_alt del: of_nat_Suc)
  ultimately show ?thesis by (simp add: Since_reads [OF assms(1) fits] es since_limit_def del: of_nat_Suc)
qed

lemma tick_single:
  assumes "since (aw_lastID w) 100000 = Inr [y]" "key_of y = (t, u)"
    and "Observe (aw_det w) (nows 0) t u ''error_volume'' (if is_error y then 1 else 0) = (r, d)"
  shows "anomaly_tick since (\<lambda>ks. ks) nows w =
    (case r of None \<Rightarrow> w\<lparr>aw_det := d, aw_lastID := ID y\<rparr>
     | Some ev \<Rightarrow> w\<lparr>aw_det := d, aw_feed := Push (aw_feed w) ev, aw_onEvent := aw_onEvent w + 1, aw_lastID := ID y\<rparr>)"
  using assms by (cases r; cases "is_error y") (simp_all add: anomaly_tick_def Let_def)

definition calm_entry :: log_entry where "calm_entry = web_entry ''m''"

definition error_entry :: log_entry where "error_entry = (web_entry ''m'')\<lparr>Level := ''error''\<rparr>"

lemma demo_entries_valid: "Validate calm_entry = None" "Validate error_entry = None"
  by (simp_all add: calm_entry_def error_entry_def web_entry_def Validate_def)

text \<open>After \<open>n\<close> entries without an error, each in a window of its own.\<close>

definition calm_for :: "nat \<Rightarrow> system \<Rightarrow> bool" where
  "calm_for n s \<longleftrightarrow> resting s \<and> length (p_accepted (sy_pipe s)) = n \<and> aw_lastID (sy_anomaly s) = of_nat n \<and>
     d_zThres (aw_det (sy_anomaly s)) = 3 \<and> d_warmup (aw_det (sy_anomaly s)) = 15 \<and>
     f_cap (aw_feed (sy_anomaly s)) = 1000 \<and>
     (case series (aw_det (sy_anomaly s)) ''globex'' ''web'' ''error_volume'' of
        None \<Rightarrow> n = 0
      | Some b \<Rightarrow> mean b = 0 \<and> varc b = 0 \<and> bl_count b = n)"

lemma window_of_one:
  assumes "startup parse_float pl Map.empty = Some s0" "sys_steps pl s0 s" "calm_for n s" "n < 2 ^ 62"
    and "Validate e = None" "Service e = ''web''"
  obtains p y where "sys_steps pl s0 (s\<lparr>sy_pipe := p, sy_anomaly := anomaly_tick (Since (sy_store (s\<lparr>sy_pipe := p\<rparr>))) (\<lambda>ks. ks) (\<lambda>_. 7) (sy_anomaly s)\<rparr>)"
    "resting (s\<lparr>sy_pipe := p\<rparr>)" "length (p_accepted p) = Suc n" "ID y = of_nat (Suc n)" "key_of y = (''globex'', ''web'')"
    "is_error y \<longleftrightarrow> Level e = ''error'' \<or> Level e = ''fatal''"
    "Since (sy_store (s\<lparr>sy_pipe := p\<rparr>)) (aw_lastID (sy_anomaly s)) 100000 = Inr [y]"
proof -
  from send_one [OF assms(1,2) _ assms(5)] assms(3) obtain p where
    p: "sys_steps pl s0 (s\<lparr>sy_pipe := p\<rparr>)" "resting (s\<lparr>sy_pipe := p\<rparr>)"
      "p_accepted p = p_accepted (sy_pipe s) @ [prepare NewRedactor ''globex'' 5 e]" "abs_log (w_store (p_writer p)) = p_accepted p"
    by (auto simp: calm_for_def)
  let ?s = "s\<lparr>sy_pipe := p\<rparr>" and ?y = "\<lparr>ID = of_nat (Suc n), LogEntry = prepare NewRedactor ''globex'' 5 e\<rparr>"
  have "map_order (\<lambda>ks. ks)" by (simp add: map_order_def)
  from sys_step.detected [OF this, of pl ?s "\<lambda>_. 7"]
  have run: "sys_steps pl s0 (s\<lparr>sy_pipe := p, sy_anomaly := anomaly_tick (Since (sy_store ?s)) (\<lambda>ks. ks) (\<lambda>_. 7) (sy_anomaly s)\<rparr>)"
    using p(1) by (simp add: rtranclp.rtrancl_into_rtrancl)
  have "store_ok (sy_store ?s)" by (rule sys_ok_store(1) [OF reachable_ok [OF p(1) assms(1,1)]])
  moreover have n: "length (p_accepted (sy_pipe s)) = n" "aw_lastID (sy_anomaly s) = of_nat n"
    using assms(3) by (simp_all add: calm_for_def)
  ultimately have "Since (sy_store ?s) (aw_lastID (sy_anomaly s)) 100000 = Inr [?y]"
    using new_entry_window [of "sy_store ?s" "p_accepted (sy_pipe s)"] p(3,4) assms(4) by (simp add: sy_store_def)
  from that [OF run p(2) _ _ _ _ this] p(3) n assms(6) show ?thesis
    by (simp add: key_of_def is_error_def prepare_fields)
qed

lemma calm_step:
  assumes "startup parse_float pl Map.empty = Some s0" "sys_steps pl s0 s" "calm_for n s" "n < 2 ^ 62"
  shows "\<exists>s'. sys_steps pl s0 s' \<and> calm_for (Suc n) s'"
proof -
  have web: "Service calm_entry = ''web''" "Level calm_entry = ''''" by (simp_all add: calm_entry_def web_entry_def zero_entry_def)
  from window_of_one [OF assms demo_entries_valid(1) web(1)] obtain p y where
    r: "sys_steps pl s0 (s\<lparr>sy_pipe := p, sy_anomaly := anomaly_tick (Since (sy_store (s\<lparr>sy_pipe := p\<rparr>))) (\<lambda>ks. ks) (\<lambda>_. 7) (sy_anomaly s)\<rparr>)"
      "resting (s\<lparr>sy_pipe := p\<rparr>)" "length (p_accepted p) = Suc n" "ID y = of_nat (Suc n)" "key_of y = (''globex'', ''web'')"
      "\<not> is_error y" "Since (sy_store (s\<lparr>sy_pipe := p\<rparr>)) (aw_lastID (sy_anomaly s)) 100000 = Inr [y]"
    by (simp add: web) blast
  let ?d = "aw_det (sy_anomaly s)"
  let ?o = "Observe ?d 7 ''globex'' ''web'' ''error_volume'' 0"
  have d: "d_zThres ?d = 3" using assms(3) by (simp add: calm_for_def)
  have "fst ?o = None"
    using assms(3) by (auto simp: calm_for_def Observe_step alarm_def z_score_def split: option.splits)
  then have o: "Observe ?d ((\<lambda>_. 7) 0) ''globex'' ''web'' ''error_volume'' (if is_error y then 1 else 0) = (None, snd ?o)"
    using r(6) by (simp add: prod_eq_iff)
  have tick: "anomaly_tick (Since (sy_store (s\<lparr>sy_pipe := p\<rparr>))) (\<lambda>ks. ks) (\<lambda>_. 7) (sy_anomaly s) = (sy_anomaly s)\<lparr>aw_det := snd ?o, aw_lastID := ID y\<rparr>"
    using tick_single [of "Since (sy_store (s\<lparr>sy_pipe := p\<rparr>))", OF r(7,5) o] by simp
  have "calm_for (Suc n) (s\<lparr>sy_pipe := p, sy_anomaly := (sy_anomaly s)\<lparr>aw_det := snd ?o, aw_lastID := ID y\<rparr>\<rparr>)"
    using assms(3) r(2-4)
    by (auto simp: calm_for_def resting_def series_Observe next_baseline_def update_baseline_def split: option.splits)
  with r(1) tick show ?thesis by auto
qed

lemma calm_start:
  assumes "startup parse_float pl Map.empty = Some s0" "n < 2 ^ 62"
  shows "\<exists>s. sys_steps pl s0 s \<and> calm_for n s"
  using assms(2)
proof (induction n)
  case 0
  have "calm_for 0 s0"
    using assms(1) startup_open [OF assms(1)] main_start_empty
    by (auto simp: startup_def calm_for_def resting_def Let_def NewAnomaly_def NewDetector_def NewFeed_def series_def
        main_start_def NewBuffer_def writer_start_def pipeline_start_def split: option.splits prod.splits if_splits)
  then show ?case by blast
next
  case (Suc n)
  then show ?case using calm_step [OF assms(1)] by auto
qed

lemma alert_run_exists:
  assumes "startup parse_float pl Map.empty = Some s0"
  shows "\<exists>s e. sys_steps pl s0 s \<and> length (p_accepted (sy_pipe s)) = 16 \<and> e \<in> set (Recent (aw_feed (sy_anomaly s)) ''globex'' 5) \<and>
    ev_Value e = 1 \<and> ev_Score e = 4"
proof -
  from calm_start [OF assms, of 15] obtain s where s: "sys_steps pl s0 s" "calm_for 15 s" by auto
  have web: "Service error_entry = ''web''" "Level error_entry = ''error''" by (simp_all add: error_entry_def web_entry_def)
  from window_of_one [OF assms s _ demo_entries_valid(2) web(1)] obtain p y where
    r: "sys_steps pl s0 (s\<lparr>sy_pipe := p, sy_anomaly := anomaly_tick (Since (sy_store (s\<lparr>sy_pipe := p\<rparr>))) (\<lambda>ks. ks) (\<lambda>_. 7) (sy_anomaly s)\<rparr>)"
      "resting (s\<lparr>sy_pipe := p\<rparr>)" "length (p_accepted p) = Suc 15" "ID y = of_nat (Suc 15)" "key_of y = (''globex'', ''web'')"
      "is_error y" "Since (sy_store (s\<lparr>sy_pipe := p\<rparr>)) (aw_lastID (sy_anomaly s)) 100000 = Inr [y]"
    by (simp add: web) blast
  let ?d = "aw_det (sy_anomaly s)"
  let ?o = "Observe ?d 7 ''globex'' ''web'' ''error_volume'' 1"
  let ?e = "\<lparr>ev_TenantID = ''globex'', ev_Service = ''web'', ev_Signal = ''error_volume'', ev_Value = 1, ev_Score = 4, ev_At = 7\<rparr>"
  have "fst ?o = Some ?e"
    using s(2) by (auto simp: calm_for_def Observe_step alarm_def z_score_def split: option.splits)
  then have o: "Observe ?d ((\<lambda>_. 7) 0) ''globex'' ''web'' ''error_volume'' (if is_error y then 1 else 0) = (Some ?e, snd ?o)"
    using r(6) by (simp add: prod_eq_iff)
  let ?f = "aw_feed (sy_anomaly s)"
  let ?s' = "s\<lparr>sy_pipe := p, sy_anomaly := anomaly_tick (Since (sy_store (s\<lparr>sy_pipe := p\<rparr>))) (\<lambda>ks. ks) (\<lambda>_. 7) (sy_anomaly s)\<rparr>"
  have feed: "aw_feed (sy_anomaly ?s') = Push ?f ?e"
    using tick_single [of "Since (sy_store (s\<lparr>sy_pipe := p\<rparr>))", OF r(7,5) o] by simp
  have "f_cap ?f = 1000" using s(2) by (simp add: calm_for_def)
  then have "last (f_events (Push ?f ?e)) = ?e" "f_events (Push ?f ?e) \<noteq> []"
    by (simp_all add: Push_def Let_def)
  then obtain es where "f_events (Push ?f ?e) = es @ [?e]" by (metis append_butlast_last_id)
  moreover have "Recent g ''globex'' 5 = take 5 (filter (\<lambda>e. ev_TenantID e = ''globex'') (rev (f_events g)))" for g
    by (simp add: Recent_def scan_back_spec)
  ultimately have "?e \<in> set (Recent (Push ?f ?e) ''globex'' 5)" by simp
  with r(1,3) feed show ?thesis by (intro exI [of _ ?s'] exI [of _ ?e]) simp
qed


end
