(* ===== verification/Detection.thy ===== *)
theory Detection
  imports AlertRun
begin

text \<open>
  The anomaly detection of the whole process against its specification: the log is cut into
  consecutive windows, and every (tenant, service) has one moving average of its own that is fed
  the error counts of its windows. Neither the other series, nor the order in which a Go map is
  iterated, nor the interleaving with the other goroutines shows in the result.
\<close>

subsection \<open>One series by itself\<close>

text \<open>
  \<open>track d bo os\<close>: the alerts (time, value, score) that the values \<open>os\<close> raise when they follow the
  baseline \<open>bo\<close>, and the baseline after them.
\<close>

fun track :: "detector \<Rightarrow> baseline option \<Rightarrow> (instant \<times> f64) list \<Rightarrow> (instant \<times> f64 \<times> f64) list \<times> baseline option" where
  "track d bo [] = ([], bo)"
| "track d bo ((now, v) # os) =
     apfst (append (case alarm d bo v of None \<Rightarrow> [] | Some z \<Rightarrow> [(now, v, z)]))
       (track d (Some (next_baseline d now bo v)) os)"

lemma track_append:
  "track d bo (os @ ps) = apfst (append (fst (track d bo os))) (track d (snd (track d bo os)) ps)"
  by (induction d bo os rule: track.induct) (simp_all add: apfst_def map_prod_def split: prod.split)

definition same_params :: "detector \<Rightarrow> detector \<Rightarrow> bool" where
  "same_params d d' \<longleftrightarrow> d_alpha d = d_alpha d' \<and> d_zThres d = d_zThres d' \<and> d_warmup d = d_warmup d'"

lemma same_params_steps:
  assumes "same_params d d'"
  shows "alarm d = alarm d'" "next_baseline d = next_baseline d'"
  using assms by (simp_all only: same_params_def alarm_def next_baseline_def fun_eq_iff simp_thms)

lemma track_params: "same_params d d' \<Longrightarrow> track d bo os = track d' bo os"
  by (induction d bo os rule: track.induct) (simp_all add: same_params_steps)

lemma series_key_same_signal:
  assumes "NUL \<notin> set t" "NUL \<notin> set t'"
  shows "series_key t u g = series_key t' u' g \<longleftrightarrow> t = t' \<and> u = u'"
  using assms by (auto simp: series_key_def separated_append_eq)

text \<open>Of a run of the detector each series sees its own values only.\<close>

fun of_series :: "string \<Rightarrow> string \<Rightarrow> observation \<Rightarrow> bool" where
  "of_series t u (now, t', u', g, v) \<longleftrightarrow> t' = t \<and> u' = u"

fun reading :: "observation \<Rightarrow> instant \<times> f64" where
  "reading (now, t, u, g, v) = (now, v)"

definition alerts_of :: "string \<Rightarrow> string \<Rightarrow> event list \<Rightarrow> (instant \<times> f64 \<times> f64) list" where
  "alerts_of t u evs = map (\<lambda>e. (ev_At e, ev_Value e, ev_Score e)) (filter (\<lambda>e. ev_TenantID e = t \<and> ev_Service e = u) evs)"

lemma alerts_of_append [simp]: "alerts_of t u (es @ fs) = alerts_of t u es @ alerts_of t u fs"
  by (simp add: alerts_of_def)

lemma observe_all_track:
  assumes "NUL \<notin> set t" "\<forall>(now, t', u', g', v) \<in> set os. NUL \<notin> set t' \<and> g' = g"
  shows "track d (series d t u g) (map reading (filter (of_series t u) os)) =
    (alerts_of t u (fst (observe_all d os)), series (snd (observe_all d os)) t u g)"
  using assms(2)
proof (induction d os rule: observe_all.induct)
  case (2 d now t' u' g' v os)
  let ?d = "snd (Observe d now t' u' g' v)"
  have nul: "NUL \<notin> set t'" and g: "g' = g" using "2.prems" by auto
  have "track ?d = track d"
    by (intro ext track_params) (simp add: same_params_def)
  moreover have "track ?d (series ?d t u g) (map reading (filter (of_series t u) os)) =
    (alerts_of t u (fst (observe_all ?d os)), series (snd (observe_all ?d os)) t u g)"
    by (rule "2.IH") (use "2.prems" in auto)
  ultimately have IH: "track d (series ?d t u g) (map reading (filter (of_series t u) os)) =
    (alerts_of t u (fst (observe_all ?d os)), series (snd (observe_all ?d os)) t u g)" by simp
  show ?case
  proof (cases "t' = t \<and> u' = u")
    case True
    then have "series ?d t u g = Some (next_baseline d now (series d t u g) v)" by (simp add: series_Observe g)
    moreover have "alerts_of t u (case fst (Observe d now t' u' g' v) of None \<Rightarrow> [] | Some e \<Rightarrow> [e])
        = (case alarm d (series d t u g) v of None \<Rightarrow> [] | Some z \<Rightarrow> [(now, v, z)])"
      using True by (simp add: g alerts_of_def Observe_step split: option.split)
    ultimately show ?thesis using IH True by simp
  next
    case False
    then have "series ?d t u g = series d t u g"
      using series_key_same_signal [OF assms(1) nul] by (auto simp: series_Observe g)
    moreover have "\<not> of_series t u (now, t', u', g', v)" using False by simp
    moreover have "alerts_of t u (case fst (Observe d now t' u' g' v) of None \<Rightarrow> [] | Some e \<Rightarrow> [e]) = []"
      using False by (auto simp: alerts_of_def Observe_step split: option.split)
    ultimately show ?thesis using IH False by auto
  qed
qed (simp add: alerts_of_def)

text \<open>A window holds one reading of each of its series.\<close>

lemma window_readings:
  assumes "distinct ks"
  shows "\<exists>now. map reading (filter (of_series t u) (window_obs nows i counts ks))
    = (if (t, u) \<in> set ks then [(now, counts (t, u))] else [])"
proof -
  have none: "filter (of_series t u) (window_obs nows i counts ks) = []" if "(t, u) \<notin> set ks" for ks i
    using that window_obs_keys [of _ t u _ _ nows i counts ks] by (force simp: filter_empty_conv)
  show ?thesis
  proof (cases "(t, u) \<in> set ks")
    case True
    then obtain xs ys where "ks = xs @ (t, u) # ys" "(t, u) \<notin> set xs" "(t, u) \<notin> set ys"
      using assms by (auto dest: split_list)
    then show ?thesis by (simp add: window_obs_append none)
  qed (simp add: none)
qed

subsection \<open>The worker against the windows of the log\<close>

text \<open>The error counts of a series in the windows that it occurs in, zeros included.\<close>

definition volumes :: "string \<Rightarrow> string \<Rightarrow> stored_entry list list \<Rightarrow> f64 list" where
  "volumes t u wins = map (\<lambda>win. real (error_count win (t, u))) (filter (\<lambda>win. (t, u) \<in> key_of ` set win) wins)"

abbreviation main_detector :: detector where
  "main_detector \<equiv> NewDetector (1 / 4) 3 15"

definition watches :: "anomaly_worker \<Rightarrow> stored_entry list list \<Rightarrow> event list \<Rightarrow> string \<Rightarrow> string \<Rightarrow> bool" where
  "watches w wins evs t u \<longleftrightarrow>
     (\<exists>os. map snd os = volumes t u wins \<and>
        track main_detector None os = (alerts_of t u evs, series (aw_det w) t u ''error_volume''))"

definition detects :: "mem_store \<Rightarrow> anomaly_worker \<Rightarrow> stored_entry list list \<Rightarrow> event list \<Rightarrow> bool" where
  "detects st w wins evs \<longleftrightarrow>
     (\<exists>rest. entries st = concat wins @ rest) \<and> list_all (\<lambda>win. win \<noteq> [] \<and> length win \<le> 100000) wins \<and>
     aw_lastID w = (if wins = [] then 0 else ID (last (last wins))) \<and> same_params (aw_det w) main_detector \<and>
     f_cap (aw_feed w) = 1000 \<and> f_events (aw_feed w) = last_n 1000 evs \<and> aw_onEvent w = length evs \<and>
     (\<forall>t u. NUL \<notin> set t \<longrightarrow> watches w wins evs t u)"

lemma detects_grows: "detects st w wins evs \<Longrightarrow> entries st' = entries st @ ys \<Longrightarrow> detects st' w wins evs"
  by (auto simp: detects_def)

text \<open>What the windows leave is what lies behind the checkpoint.\<close>

lemma behind_windows:
  assumes "store_ok st" "store_fits st" "detects st w wins evs" "entries st = concat wins @ rest"
  shows "filter (\<lambda>x. aw_lastID w < ID x) (entries st) = rest"
proof (cases "wins = []")
  case True
  then show ?thesis
    using assms(3,4) mem_source.ids_positive [OF conjI [OF assms(1,2)]] by (simp add: detects_def filter_id_conv)
next
  case False
  have "last wins \<noteq> []" using assms(3) False by (auto simp: detects_def list_all_iff)
  moreover have "wins = butlast wins @ [last wins]" using False by simp
  ultimately have whole: "concat wins = (concat (butlast wins) @ butlast (last wins)) @ [last (last wins)]"
    by (metis append.assoc append_Nil2 append_butlast_last_id concat.simps concat_append)
  have chk: "aw_lastID w = ID (last (last wins))" using assms(3) False by (simp add: detects_def)
  have "sorted_wrt (\<lambda>x y. ID x < ID y) (concat wins @ rest)"
    using mem_source.ids_ascend [OF conjI [OF assms(1,2)]] assms(4) by simp
  then have "\<forall>x \<in> set (concat wins). ID x \<le> aw_lastID w" "\<forall>x \<in> set rest. aw_lastID w < ID x"
    unfolding whole chk by (auto simp: sorted_wrt_append intro: less_imp_le)
  then show ?thesis by (auto simp: assms(4) filter_id_conv filter_empty_conv not_less)
qed

lemma watches_window:
  assumes "watches w wins evs t u" "same_params (aw_det w) main_detector" "NUL \<notin> set t"
    and "distinct ks" "set ks = key_of ` set es" "\<forall>x \<in> set es. NUL \<notin> set (TenantID (LogEntry x))"
    and "obs = window_obs nows 0 (\<lambda>k. real (error_count es k)) ks" "aw_det w' = snd (observe_all (aw_det w) obs)"
  shows "watches w' (wins @ [es]) (evs @ fst (observe_all (aw_det w) obs)) t u"
proof -
  obtain os where os: "map snd os = volumes t u wins"
    "track main_detector None os = (alerts_of t u evs, series (aw_det w) t u ''error_volume'')"
    using assms(1) by (auto simp: watches_def)
  let ?new = "map reading (filter (of_series t u) obs)"
  obtain now where "?new = (if (t, u) \<in> set ks then [(now, real (error_count es (t, u)))] else [])"
    using window_readings [OF assms(4), of t u nows 0] unfolding assms(7) by blast
  then have vol: "map snd (os @ ?new) = volumes t u (wins @ [es])"
    using os(1) by (simp add: volumes_def assms(5))
  have "\<forall>(now, t', u', g', v) \<in> set obs. NUL \<notin> set t' \<and> g' = ''error_volume''"
    using assms(5-7) window_obs_keys by (fastforce simp: key_of_def)
  from observe_all_track [OF assms(3) this, of "aw_det w" u]
  have "track main_detector (series (aw_det w) t u ''error_volume'') ?new =
    (alerts_of t u (fst (observe_all (aw_det w) obs)), series (aw_det w') t u ''error_volume'')"
    using track_params [OF assms(2)] by (simp add: assms(8))
  with os(2) have "track main_detector None (os @ ?new) =
    (alerts_of t u (evs @ fst (observe_all (aw_det w) obs)), series (aw_det w') t u ''error_volume'')"
    by (simp add: track_append)
  with vol show ?thesis unfolding watches_def by blast
qed

lemma detects_tick:
  assumes "detects st w wins evs" "store_ok st" "store_fits st" "map_order ord"
    and "\<forall>x \<in> set (entries st). NUL \<notin> set (TenantID (LogEntry x))"
  shows "\<exists>wins evs. detects st (anomaly_tick (Since st) ord nows w) wins evs"
  using assms(2-4)
proof (cases rule: anomaly_tick_window [where w = w and nows = nows])
  case idle
  with assms(1) show ?thesis by auto
next
  case (window es ks obs)
  let ?w = "anomaly_tick (Since st) ord nows w" and ?new = "fst (observe_all (aw_det w) obs)"
  obtain rest where rest: "entries st = concat wins @ rest" using assms(1) by (auto simp: detects_def)
  note behind = behind_windows [OF assms(2,3,1) rest]
  have split: "entries st = concat (wins @ [es]) @ filter (\<lambda>x. ID (last es) < ID x) (entries st)"
    using rest behind window(3) by simp
  have "set es \<subseteq> set (entries st)" using window(1) by (auto dest: in_set_takeD)
  then have nul: "\<forall>x \<in> set es. NUL \<notin> set (TenantID (LogEntry x))" using assms(5) by blast
  have par: "same_params (aw_det w) main_detector" using assms(1) by (simp add: detects_def)
  have old: "watches w wins evs t u" if "NUL \<notin> set t" for t u using assms(1) that by (simp add: detects_def)
  have "watches ?w (wins @ [es]) (evs @ ?new) t u" if "NUL \<notin> set t" for t u
    by (rule watches_window [OF old [OF that] par that window(4,5) nul window(6)]) (simp add: window(7))
  moreover have "f_events (aw_feed ?w) = last_n 1000 (evs @ ?new) \<and> f_cap (aw_feed ?w) = 1000"
    using pushes_keep_last [of "aw_feed w" evs ?new] assms(1) by (simp add: window(7) detects_def)
  moreover have "same_params (aw_det ?w) main_detector" using par by (simp add: window(7) same_params_def)
  moreover have "es \<noteq> [] \<and> length es \<le> 100000" using window(1,2) by simp
  ultimately have "detects st ?w (wins @ [es]) (evs @ ?new)"
    using split assms(1) unfolding detects_def by (auto simp: window(7))
  then show ?thesis by blast
qed

subsection \<open>Every run of the process\<close>

definition sys_detects :: "system \<Rightarrow> bool" where
  "sys_detects s \<longleftrightarrow> (store_fits (sy_store s) \<longrightarrow> (\<exists>wins evs. detects (sy_store s) (sy_anomaly s) wins evs))"

lemma detects_step:
  assumes "sys_step pl s s'" "sys_ok pl s" "sys_detects s"
  shows "sys_detects s'"
  unfolding sys_detects_def
proof
  assume fits': "store_fits (sy_store s')"
  obtain ys where ys: "entries (sy_store s') = entries (sy_store s) @ ys" using step_store_grows [OF assms(1)] ..
  then have fits: "store_fits (sy_store s)" using fits' by (simp add: store_fits_def)
  then obtain wins evs where d: "detects (sy_store s) (sy_anomaly s) wins evs" using assms(3) by (auto simp: sys_detects_def)
  have quiet: "\<exists>wins evs. detects (sy_store s') (sy_anomaly s') wins evs" if "sy_anomaly s' = sy_anomaly s" using detects_grows [OF d ys] that by auto
  from assms(1) show "\<exists>wins evs. detects (sy_store s') (sy_anomaly s') wins evs"
  proof (cases rule: sys_step.cases)
    case (detected ord nows)
    from detects_tick [OF d sys_ok_store(1) [OF assms(2)] fits detected(2) sys_ok_store(3) [OF assms(2)]] show ?thesis
      by (simp add: detected(1) sy_store_def)
  qed (rule quiet, simp add: published_def)+
qed

lemma startup_detects:
  assumes "startup parse_float pl E = Some s0"
  shows "sys_detects s0"
proof -
  have "aw_lastID (sy_anomaly s0) = 0" "aw_det (sy_anomaly s0) = main_detector" "aw_feed (sy_anomaly s0) = NewFeed 1000"
    "aw_onEvent (sy_anomaly s0) = 0"
    using assms by (auto simp: startup_def NewAnomaly_def Let_def split: option.splits prod.splits)
  then have "detects (sy_store s0) (sy_anomaly s0) [] []"
    by (simp add: detects_def watches_def volumes_def alerts_of_def same_params_def NewFeed_def last_n_def)
  then show ?thesis by (auto simp: sys_detects_def)
qed

lemma steps_detects:
  assumes "sys_steps pl s0 s" "startup parse_float pl E = Some s0"
  shows "sys_detects s"
  using assms(1)
proof (induction rule: rtranclp_induct)
  case (step t u)
  show ?case by (rule detects_step [OF step.hyps(2) reachable_ok [OF step.hyps(1) assms(2,2)] step.IH])
qed (rule startup_detects [OF assms(2)])

text \<open>
  C9. Detection is a function of the log and of where the polling cuts it: at any point of any run the
  stored log up to the worker's checkpoint is cut into consecutive windows, of one to 100000 entries,
  and for every tenant and service the alerts raised so far, with their times, values and scores, and
  the baseline are exactly those of one moving average that is fed the number of error entries of the
  service in each window that has entries of it, zeros included; the feed holds the last 1000 of all
  alerts, and all are counted. No other tenant, no map order and no interleaving changes them, and no
  error entry is missed or counted twice.
\<close>

theorem process_detects_exactly:
  assumes "startup parse_float pl E = Some s0" "sys_steps pl s0 s"
    and "length (p_accepted (sy_pipe s)) < 2 ^ 63" "w = sy_anomaly s" "stored = entries (sy_store s)"
  shows "\<exists>wins evs. stored = concat wins @ filter (\<lambda>x. aw_lastID w < ID x) stored \<and>
    list_all (\<lambda>win. win \<noteq> [] \<and> length win \<le> 100000) wins \<and>
    f_events (aw_feed w) = last_n 1000 evs \<and> aw_onEvent w = length evs \<and>
    (\<forall>t u. NUL \<notin> set t \<longrightarrow>
       (\<exists>os. map snd os = map (\<lambda>win. real (error_count win (t, u))) (filter (\<lambda>win. (t, u) \<in> key_of ` set win) wins) \<and>
          track (NewDetector (1 / 4) 3 15) None os =
            (map (\<lambda>e. (ev_At e, ev_Value e, ev_Score e)) (filter (\<lambda>e. ev_TenantID e = t \<and> ev_Service e = u) evs),
             series (aw_det w) t u ''error_volume'')))"
proof -
  have ok: "sys_ok pl s" by (rule reachable_ok [OF assms(2,1,1)])
  note fits = sys_ok_fits [OF ok assms(3)]
  obtain wins evs where d: "detects (sy_store s) w wins evs"
    using steps_detects [OF assms(2,1)] fits by (auto simp: sys_detects_def assms(4))
  then obtain rest where rest: "entries (sy_store s) = concat wins @ rest" by (auto simp: detects_def)
  from behind_windows [OF sys_ok_store(1) [OF ok] fits d rest] rest
  have "stored = concat wins @ filter (\<lambda>x. aw_lastID w < ID x) stored" by (simp add: assms(5))
  with d show ?thesis
    unfolding detects_def watches_def volumes_def alerts_of_def by (intro exI [of _ wins] exI [of _ evs]) blast
qed

text \<open>In the run of the alert: a window of the log in which the service has one error.\<close>

lemma track_alert_read: "(now, v, z) \<in> set (fst (track d bo os)) \<Longrightarrow> v \<in> snd ` set os"
  by (induction d bo os rule: track.induct) (auto split: option.splits if_splits)

theorem process_detects_exactly_witness:
  "\<exists>s0 s wins rest win u. startup (\<lambda>_. None) demo_platform Map.empty = Some s0 \<and> sys_steps demo_platform s0 s \<and>
     entries (sy_store s) = concat wins @ rest \<and> win \<in> set wins \<and> error_count win (''globex'', u) = 1 \<and>
     0 < aw_onEvent (sy_anomaly s)"
proof -
  from default_startup obtain s0 where s0: "startup (\<lambda>_. None) demo_platform Map.empty = Some s0" by blast
  from alert_run_exists [OF s0] obtain s e where run: "sys_steps demo_platform s0 s"
    "length (p_accepted (sy_pipe s)) = 16" "e \<in> set (Recent (aw_feed (sy_anomaly s)) ''globex'' 5)" "ev_Value e = 1" by blast
  have "length (p_accepted (sy_pipe s)) < 2 ^ 63" using run(2) by simp
  from process_detects_exactly [OF s0 run(1) this refl refl] obtain wins evs where
    w: "entries (sy_store s) = concat wins @ filter (\<lambda>x. aw_lastID (sy_anomaly s) < ID x) (entries (sy_store s))"
      "f_events (aw_feed (sy_anomaly s)) = last_n 1000 evs" "aw_onEvent (sy_anomaly s) = length evs"
    and all: "\<forall>t u. NUL \<notin> set t \<longrightarrow> watches (sy_anomaly s) wins evs t u"
    unfolding watches_def volumes_def alerts_of_def by blast
  have "e \<in> set (f_events (aw_feed (sy_anomaly s)))" "ev_TenantID e = ''globex''"
    using run(3) by (auto simp: Recent_def scan_back_spec Let_def dest!: in_set_takeD)
  then have e: "e \<in> set evs" "ev_TenantID e = ''globex''"
    by (auto simp: w(2) last_n_def dest: in_set_dropD)
  have "watches (sy_anomaly s) wins evs ''globex'' (ev_Service e)" using all by simp
  then obtain os where os: "map snd os = volumes ''globex'' (ev_Service e) wins"
    "fst (track main_detector None os) = alerts_of ''globex'' (ev_Service e) evs"
    by (auto simp: watches_def)
  have "(ev_At e, 1, ev_Score e) \<in> set (alerts_of ''globex'' (ev_Service e) evs)"
    using e run(4) by (force simp: alerts_of_def)
  then have "1 \<in> set (map snd os)" using track_alert_read [of "ev_At e" 1 "ev_Score e" main_detector None os] by (simp add: os(2))
  then obtain win where "win \<in> set wins" "real (error_count win (''globex'', ev_Service e)) = 1"
    unfolding os(1) by (auto simp: volumes_def)
  moreover have "0 < aw_onEvent (sy_anomaly s)" using e(1) w(3) by (cases evs) auto
  ultimately show ?thesis using s0 run(1) w(1) by (metis of_nat_eq_1_iff)
qed

end
