(* ===== verification/Spec2Isabelle.thy ===== *)
theory Spec2Isabelle
  imports RedactionProps Lifecycle Detection
begin

text \<open>
  A model of sentinellog, a multi-tenant log ingestion and incident query service written in Go
  (\<^verbatim>\<open>src/cmd\<close>, \<^verbatim>\<open>src/internal\<close>), and the theorems that make it correct.

  \<^bold>\<open>The program.\<close> A request to \<^verbatim>\<open>/v1/ingest\<close> is authenticated by its bearer token, takes a token of
  its tenant's bucket, is decoded, and each entry is validated, stamped with the tenant of the
  token, redacted and published into a bounded channel (the buffer). The batch writer empties
  the channel into the log store. Two workers poll the store behind a checkpoint: one embeds new
  content into the vector store, one counts errors per series and feeds the anomaly detector,
  whose events go to a bounded feed. The query layer answers four endpoints under the tenant and
  role of the caller: structured search, semantic search, the "why did it fail" answer with
  citations, and the anomaly feed; searches and answers are written to a hash-chained audit log.
  A knowledge base of runbooks is indexed beside the logs. All of it is one process.

  \<^bold>\<open>Theories and their sources\<close> (under \<^verbatim>\<open>src/internal\<close>), each with the state of the component as a
  record and one definition per function:
  \<^item> \<open>Prelude\<close>: machine types, time, the backwards scan and the binary search of package sort;
    \<open>GoStrings\<close>: strings as bytes, UTF-8, packages strings and strconv; \<open>Sha256\<close>: \<open>Sum256\<close>.
  \<^item> \<open>LogModel\<close>: \<^verbatim>\<open>model/log.go\<close>, \<^verbatim>\<open>model/stored.go\<close>. \<open>Rbac\<close>: \<^verbatim>\<open>rbac/rbac.go\<close>.
  \<^item> \<open>Redaction\<close> and \<open>RedactionProps\<close>: \<^verbatim>\<open>redaction/redactor.go\<close> (a backtracking matcher for the part of
    package regexp the seven patterns use; the entropy layer; the Luhn check).
  \<^item> \<open>Buffer\<close>: \<^verbatim>\<open>buffer/buffer.go\<close>; \<open>RateLimit\<close>: \<^verbatim>\<open>ratelimit/tokenbucket.go\<close>; \<open>Ingest\<close>: \<^verbatim>\<open>ingest/auth.go\<close>,
    \<^verbatim>\<open>ingest/handler.go\<close>; \<open>Writer\<close>: \<^verbatim>\<open>writer/writer.go\<close>.
  \<^item> \<open>Interfaces\<close>: the Go interfaces as locales: \<open>batch_sink\<close> and \<open>reliable_sink\<close> (\<open>writer.Store\<close>),
    \<open>log_source\<close> and \<open>tenant_reader\<close> (\<open>store.LogStore\<close>), \<open>vector_index\<close> (\<open>vector.Store\<close>).
  \<^item> \<open>Store\<close>: \<^verbatim>\<open>store/store.go\<close>, with the interpretations \<open>mem_sink\<close>, \<open>mem_source\<close>, \<open>mem_reader\<close>.
  \<^item> \<open>Embedding\<close>: \<^verbatim>\<open>embed/embed.go\<close> (locale \<open>embedder\<close>); \<open>VectorStore\<close>: \<^verbatim>\<open>vector/vector.go\<close> (locale
    \<open>slice_sorter\<close> for \<open>sort.Slice\<close>, a sublocale of \<open>vector_index\<close>); \<open>KnowledgeBase\<close>: \<^verbatim>\<open>kb/kb.go\<close>.
  \<^item> \<open>EmbedWorker\<close>, \<open>AnomalyWorker\<close>: \<^verbatim>\<open>worker/\<close>; the locale \<open>embed_pipeline\<close> joins a log source and an
    index and proves what polling achieves, interpreted on the in-memory stores as \<open>mem_indexing\<close>.
  \<^item> \<open>Anomaly\<close>: \<^verbatim>\<open>anomaly/\<close>; \<open>AuditLog\<close>: \<^verbatim>\<open>audit/audit.go\<close>.
  \<^item> \<open>Query\<close>: \<^verbatim>\<open>query/service.go\<close>, \<^verbatim>\<open>query/rag.go\<close>; \<open>QueryHandler\<close>: \<^verbatim>\<open>query/handler.go\<close>.
  \<^item> \<open>Metrics\<close>: \<^verbatim>\<open>metrics/metrics.go\<close>; \<open>Config\<close>: \<^verbatim>\<open>config/config.go\<close>.
  \<^item> \<open>Pipeline\<close>: buffer, writer and shutdown as a step relation; \<open>System\<close>: \<^verbatim>\<open>cmd/ingest/main.go\<close>, its
    start-up and one step relation \<open>sys_step\<close> for all goroutines and requests; \<open>Requests\<close>: the routes of
    its multiplexer (\<open>main_serve\<close>); \<open>Bounds\<close>: what its sizes bound; \<open>Lifecycle\<close>: the rest of \<open>main\<close>, from the
    goroutines it spawns to its return, as the step relation \<open>life_step\<close> on \<open>proc\<close> (the requests in
    flight, the phase of \<open>main\<close>, which goroutines have ended); \<open>Reports\<close>: what the feed and the metrics
    page say, and in \<open>AlertRun\<close> a run that raises an alert; \<open>Detection\<close>: the alerts and baselines of any
    run against a specification with one moving average per series (\<open>track\<close>) over windows of the log;
    this theory: the properties of the whole process.

  \<^bold>\<open>How code becomes definitions.\<close> Mutable state is passed and returned; a method under a mutex is one
  step. Where goroutines meet, the steps form an inductive relation, so theorems about
  reachable states hold under every interleaving; an ingest request is cut into its limiter step
  and one step per published entry, and a query, which is one step, may as well resolve its hits
  later, as a theorem below shows. Errors are the left summand or \<open>None\<close>; a panic is \<open>None\<close>. Go maps are
  HOL maps or association lists; an iteration over a map goes through an arbitrary order. Clock
  readings are arguments. Unsigned integers are words, so counters and IDs wrap; theorems that
  need it assume that fewer than 2 to the 63 entries were accepted.

  \<^bold>\<open>What the lemmas show.\<close> Per component: its invariant and that each operation keeps it (collection
  \<open>preserves\<close>), the closed form of its loops, its behaviour on every branch; for the stores the
  laws of the interfaces. Across components: conservation of accepted entries, isolation of
  tenants at the stores, the detector, the vector index and the HTTP surface, permission and
  audit of every query, grounding of answers; and for the whole process well-formedness of every
  reachable state, its bounds, exactness of the index, of the detection and of the metrics, the origin of answers and
  alerts, the independence of a tenant's searches from other tenants, and that all accepted entries
  can become searchable; for its life that it refines these steps, that the shutdown can always complete, that
  a clean exit has stored what was accepted before the writer returned, and when handlers panic.
  Some theorems show a weakness instead: secrets the redactor leaves, entries lost at shutdown,
  a channel closed under running handlers, a partly accepted request, ambiguous audit data, a configuration that panics, unused dead letters.

  \<^bold>\<open>Bounds.\<close> No definition uses fuel that can run out: the repetitions of the matcher are given as many
  iterations as bytes are left, and the repeated bodies of the patterns consume; every other loop
  is structural or has a measure (binary search, trimming, durations). The drain loop of the
  writer, which ends only when the channel is empty, is a partial function shown to return.

  \<^bold>\<open>Parameters\<close>, for what is not under src/ or left open by the language: the Unicode tables, JSON
  decoding and encoding, the text of a floating point number, \<open>ParseFloat\<close>, the order \<open>sort.Slice\<close>
  gives to equal elements, map iteration order.

  \<^bold>\<open>Not modelled\<close>: rounding, infinities and NaN of floating point numbers (they are exact reals, so
  \<open>%.2f\<close> and the fractions of durations round the exact value); the inside of package net/http
  (connections, path cleaning; a panicking handler only ends its request); how long things take: the
  two time limits of the shutdown may fire at any time and the flush limit of 10 s never does; log
  lines; memory exhaustion; data races inside one operation. The tests are not part of the model.
\<close>

section \<open>Properties of the whole process\<close>

text \<open>
  C2. Every state the process can reach is well-formed, whatever the goroutines and requests do: what
  was accepted is stored, in the batch or queued, once and in order; all of it was sent in with a
  token of its tenant, passed validation and went through redaction; every item of a tenant's
  index stands for an entry or a document of that tenant; and the audit log verifies.
\<close>

theorem process_well_formed:
  assumes "startup parse_float pl E = Some s0" "sys_steps pl s0 s"
  shows "stored_log (sy_pipe s) @ w_batch (p_writer (sy_pipe s)) @ ch (p_buf (sy_pipe s)) = p_accepted (sy_pipe s) \<and>
    list_all legit (p_accepted (sy_pipe s)) \<and>
    (\<forall>t. list_all (grounded pl (sy_store s) (sy_kb s) t) (part (ew_vec (sy_embed s)) t)) \<and>
    Verify (sy_audit s) = (True, 0)"
proof -
  have ok: "sys_ok pl s" by (rule reachable_ok [OF assms(2,1,1)])
  with sys_ok_hot_path [OF ok] show ?thesis by (simp add: sys_ok_def audit_ok_def)
qed


subsection \<open>What a query returns\<close>

text \<open>
  C1. Everything a query returns traces back to its own tenant: at any point of any run each entry of a
  structured search and each hit of a semantic search is an entry that was sent in with a token of
  the tenant of the caller and redacted, or a document of that tenant, shown with its own content.
\<close>

theorem answers_trace_back:
  assumes "startup parse_float pl E = Some s0" "sys_steps pl s0 s" "slice_sorter (pl_sort pl)"
    and "length (p_accepted (sy_pipe s)) < 2 ^ 63" "t = id_TenantID who"
    and "StructuredSearch (main_service pl s) now who q = (Inr xs, s1)"
    and "SemanticSearch (main_service pl s) now who question k = (Inr hs, s2)"
  shows "(\<forall>x \<in> set xs. legit (LogEntry x) \<and> TenantID (LogEntry x) = t) \<and>
    (\<forall>h \<in> set hs.
       (\<exists>x \<in> set (entries (sy_store s)). legit (LogEntry x) \<and> TenantID (LogEntry x) = t \<and>
          sh_Ref h = Ref x \<and> sh_Snippet h = Message (LogEntry x)) \<or>
       (\<exists>d \<in> docs_of (sy_kb s). doc_TenantID d = t \<and> sh_Ref h = DocRef d \<and>
          sh_Snippet h = doc_Title d @ em_dash @ truncate_string (doc_Content d) 240))"
proof -
  have ok: "sys_ok pl s" by (rule reachable_ok [OF assms(2,1,1)])
  note store = sys_ok_store(1,2) [OF ok]
  have fits: "store_fits (sy_store s)" using sys_ok_fits [OF ok assms(4)] .
  have kb: "kb_ok (sy_kb s)" using ok by (simp add: sys_ok_def)
  have "x \<in> set (entries (sy_store s)) \<and> TenantID (LogEntry x) = t" if "x \<in> set xs" for x
    using mem_reader.search_scoped [OF conjI [OF store(1) fits] _ that, of "pl_unicode pl"] assms(5,6)
    by (auto simp: StructuredSearch_def main_service_def Let_def split: if_splits)
  moreover
  let ?svc = "mem_service (pl_unicode pl) (pl_sort pl) (main_embed pl) (sy_store s) (ew_vec (sy_embed s)) (sy_kb s)"
  have "(\<exists>x \<in> set (entries (sy_store s)). TenantID (LogEntry x) = t \<and> sh_Ref h = Ref x \<and>
          sh_Snippet h = Message (LogEntry x)) \<or>
       (\<exists>d \<in> docs_of (sy_kb s). doc_TenantID d = t \<and> sh_Ref h = DocRef d \<and>
          sh_Snippet h = doc_Title d @ em_dash @ truncate_string (doc_Content d) 240)" if "h \<in> set hs" for h
  proof -
    have "hs = resolve_hits (main_service pl s) t
        (SearchVec (pl_sort pl) (ew_vec (sy_embed s)) t (main_embed pl question) k)"
      using assms(5,7) SemanticSearch_allowed [of who "main_service pl s" now question k]
      by (cases "Can (id_Role who) ActionSearch") (simp_all add: SemanticSearch_def)
    with that resolve_hits_in obtain g where g: "g \<in> set (SearchVec (pl_sort pl) (ew_vec (sy_embed s)) t (main_embed pl question) k)"
      "sh_Ref h = it_Ref (h_Item g)" "sh_Snippet h = resolveSnippet (?svc (sy_audit s) (15 / 100)) t (it_Ref (h_Item g))"
      unfolding main_service_def by blast
    from SearchVec_in [OF assms(3) g(1)] have "grounded pl (sy_store s) (sy_kb s) t (h_Item g)"
      using ok by (auto simp: sys_ok_def list_all_iff)
    then show ?thesis
      unfolding grounded_def
    proof (elim disjE bexE conjE)
      fix x assume "x \<in> set (entries (sy_store s))" "TenantID (LogEntry x) = t" "h_Item g = log_item (main_embed pl) main_version x"
      with g(2,3) resolve_log [OF store(1) fits] show ?thesis by (auto simp: log_item_def)
    next
      fix d assume "d \<in> docs_of (sy_kb s)" "doc_TenantID d = t" "it_Ref (h_Item g) = DocRef d"
      with g(2,3) resolve_doc [OF kb] show ?thesis by auto
    qed
  qed
  ultimately show ?thesis using store(2) by blast
qed

text \<open>A reference resolves alike at all later moments: the log only grows, the documents stay.\<close>

lemma steps_grow:
  assumes "sys_steps pl s s'"
  shows "sy_kb s' = sy_kb s \<and> (\<exists>ys. entries (sy_store s') = entries (sy_store s) @ ys)"
  using assms
proof (induction rule: rtranclp_induct)
  case (step t u)
  have "sy_kb u = sy_kb t" using step.hyps(2) by (cases rule: sys_step.cases) (simp_all add: published_def)
  with step.IH step_store_grows [OF step.hyps(2)] show ?case by (metis append.assoc)
qed simp

lemma grounded_stable:
  assumes "sys_ok pl z" "sys_ok pl z'" "sys_steps pl z z'" "store_fits (sy_store z')"
    and "grounded pl (sy_store z) (sy_kb z) t it"
  shows "resolveSnippet (main_service pl z') t (it_Ref it) = resolveSnippet (main_service pl z) t (it_Ref it)"
proof -
  obtain ys where grow: "sy_kb z' = sy_kb z" "entries (sy_store z') = entries (sy_store z) @ ys"
    using steps_grow [OF assms(3)] by blast
  have fits: "store_fits (sy_store z)" using assms(4) grow(2) by (simp add: store_fits_def)
  have kb: "kb_ok (sy_kb z)" "kb_ok (sy_kb z')" using assms(1,2) by (simp_all add: sys_ok_def)
  note now = resolve_log [OF sys_ok_store(1) [OF assms(1)] fits] resolve_doc [OF kb(1)]
  note later = resolve_log [OF sys_ok_store(1) [OF assms(2)] assms(4)] resolve_doc [OF kb(2)]
  from assms(5) show ?thesis
    unfolding grounded_def main_service_def
  proof (elim disjE bexE conjE)
    fix x assume "x \<in> set (entries (sy_store z))" "it = log_item (main_embed pl) main_version x"
    then show "resolveSnippet (mem_service (pl_unicode pl) (pl_sort pl) (main_embed pl) (sy_store z') (ew_vec (sy_embed z')) (sy_kb z') (sy_audit z') (15 / 100)) t (it_Ref it)
      = resolveSnippet (mem_service (pl_unicode pl) (pl_sort pl) (main_embed pl) (sy_store z) (ew_vec (sy_embed z)) (sy_kb z) (sy_audit z) (15 / 100)) t (it_Ref it)"
      by (simp add: log_item_def now later grow(2))
  next
    fix d assume "d \<in> docs_of (sy_kb z)" "it_Ref it = DocRef d"
    then show "resolveSnippet (mem_service (pl_unicode pl) (pl_sort pl) (main_embed pl) (sy_store z') (ew_vec (sy_embed z')) (sy_kb z') (sy_audit z') (15 / 100)) t (it_Ref it)
      = resolveSnippet (mem_service (pl_unicode pl) (pl_sort pl) (main_embed pl) (sy_store z) (ew_vec (sy_embed z)) (sy_kb z) (sy_audit z) (15 / 100)) t (it_Ref it)"
      by (simp add: now later grow(1))
  qed
qed

lemma resolve_hits_cong_on:
  "(\<And>h. h \<in> set hs \<Longrightarrow> resolveSnippet s' t (it_Ref (h_Item h)) = resolveSnippet s t (it_Ref (h_Item h))) \<Longrightarrow>
   resolve_hits s' t hs = resolve_hits s t hs"
  by (induction hs) (simp_all add: Let_def)

text \<open>
  C27. A query need not be atomic: a semantic search reads the index at one moment and resolves its hits
  one by one later, while writer and workers go on; every hit resolves at any later moment to the
  snippet that it had at the moment of the search, so the results are those of one state.
\<close>

theorem searches_see_one_state:
  assumes "startup parse_float pl E = Some s0" "sys_steps pl s0 s" "sys_steps pl s s'"
    and "slice_sorter (pl_sort pl)" "length (p_accepted (sy_pipe s')) < 2 ^ 63"
    and "hs = SearchVec (pl_sort pl) (ew_vec (sy_embed s)) t v k"
  shows "(\<forall>h \<in> set hs. resolveSnippet (main_service pl s') t (it_Ref (h_Item h))
                      = resolveSnippet (main_service pl s) t (it_Ref (h_Item h))) \<and>
    resolve_hits (main_service pl s') t hs = resolve_hits (main_service pl s) t hs"
proof -
  have ok: "sys_ok pl s" by (rule reachable_ok [OF assms(2,1,1)])
  have ok': "sys_ok pl s'" by (rule reachable_ok [OF rtranclp_trans [OF assms(2,3)] assms(1,1)])
  have same: "resolveSnippet (main_service pl s') t (it_Ref (h_Item h)) = resolveSnippet (main_service pl s) t (it_Ref (h_Item h))"
    if "h \<in> set hs" for h
  proof (rule grounded_stable [OF ok ok' assms(3) sys_ok_fits [OF ok' assms(5)]])
    show "grounded pl (sy_store s) (sy_kb s) t (h_Item h)"
      using SearchVec_in [OF assms(4) that [unfolded assms(6)]] ok by (auto simp: sys_ok_def list_all_iff)
  qed
  with resolve_hits_cong_on [OF same] show ?thesis by blast
qed

subsection \<open>The index, and how entries get into it\<close>

lemma seeded_no_log_refs:
  "Ref x \<notin> it_Ref ` set (part (snd (seedKB (main_embed pl) main_version Upsert (NewKB, NewMemVector))) t)"
proof
  assume "Ref x \<in> it_Ref ` set (part (snd (seedKB (main_embed pl) main_version Upsert (NewKB, NewMemVector))) t)"
  then obtain kb d where "Ref x = DocRef d"
    using seedKB_sound [of pl NewMem] by (fastforce simp: kb_sound_def list_all_iff grounded_def NewMem_def)
  then show False by (simp add: Ref_def DocRef_def)
qed

lemma index_contents:
  assumes "sys_ok pl s" "sys_indexed pl (snd (seedKB (main_embed pl) main_version Upsert (NewKB, NewMemVector))) s"
    and "length (p_accepted (sy_pipe s)) < 2 ^ 63"
    and "processed = filter (\<lambda>x. ID x \<le> Checkpoint (sy_embed s)) (entries (sy_store s))"
  shows "part (ew_vec (sy_embed s)) t
      = part (snd (seedKB (main_embed pl) main_version Upsert (NewKB, NewMemVector))) t
        @ map (log_item (main_embed pl) main_version) (filter (\<lambda>x. TenantID (LogEntry x) = t) (fresh {} processed))"
proof -
  have src: "store_ok (sy_store s) \<and> store_fits (sy_store s)"
    using sys_ok_store(1) [OF assms(1)] sys_ok_fits [OF assms(1,3)] ..
  then have up: "processed = EmbedWorker.upto 0 (sy_embed s) (entries (sy_store s))"
    using mem_source.ids_positive [OF src] by (auto simp: assms(4) EmbedWorker.upto_def Checkpoint_def intro!: filter_cong)
  have "index_ok (snd (seedKB (main_embed pl) main_version Upsert (NewKB, NewMemVector)))"
    using seedKB_sound [of pl NewMem] by (simp add: kb_sound_def)
  moreover have "\<forall>x \<in> set (entries (sy_store s)). TenantID (LogEntry x) \<noteq> [] \<and> NUL \<notin> set (TenantID (LogEntry x))"
    using sys_ok_store(2) [OF assms(1)] legit_facts(5,6) by blast
  moreover have "indexed_upto pl (snd (seedKB (main_embed pl) main_version Upsert (NewKB, NewMemVector))) s"
    using assms(2) src by (simp add: sys_indexed_def)
  ultimately show ?thesis
    using mem_indexing.caught_indexes [OF _ src _ up] seeded_no_log_refs by simp
qed


text \<open>Runs of the worker as runs of the process.\<close>

lemma index_step:
  "sys_step pl (s\<lparr>sy_embed := w\<rparr>)
     (s\<lparr>sy_embed := embed_tick (main_embed pl) main_version Upsert now (Since (sy_store s)) w\<rparr>)"
  using sys_step.indexed [of pl "s\<lparr>sy_embed := w\<rparr>" now] by (simp add: sy_store_def)

lemma index_run:
  "sys_steps pl (s\<lparr>sy_embed := w\<rparr>) (s\<lparr>sy_embed :=
     foldl (\<lambda>w st. embed_tick (main_embed pl) main_version Upsert now (Since st) w) w (replicate n (sy_store s))\<rparr>)"
proof (induction n arbitrary: w)
  case (Suc n)
  show ?case
    using converse_rtranclp_into_rtranclp [of "sys_step pl", OF index_step Suc.IH] by simp
qed simp

text \<open>
  C5. What is accepted can always become searchable: from any reachable state in which the writer still
  runs, the process can go on, without anything new being accepted, to a state in which the store
  holds every accepted entry, the worker has no lag, and every content has an item in the index.
\<close>

theorem entries_become_searchable:
  assumes "startup parse_float pl E = Some s0" "sys_steps pl s0 s"
    and "length (p_accepted (sy_pipe s)) < 2 ^ 63" "w_phase (p_writer (sy_pipe s)) = Running"
  shows "\<exists>s'. sys_steps pl s s' \<and> stored_log (sy_pipe s') = p_accepted (sy_pipe s) \<and>
    fst (Lag (Since (sy_store s')) (sy_embed s')) = 0 \<and>
    (\<forall>x \<in> set (p_accepted (sy_pipe s)). \<exists>y \<in> set (entries (sy_store s')).
       ContentHash (LogEntry y) = ContentHash x \<and>
       log_item (main_embed pl) main_version y \<in> set (part (ew_vec (sy_embed s')) (TenantID (LogEntry y))))"
proof -
  have ok: "sys_ok pl s" by (rule reachable_ok [OF assms(2,1,1)])
  then have "mem_sink.pipe_inv (sy_pipe s)" by (simp add: sys_ok_def)
  from mem_sink.running_stores_all [OF this assms(4)] obtain p where
    quiet: "(writer_move WriteBatch)\<^sup>*\<^sup>* (sy_pipe s) p"
    and p: "ch (p_buf p) = []" "w_batch (p_writer p) = []" by blast
  have acc: "p_accepted p = p_accepted (sy_pipe s)" using writer_moves_keep [OF quiet] by blast
  let ?s1 = "s\<lparr>sy_pipe := p\<rparr>"
  let ?w = "foldl (\<lambda>w st. embed_tick (main_embed pl) main_version Upsert 0 (Since st) w) (sy_embed ?s1)
    (replicate (length (entries (sy_store ?s1))) (sy_store ?s1))"
  let ?s = "?s1\<lparr>sy_embed := ?w\<rparr>"
  have "sys_steps pl ?s1 ?s"
    using index_run [where pl = pl and s = ?s1 and w = "sy_embed ?s1" and now = 0 and n = "length (entries (sy_store ?s1))"] by simp
  with pipe_run [OF quiet] have run: "sys_steps pl s ?s" by (rule rtranclp_trans)
  then have reach: "sys_steps pl s0 ?s" using assms(2) by (rule rtranclp_trans [rotated])
  have ok': "sys_ok pl ?s" by (rule reachable_ok [OF reach assms(1,1)])
  have few: "length (p_accepted (sy_pipe ?s)) < 2 ^ 63" using assms(3) acc by simp
  have same: "sy_store ?s = sy_store ?s1" by (simp add: sy_store_def)
  have src: "store_ok (sy_store ?s1) \<and> store_fits (sy_store ?s1)"
    using sys_ok_store(1) [OF ok'] sys_ok_fits [OF ok' few] unfolding same ..
  have stored: "stored_log (sy_pipe ?s) = p_accepted (sy_pipe s)"
    using sys_ok_hot_path [OF ok'] p acc by simp
  have "length (pending (sy_embed ?s1) (entries (sy_store ?s1))) \<le> length (entries (sy_store ?s1))"
    unfolding pending_def by (rule length_filter_le)
  also have "\<dots> = length (entries (sy_store ?s1)) * 1" by simp
  also have "\<dots> \<le> length (entries (sy_store ?s1)) * since_limit (ew_batch (sy_embed ?s1))"
    by (rule mult_le_mono2) (use since_limit_pos in \<open>simp add: Suc_le_eq\<close>)
  finally have "length (pending (sy_embed ?s1) (entries (sy_store ?s1)))
      \<le> length (entries (sy_store ?s1)) * since_limit (ew_batch (sy_embed ?s1))" .
  from ticks_catch_up [OF conjunct1 [OF src] conjunct2 [OF src] this refl, of "main_embed pl" main_version 0]
  have all: "\<forall>x \<in> set (entries (sy_store ?s1)). ID x \<le> Checkpoint ?w"
    and "fst (Lag (Since (sy_store ?s1)) ?w) = 0" by blast+
  then have lag: "fst (Lag (Since (sy_store ?s)) (sy_embed ?s)) = 0" unfolding same by simp
  have "entries (sy_store ?s) = filter (\<lambda>x. ID x \<le> Checkpoint (sy_embed ?s)) (entries (sy_store ?s))"
    using all unfolding same by (simp add: filter_id_conv)
  from index_contents [OF ok' reachable_indexed [OF reach assms(1,1)] few this]
  have part: "log_item (main_embed pl) main_version y \<in> set (part (ew_vec (sy_embed ?s)) (TenantID (LogEntry y)))"
    if "y \<in> set (fresh {} (entries (sy_store ?s)))" for y using that by auto
  have "\<exists>y \<in> set (fresh {} (entries (sy_store ?s))). ContentHash (LogEntry y) = ContentHash x"
    if "x \<in> set (p_accepted (sy_pipe s))" for x
  proof -
    have "x \<in> LogEntry ` set (entries (sy_store ?s))"
      using that unfolding stored [symmetric] by (simp add: stored_log_def abs_log_def sy_store_def)
    then obtain z where "z \<in> set (entries (sy_store ?s))" "x = LogEntry z" by (rule imageE)
    with fresh_covers [of z "entries (sy_store ?s)"] show ?thesis by simp
  qed
  with part fresh_subset [of "{}" "entries (sy_store ?s)"] run stored lag show ?thesis
    by (intro exI [of _ ?s]) blast
qed

subsection \<open>One tenant does not see another\<close>

lemma Search_own:
  "map LogEntry (case Search u st q of Inr xs \<Rightarrow> xs | Inl _ \<Rightarrow> []) =
     (if q_TenantID q = [] then []
      else take (if q_Limit q \<le> 0 then 100 else nat (q_Limit q))
        (filter (\<lambda>e. matches u \<lparr>ID = 0, LogEntry = e\<rparr> q) (rev (filter (\<lambda>e. TenantID e = q_TenantID q) (abs_log st)))))"
proof -
  let ?P = "\<lambda>e. matches u \<lparr>ID = 0, LogEntry = e\<rparr> q" and ?T = "\<lambda>e. TenantID e = q_TenantID q"
  have no_id: "matches u x q = ?P (LogEntry x)" for x by (simp add: matches_def)
  have "filter ?P (rev (filter ?T xs)) = filter ?P (rev xs)" for xs
    by (induction xs) (auto dest: matches_tenant)
  moreover have "map LogEntry (filter (\<lambda>x. matches u x q) ys) = filter ?P (map LogEntry ys)" for ys
  proof (induction ys)
    case (Cons y ys)
    with no_id [of y] show ?case by simp
  qed simp
  ultimately show ?thesis by (simp add: Search_closed_form abs_log_def rev_map flip: take_map)
qed

text \<open>
  C7. What a tenant finds depends on its own entries alone: in any two reachable states, of any two
  runs with any configurations, whose stores hold the same entries of a tenant in the same order,
  every structured search of that tenant finds the same entries, however many entries other tenants
  have sent in between and whatever their log IDs; and what the store holds of a tenant is the
  first part of what was accepted from it.
\<close>

theorem searches_depend_on_own_entries:
  assumes "startup parse_float pl E = Some s0" "sys_steps pl s0 s"
    and "startup parse_float' pl E' = Some s0'" "sys_steps pl s0' s'"
    and "id_TenantID who = t"
    and "filter (\<lambda>e. TenantID e = t) (stored_log (sy_pipe s)) = filter (\<lambda>e. TenantID e = t) (stored_log (sy_pipe s'))"
  shows "map_sum id (map LogEntry) (fst (StructuredSearch (main_service pl s) now who q)) =
      map_sum id (map LogEntry) (fst (StructuredSearch (main_service pl s') now' who q)) \<and>
    (\<exists>rest. filter (\<lambda>e. TenantID e = t) (p_accepted (sy_pipe s)) = filter (\<lambda>e. TenantID e = t) (stored_log (sy_pipe s)) @ rest)"
proof -
  let ?q = "q\<lparr>q_TenantID := t\<rparr>"
  have found: "fst (StructuredSearch (main_service pl z) now who q) =
      (if Can (id_Role who) ActionSearch then Search (pl_unicode pl) (sy_store z) ?q else Inl ErrForbidden)" for z now
    using assms(5) by (simp add: StructuredSearch_def main_service_def Let_def)
  have own: "map_sum id (map LogEntry) (Search (pl_unicode pl) st ?q) =
      Inr (map LogEntry (case Search (pl_unicode pl) st ?q of Inr xs \<Rightarrow> xs | Inl _ \<Rightarrow> []))" for st
    by (simp add: Search_closed_form)
  have "filter (\<lambda>e. TenantID e = t) (abs_log (sy_store s)) = filter (\<lambda>e. TenantID e = t) (abs_log (sy_store s'))"
    using assms(6) by (simp add: stored_log_def sy_store_def)
  then have "map_sum id (map LogEntry) (fst (StructuredSearch (main_service pl s) now who q)) =
      map_sum id (map LogEntry) (fst (StructuredSearch (main_service pl s') now' who q))"
    unfolding found by (simp add: own Search_own)
  moreover have "p_accepted (sy_pipe s) = stored_log (sy_pipe s) @ w_batch (p_writer (sy_pipe s)) @ ch (p_buf (sy_pipe s))"
    using sys_ok_hot_path [OF reachable_ok [OF assms(2,1,1)]] by simp
  ultimately show ?thesis by simp
qed

subsection \<open>Start-up\<close>


section \<open>The properties on a concrete run\<close>

theorem process_well_formed_witness:
  "\<exists>s0 s. startup (\<lambda>_. None) demo_platform Map.empty = Some s0 \<and> sys_steps demo_platform s0 s \<and>
     p_accepted (sy_pipe s) = [sent_entry] \<and> legit sent_entry \<and> Verify (sy_audit s) = (True, 0)"
proof -
  from demo_run_exists obtain s0 s where "startup (\<lambda>_. None) demo_platform Map.empty = Some s0"
    "sys_steps demo_platform s0 s" "p_accepted (sy_pipe s) = [sent_entry]" by blast
  with process_well_formed [of "\<lambda>_. None" demo_platform Map.empty s0 s] show ?thesis by auto
qed

theorem answers_trace_back_witness:
  "\<exists>s0 s xs s1. startup (\<lambda>_. None) demo_platform Map.empty = Some s0 \<and> sys_steps demo_platform s0 s \<and>
     StructuredSearch (main_service demo_platform s) 1 \<lparr>Actor = ''dave'', id_TenantID = ''globex'', id_Role = Admin\<rparr>
       (empty_query []) = (Inr xs, s1) \<and> map LogEntry xs = [sent_entry] \<and> legit sent_entry"
proof -
  let ?who = "\<lparr>Actor = ''dave'', id_TenantID = ''globex'', id_Role = Admin\<rparr>"
  from demo_run_exists obtain s0 s where run: "startup (\<lambda>_. None) demo_platform Map.empty = Some s0"
    "sys_steps demo_platform s0 s" "p_accepted (sy_pipe s) = [sent_entry]"
    "entries (sy_store s) = [\<lparr>ID = 1, LogEntry = sent_entry\<rparr>]" by blast
  have "fst (StructuredSearch (main_service demo_platform s) 1 ?who (empty_query [])) = Inr [\<lparr>ID = 1, LogEntry = sent_entry\<rparr>]"
    by (simp add: StructuredSearch_def main_service_def Search_closed_form run(4) matches_def empty_query_def
        sent_entry_facts Let_def)
  then obtain s1 where xs: "StructuredSearch (main_service demo_platform s) 1 ?who (empty_query [])
      = (Inr [\<lparr>ID = 1, LogEntry = sent_entry\<rparr>], s1)" by (metis prod.collapse)
  have "SemanticSearch (main_service demo_platform s) 1 ?who ''db'' 5
      = (Inr (resolve_hits (main_service demo_platform s) ''globex''
           (SearchVec insertionSort (ew_vec (sy_embed s)) ''globex'' (main_embed demo_platform ''db'') 5)),
         audit_as (main_service demo_platform s) 1 ?who ActionSearch (''semantic:'' @ truncate_string ''db'' 64))"
    by (subst SemanticSearch_allowed) (simp_all add: demo_platform_def)
  from answers_trace_back [OF run(1,2) _ _ refl xs this] run xs
  show ?thesis by (auto simp: demo_platform_def insertion.slice_sorter_axioms)
qed


theorem entries_become_searchable_witness:
  "\<exists>s0 s. startup (\<lambda>_. None) demo_platform Map.empty = Some s0 \<and> sys_steps demo_platform s0 s \<and>
     stored_log (sy_pipe s) = [sent_entry] \<and> fst (Lag (Since (sy_store s)) (sy_embed s)) = 0"
proof -
  from demo_run_exists obtain s0 s where run: "startup (\<lambda>_. None) demo_platform Map.empty = Some s0"
    "sys_steps demo_platform s0 s" "p_accepted (sy_pipe s) = [sent_entry]"
    "w_phase (p_writer (sy_pipe s)) = Running" by blast
  from entries_become_searchable [OF run(1,2) _ run(4)] run(3) obtain s' where
    "sys_steps demo_platform s s'" "stored_log (sy_pipe s') = [sent_entry]" "fst (Lag (Since (sy_store s')) (sy_embed s')) = 0"
    by auto
  with run(1,2) show ?thesis by (meson rtranclp_trans)
qed

theorem searches_depend_on_own_entries_witness:
  "\<exists>s0 s. startup (\<lambda>_. None) demo_platform Map.empty = Some s0 \<and> sys_steps demo_platform s0 s \<and>
     stored_log (sy_pipe s) = [sent_entry] \<and>
     map_sum id (map LogEntry) (fst (StructuredSearch (main_service demo_platform s) 1 \<lparr>Actor = ''alice'', id_TenantID = ''acme'', id_Role = Admin\<rparr> (empty_query [])))
       = map_sum id (map LogEntry) (fst (StructuredSearch (main_service demo_platform s0) 2 \<lparr>Actor = ''alice'', id_TenantID = ''acme'', id_Role = Admin\<rparr> (empty_query [])))"
proof -
  from demo_run_exists obtain s0 s where run: "startup (\<lambda>_. None) demo_platform Map.empty = Some s0"
    "sys_steps demo_platform s0 s" "entries (sy_store s) = [\<lparr>ID = 1, LogEntry = sent_entry\<rparr>]" by blast
  have stored: "stored_log (sy_pipe s) = [sent_entry]" using run(3) by (simp add: stored_log_def abs_log_def sy_store_def)
  have "p_accepted (sy_pipe s0) = []" using default_startup [of "\<lambda>_. None"] run(1) by auto
  then have start: "stored_log (sy_pipe s0) = []"
    using sys_ok_hot_path [OF reachable_ok [OF rtranclp.rtrancl_refl run(1,1)]] by simp
  have "filter (\<lambda>e. TenantID e = ''acme'') (stored_log (sy_pipe s)) = filter (\<lambda>e. TenantID e = ''acme'') (stored_log (sy_pipe s0))"
    by (simp add: stored start sent_entry_facts)
  from searches_depend_on_own_entries [OF run(1,2,1) rtranclp.rtrancl_refl _ this] run stored show ?thesis
    by (intro exI [of _ s0] exI [of _ s]) simp
qed

theorem searches_see_one_state_witness:
  "\<exists>s0 s. startup (\<lambda>_. None) demo_platform Map.empty = Some s0 \<and> sys_steps demo_platform s0 s \<and> s \<noteq> s0 \<and>
     resolve_hits (main_service demo_platform s) ''acme'' (SearchVec insertionSort (ew_vec (sy_embed s0)) ''acme'' (main_embed demo_platform ''pool'') 2)
       = resolve_hits (main_service demo_platform s0) ''acme'' (SearchVec insertionSort (ew_vec (sy_embed s0)) ''acme'' (main_embed demo_platform ''pool'') 2)"
proof -
  from demo_run_exists obtain s0 s where run: "startup (\<lambda>_. None) demo_platform Map.empty = Some s0"
    "sys_steps demo_platform s0 s" "p_accepted (sy_pipe s) = [sent_entry]" by blast
  have "p_accepted (sy_pipe s0) = []" using default_startup [of "\<lambda>_. None"] run(1) by auto
  with run(3) have "s \<noteq> s0" by auto
  moreover have "slice_sorter (pl_sort demo_platform)" by (simp add: demo_platform_def insertion.slice_sorter_axioms)
  moreover have "length (p_accepted (sy_pipe s)) < 2 ^ 63" by (simp add: run(3))
  ultimately show ?thesis
    using searches_see_one_state [OF run(1) rtranclp.rtrancl_refl run(2), of "SearchVec insertionSort (ew_vec (sy_embed s0)) ''acme'' (main_embed demo_platform ''pool'') 2"
        "''acme''" "main_embed demo_platform ''pool''" 2] run(1,2)
    by (intro exI [of _ s0] exI [of _ s]) (simp add: demo_platform_def)
qed

end
